(* ===== verification/Cse_Base.thy ===== *)
theory Cse_Base
  imports Main "HOL-Library.Word" "HOL-Library.Sublist"
begin

text \<open>
  Prelude of the development: how C's failures, arrays and strings are written in HOL, and
  the general facts about them that the component theories share.
  \<^item> A run of C code that would leave the language (an access outside an object, a null
    dereference, a loop that never ends) is a value \<open>Inl fault\<close> of \<open>'a res\<close>; a normal return
    is \<open>Inr\<close>. The error codes of the source (-1, 0) are ordinary values of a normal return.
  \<^item> A byte and a C \<open>char\<close> are HOL's 8-bit \<open>char\<close>; a C string is the list of the bytes before
    its terminating NUL.
  \<^item> The routines of the C library the sources call (strstr, strchr, strcasecmp, atoi,
    isspace, memcpy) are written out here.
\<close>

unbundle bit_operations_syntax

named_theorems cse_defs \<open>the handlers' definitions, unfolded together in an evaluation\<close>
named_theorems frame_simps \<open>what an operation leaves unchanged\<close>

subsection \<open>Faults and sequencing\<close>

datatype fault = OutOfBounds | NullPointer | OutOfFuel

type_synonym 'a res = "fault + 'a"

definition bindR :: "'a res \<Rightarrow> ('a \<Rightarrow> 'b res) \<Rightarrow> 'b res" where
  "bindR m f = (case m of Inl e \<Rightarrow> Inl e | Inr x \<Rightarrow> f x)"

lemma bindR_simps [simp]:
  "bindR (Inl e) f = Inl e"
  "bindR (Inr x) f = f x"
  by (simp_all add: bindR_def)

lemma bindR_cong [fundef_cong]:
  "m = m' \<Longrightarrow> (\<And>x. m' = Inr x \<Longrightarrow> f x = g x) \<Longrightarrow> bindR m f = bindR m' g"
  by (auto simp: bindR_def split: sum.split)

lemma bindR_Inr_iff: "bindR m f = Inr y \<longleftrightarrow> (\<exists>x. m = Inr x \<and> f x = Inr y)"
  by (auto simp: bindR_def split: sum.split)

lemma bindR_Inl_iff: "bindR m f = Inl e \<longleftrightarrow> m = Inl e \<or> (\<exists>x. m = Inr x \<and> f x = Inl e)"
  by (auto simp: bindR_def split: sum.split)

lemma bindR_assoc: "bindR (bindR m f) g = bindR m (\<lambda>x. bindR (f x) g)"
  by (auto simp: bindR_def split: sum.split)

text \<open>\<open>returns P m\<close>: the run does not fault, and what it returns satisfies \<open>P\<close>.\<close>

definition returns :: "('a \<Rightarrow> bool) \<Rightarrow> 'a res \<Rightarrow> bool" where
  "returns P m \<longleftrightarrow> (case m of Inl e \<Rightarrow> False | Inr x \<Rightarrow> P x)"

lemma returns_simps [simp]: "returns P (Inl e) = False" "returns P (Inr x) = P x"
  by (simp_all add: returns_def)

lemma returns_bindR: "returns P (bindR m f) = returns (\<lambda>x. returns P (f x)) m"
  by (auto simp: returns_def bindR_def split: sum.split)

lemma returns_mono: "returns P m \<Longrightarrow> (\<And>x. P x \<Longrightarrow> Q x) \<Longrightarrow> returns Q m"
  by (auto simp: returns_def split: sum.splits)

lemma returns_bindI:
  "returns P m \<Longrightarrow> (\<And>x. P x \<Longrightarrow> returns Q (f x)) \<Longrightarrow> returns Q (bindR m f)"
  by (cases m) (auto simp: returns_bindR)

lemma returns_conj: "returns (\<lambda>x. P x \<and> Q x) m \<longleftrightarrow> returns P m \<and> returns Q m"
  by (auto simp: returns_def split: sum.splits)

lemma returnsE: "returns P m \<Longrightarrow> (\<And>x. m = Inr x \<Longrightarrow> P x \<Longrightarrow> thesis) \<Longrightarrow> thesis"
  by (auto simp: returns_def split: sum.splits)

lemma returns_iff: "returns P m \<longleftrightarrow> (\<exists>x. m = Inr x \<and> P x)"
  by (auto simp: returns_def split: sum.splits)

text \<open>Runs that return a flag the caller branches on.\<close>

lemma returns_seq:
  assumes "returns Q m" "\<And>ok x. Q (ok, x) \<Longrightarrow> returns P (f ok x)"
  shows "returns P (bindR m (\<lambda>(ok, x). f ok x))"
  by (rule returns_bindI [OF assms(1)]) (use assms(2) in auto)

lemma returns_if:
  assumes "returns (\<lambda>(ok, x). if ok then A x else B x) m"
    and "\<And>x. A x \<Longrightarrow> returns Q (g x)" "\<And>x. B x \<Longrightarrow> returns Q (h x)"
  shows "returns Q (bindR m (\<lambda>(ok, x). if ok then g x else h x))"
proof -
  obtain ok x where "m = Inr (ok, x)" "if ok then A x else B x" using assms(1) by (auto simp: returns_iff)
  then show ?thesis using assms(2,3) [of x] by (cases ok) auto
qed

subsection \<open>Bytes and arrays\<close>

abbreviation NUL :: char where "NUL \<equiv> CHR 0x00"

text \<open>
  \<open>read_mem src off n\<close> is the \<open>n\<close> bytes at offset \<open>off\<close> of an object; \<open>store dst off bs\<close>
  writes bytes at \<open>off\<close>. Both fault when the access leaves the object.
\<close>

definition read_mem :: "string \<Rightarrow> int \<Rightarrow> int \<Rightarrow> string res" where
  "read_mem src off n =
     (if 0 \<le> off \<and> 0 \<le> n \<and> off + n \<le> int (length src)
      then Inr (take (nat n) (drop (nat off) src)) else Inl OutOfBounds)"

definition store :: "string \<Rightarrow> int \<Rightarrow> string \<Rightarrow> string res" where
  "store dst off bs =
     (if 0 \<le> off \<and> off + int (length bs) \<le> int (length dst)
      then Inr (take (nat off) dst @ bs @ drop (nat off + length bs) dst)
      else Inl OutOfBounds)"

lemma length_store: "store dst off bs = Inr d \<Longrightarrow> length d = length dst"
  by (auto simp: store_def split: if_splits)

lemma store_obtain:
  assumes "0 \<le> off" "off + int (length bs) \<le> int (length dst)"
  obtains d where "store dst off bs = Inr d" "length d = length dst"
    "d = take (nat off) dst @ bs @ drop (nat off + length bs) dst"
  using assms by (simp add: store_def)

lemma take_take_append: "a \<le> b \<Longrightarrow> a \<le> length p \<Longrightarrow> take a (take b p @ zs) = take a p"
  by (simp add: min_def)

lemma store_in_bounds:
  "off + length bs \<le> length dst \<Longrightarrow>
   store dst (int off) bs = Inr (take off dst @ bs @ drop (off + length bs) dst)"
  by (simp add: store_def)

lemma read_mem_full: "n = int (length src) \<Longrightarrow> read_mem src 0 n = Inr src"
  by (simp add: read_mem_def)

lemma and_255_mod: "(x::int) AND 255 = x mod 256"
  using take_bit_eq_mask [of 8 x] by (simp add: take_bit_eq_mod mask_eq_exp_minus_1)

lemma of_char_less: "(of_char c :: int) < 256" "0 \<le> (of_char c :: int)"
proof -
  have "take_bit 8 (of_char c) = (of_char c :: int)"
    by (cases c) (simp add: of_char_def horner_sum_bit_eq_take_bit take_bit_horner_sum_bit_eq)
  then show "(of_char c :: int) < 256" "0 \<le> (of_char c :: int)"
    using take_bit_int_less_exp [of 8 "of_char c :: int"] take_bit_nonnegative [of 8 "of_char c :: int"]
    by simp_all
qed

lemma of_char_mod: "(of_char c :: int) mod 256 = of_char c"
  using of_char_less [of c] by simp

lemma last_not_in_butlast: "distinct xs \<Longrightarrow> xs \<noteq> [] \<Longrightarrow> last xs \<notin> set (butlast xs)"
  by (induction xs rule: rev_induct) auto

subsection \<open>C strings\<close>

definition is_cstring :: "string \<Rightarrow> bool" where
  "is_cstring s \<longleftrightarrow> NUL \<notin> set s"

definition cstr_of :: "string \<Rightarrow> string" where
  "cstr_of buf = takeWhile (\<lambda>c. c \<noteq> NUL) buf"

lemma is_cstring_cstr_of [simp]: "is_cstring (cstr_of buf)"
  by (auto simp: is_cstring_def cstr_of_def dest: set_takeWhileD)

lemma cstr_of_terminated: "is_cstring s \<Longrightarrow> cstr_of (s @ NUL # rest) = s"
  by (induction s) (auto simp: cstr_of_def is_cstring_def)

text \<open>The C string at an offset of an array; reading on without a terminator leaves the array.\<close>

definition cstr_at :: "string \<Rightarrow> nat \<Rightarrow> string res" where
  "cstr_at buf i = (if NUL \<in> set (drop i buf) then Inr (cstr_of (drop i buf)) else Inl OutOfBounds)"

text \<open>A character as an \<open>int\<close>, as \<open>fgetc\<close> and \<open>cse_read_byte\<close> return it.\<close>

abbreviation code_of :: "char \<Rightarrow> int" where "code_of c \<equiv> of_char c"

text \<open>The value of a plain \<open>char\<close>, signed on the platforms the module is built for.\<close>

definition schar :: "char \<Rightarrow> int" where
  "schar c = (let n = of_char c in if n < 128 then n else n - 256)"

text \<open>
  \<open>char_at s i\<close> is \<open>s[i]\<close> for a C string: the terminator is readable, anything past it is
  outside the string.
\<close>

definition char_at :: "string \<Rightarrow> int \<Rightarrow> char res" where
  "char_at s i =
     (if 0 \<le> i \<and> i < int (length s) then Inr (s ! nat i)
      else if i = int (length s) then Inr NUL else Inl OutOfBounds)"

fun strstr :: "string \<Rightarrow> string \<Rightarrow> nat option" where
  "strstr [] pat = (if pat = [] then Some 0 else None)"
| "strstr (c # cs) pat =
     (if prefix pat (c # cs) then Some 0 else map_option Suc (strstr cs pat))"

fun strchr :: "string \<Rightarrow> char \<Rightarrow> nat option" where
  "strchr [] x = None"
| "strchr (c # cs) x = (if c = x then Some 0 else map_option Suc (strchr cs x))"

definition is_space :: "char \<Rightarrow> bool" where
  "is_space c \<longleftrightarrow> c \<in> {CHR '' '', CHR 0x09, CHR 0x0A, CHR 0x0B, CHR 0x0C, CHR 0x0D}"

definition is_digit :: "char \<Rightarrow> bool" where
  "is_digit c \<longleftrightarrow> 48 \<le> (of_char c :: int) \<and> (of_char c :: int) \<le> 57"

definition to_lower :: "char \<Rightarrow> char" where
  "to_lower c = (let n = of_char c :: int in
     if 65 \<le> n \<and> n \<le> 90 then char_of (n + 32) else c)"

text \<open>\<open>strcasecmp a b = 0\<close>.\<close>

definition strcaseeq :: "string \<Rightarrow> string \<Rightarrow> bool" where
  "strcaseeq a b \<longleftrightarrow> map to_lower a = map to_lower b"

fun atoi_digits :: "int \<Rightarrow> string \<Rightarrow> int" where
  "atoi_digits acc [] = acc"
| "atoi_digits acc (c # cs) =
     (if is_digit c then atoi_digits (10 * acc + (of_char c - 48)) cs else acc)"

text \<open>\<open>atoi\<close> on a value that fits an \<open>int\<close> (C leaves the others undefined).\<close>

definition atoi :: "string \<Rightarrow> int" where
  "atoi s = (case dropWhile is_space s of
       [] \<Rightarrow> 0
     | c # cs \<Rightarrow> if c = CHR ''-'' then - atoi_digits 0 cs
                else if c = CHR ''+'' then atoi_digits 0 cs else atoi_digits 0 (c # cs))"

subsection \<open>Decimal numbers (\<open>%d\<close>, \<open>%u\<close>)\<close>

fun nat_str :: "nat \<Rightarrow> string" where
  "nat_str n = (if n < 10 then [char_of (48 + n)] else nat_str (n div 10) @ [char_of (48 + n mod 10)])"

declare nat_str.simps [simp del]

definition int_str :: "int \<Rightarrow> string" where
  "int_str n = (if n < 0 then ''-'' @ nat_str (nat (- n)) else nat_str (nat n))"

subsection \<open>Searching for a substring\<close>

text \<open>
  The contract of a substring search: \<open>find s pat\<close> is the offset of the first occurrence.
  What the matching code relies on is proved once from this contract.
\<close>

locale substring_search =
  fixes find :: "string \<Rightarrow> string \<Rightarrow> nat option"
  assumes find_Some: "find s pat = Some n \<Longrightarrow> \<exists>rest. s = take n s @ pat @ rest \<and> n \<le> length s"
    and find_first: "find s pat = Some n \<Longrightarrow> s = a @ pat @ b \<Longrightarrow> n \<le> length a"
    and find_None: "find s pat = None \<Longrightarrow> s \<noteq> a @ pat @ b"
begin

lemma find_iff: "find s pat \<noteq> None \<longleftrightarrow> sublist pat s"
proof
  assume "find s pat \<noteq> None"
  then obtain n where "find s pat = Some n" by blast
  then show "sublist pat s" using find_Some sublist_def by metis
next
  assume "sublist pat s"
  then obtain a b where "s = a @ pat @ b" by (auto simp: sublist_def)
  then show "find s pat \<noteq> None" using find_None by blast
qed

lemma find_split:
  assumes "find s pat = Some n"
  shows "s = take n s @ pat @ drop (n + length pat) s"
proof -
  obtain rest where r: "s = take n s @ pat @ rest" "n \<le> length s"
    using find_Some [OF assms] by blast
  have "drop (n + length pat) s = drop (n + length pat) (take n s @ pat @ rest)"
    using r(1) by simp
  also have "\<dots> = rest" using r(2) by simp
  finally show ?thesis using r(1) by simp
qed

lemma find_bound: "find s pat = Some n \<Longrightarrow> n + length pat \<le> length s"
  using find_Some [of s pat n] by (metis add_le_mono1 append_eq_append_conv_if append_take_drop_id
      length_append length_take min.absorb2 le_add1 add.assoc add_le_cancel_left)

end

lemma strstr_Some_split: "strstr s pat = Some n \<Longrightarrow> \<exists>rest. s = take n s @ pat @ rest \<and> n \<le> length s"
proof (induction s pat arbitrary: n rule: strstr.induct)
  case (1 pat)
  then show ?case by (auto split: if_splits)
next
  case (2 c cs pat)
  show ?case
  proof (cases "prefix pat (c # cs)")
    case True
    with 2 show ?thesis by (auto simp: prefix_def)
  next
    case False
    with "2.prems" obtain m where m: "strstr cs pat = Some m" "n = Suc m" by auto
    from "2.IH" [OF False m(1)] m(2) show ?thesis by simp
  qed
qed

lemma strstr_None_iff: "strstr s pat = None \<longleftrightarrow> \<not> sublist pat s"
proof (induction s)
  case Nil
  then show ?case by (auto simp: sublist_def)
next
  case (Cons c cs)
  then show ?case by (auto simp: sublist_Cons_right)
qed

lemma strstr_first: "strstr s pat = Some n \<Longrightarrow> s = a @ pat @ b \<Longrightarrow> n \<le> length a"
proof (induction s pat arbitrary: n a rule: strstr.induct)
  case (1 pat)
  then show ?case by (auto split: if_splits)
next
  case (2 c cs pat)
  show ?case
  proof (cases "prefix pat (c # cs)")
    case True
    with "2.prems"(1) show ?thesis by simp
  next
    case False
    with "2.prems"(1) obtain m where m: "strstr cs pat = Some m" "n = Suc m"
      by (auto split: if_splits)
    from False "2.prems"(2) obtain a' where a': "a = c # a'" "cs = a' @ pat @ b"
      by (cases a) (auto simp: prefix_def)
    from "2.IH" [OF False m(1) a'(2)] a'(1) m(2) show ?thesis by simp
  qed
qed

interpretation cs: substring_search strstr
proof
  fix s pat n assume "strstr s pat = Some n"
  then show "\<exists>rest. s = take n s @ pat @ rest \<and> n \<le> length s" by (rule strstr_Some_split)
next
  fix s pat n a b assume "strstr s pat = Some n" "s = a @ pat @ b"
  then show "n \<le> length a" by (rule strstr_first)
next
  fix s pat a b assume "strstr s pat = None"
  then show "s \<noteq> a @ pat @ b" by (auto simp: strstr_None_iff sublist_def)
qed

lemma strstr_append_hit: "\<exists>n. strstr (a @ pat @ b) pat = Some n \<and> n \<le> length a"
proof (cases "strstr (a @ pat @ b) pat")
  case None
  then show ?thesis by (auto simp: strstr_None_iff)
next
  case (Some n)
  then show ?thesis using strstr_first by blast
qed

lemma strchr_Some: "strchr s x = Some n \<Longrightarrow> n < length s \<and> s ! n = x \<and> x \<notin> set (take n s)"
  by (induction s x arbitrary: n rule: strchr.induct) (auto split: if_splits)

lemma strchr_None: "strchr s x = None \<longleftrightarrow> x \<notin> set s"
  by (induction s x rule: strchr.induct) auto

end
