(* ===== verification/Cse_State.thy ===== *)
theory Cse_State
  imports Cse_Base
begin

text \<open>
  The module's long-lived data (cse.h): the location table, the servlet runners with their
  pools of idle sockets, and the configuration that holds both.  Pointers that the module
  only hands back to Apache (\<open>server\<close>, \<open>pool\<close>, \<open>lock\<close>) have no field; \<open>locations\<close> is the
  linked list from its head; \<open>c_registry\<close> is the address of the registry's root on the heap of Cse_Registry.  \<open>srun_list\<close> is the allocated array, of which the first
  \<open>srun_size\<close> entries are in use; \<open>sr_sockets\<close> is the array of 1024 descriptors of a runner.  Fields are the C fields with a prefix
  (\<open>sr_\<close>, \<open>loc_\<close>, \<open>c_\<close>) where the bare name is too common.
\<close>

record location =
  loc_host :: "string option"
  loc_port :: int
  loc_prefix :: "string option"
  loc_suffix :: "string option"
  loc_is_exact :: bool

definition SOCKETS_LENGTH :: int where "SOCKETS_LENGTH = 1024"

record srun =
  sr_hostname :: "string option"
  sr_host :: "32 word option"
  sr_port :: int
  sr_is_backup :: bool
  sr_session :: int
  sr_is_dead :: bool
  sr_last_time :: "32 word"
  sr_sockets :: "int \<Rightarrow> int"
  sr_max_sockets :: int
  sr_n_sockets :: int
  sr_is_default :: bool
  sr_connect_timeout :: int
  sr_live_time :: int
  sr_dead_time :: int

text \<open>A runner as \<open>memset\<close> leaves it.\<close>

definition zero_srun :: srun where
  "zero_srun = \<lparr>sr_hostname = None, sr_host = None, sr_port = 0, sr_is_backup = False, sr_session = 0,
     sr_is_dead = False, sr_last_time = 0, sr_sockets = (\<lambda>_. 0), sr_max_sockets = 0, sr_n_sockets = 0,
     sr_is_default = False, sr_connect_timeout = 0, sr_live_time = 0, sr_dead_time = 0\<rparr>"

record config =
  c_error :: "string option"
  disable_caucho_status :: bool
  c_path :: "string option"
  resin_home :: "string option"
  error_page :: "string option"
  c_registry :: "nat option"
  locations :: "location list"
  srun_list :: "srun list"
  srun_capacity :: int
  srun_size :: int
  update_count :: int

text \<open>\<open>cse_error\<close> formats the message in a buffer of 8192 bytes and keeps it.\<close>

definition cse_error :: "string \<Rightarrow> config \<Rightarrow> config res" where
  "cse_error msg config =
     (if length msg + 1 > 8192 then Inl OutOfBounds else Inr (config\<lparr>c_error := Some msg\<rparr>))"

definition DEFAULT_PORT :: int where "DEFAULT_PORT = 6802"

text \<open>
  \<open>cse_create_server_config\<close>: a zeroed configuration with room for 16 runners, the first of
  which is the local default.
\<close>

definition cse_create_server_config :: config where
  "cse_create_server_config =
     (let srun_list = replicate 16 zero_srun;
          srun = (srun_list ! 0)\<lparr>sr_port := DEFAULT_PORT, sr_session := 0, sr_max_sockets := 32\<rparr>
      in \<lparr>c_error = None, disable_caucho_status = False, c_path = None, resin_home = None,
          error_page = None, c_registry = None, locations = [], srun_list = srun_list[0 := srun],
          srun_capacity = 16, srun_size = 1, update_count = 0\<rparr>)"

end
