(* ===== verification/Cse_Location.thy ===== *)
theory Cse_Location
  imports Cse_State
begin

text \<open>
  The location table (config.c): which URLs belong to the servlet runners.  First the
  operations, in the order of the file, then what the table decides.
\<close>

subsection \<open>Building the table\<close>

definition location_differs ::
  "location \<Rightarrow> string option \<Rightarrow> int \<Rightarrow> string option \<Rightarrow> string option \<Rightarrow> bool \<Rightarrow> bool" where
  "location_differs loc host port pre suf is_exact =
     ((host = None) \<noteq> (loc_host loc = None) \<or>
      host \<noteq> None \<and> the host \<noteq> the (loc_host loc) \<or>
      port \<noteq> loc_port loc \<or>
      is_exact \<noteq> loc_is_exact loc \<or>
      (pre = None) \<noteq> (loc_prefix loc = None) \<or>
      pre \<noteq> None \<and> the pre \<noteq> the (loc_prefix loc) \<or>
      (suf = None) \<noteq> (loc_suffix loc = None) \<or>
      suf \<noteq> None \<and> the suf \<noteq> the (loc_suffix loc))"

fun has_location ::
  "location list \<Rightarrow> string option \<Rightarrow> int \<Rightarrow> string option \<Rightarrow> string option \<Rightarrow> bool \<Rightarrow> bool" where
  "has_location [] host port pre suf is_exact = False"
| "has_location (loc # locs) host port pre suf is_exact =
     (if location_differs loc host port pre suf is_exact
      then has_location locs host port pre suf is_exact else True)"

definition cse_add_unique_location ::
  "string option \<Rightarrow> int \<Rightarrow> string option \<Rightarrow> string option \<Rightarrow> bool \<Rightarrow> config \<Rightarrow> config" where
  "cse_add_unique_location host port pre suf is_exact config =
     (if has_location (locations config) host port pre suf is_exact then config
      else config\<lparr>locations := \<lparr>loc_host = host, loc_port = port, loc_prefix = pre,
             loc_suffix = suf, loc_is_exact = is_exact\<rparr> # locations config\<rparr>)"

text \<open>\<open>strcat\<close> on the 4096-byte array \<open>cleanPrefix\<close>.\<close>

definition strcat_clean :: "string \<Rightarrow> string \<Rightarrow> string res" where
  "strcat_clean clean s =
     (if length clean + length s + 1 > 4096 then Inl OutOfBounds else Inr (clean @ s))"

text \<open>
  The steps of \<open>cse_add_location\<close>: a port after the host's colon; a slash in front of a prefix
  or pattern that has none; one slash cut off at the end of the prefix; and, for a pattern
  that is a path, its last characters (nothing for \<open>/\<close>, an exact path, or \<open>/*\<close> cut off).
\<close>

definition split_host :: "string option \<Rightarrow> string option \<times> int" where
  "split_host host =
     (case host of None \<Rightarrow> (None, 0)
      | Some h \<Rightarrow> (case strchr h (CHR '':'') of
            None \<Rightarrow> (Some h, 0)
          | Some i \<Rightarrow> (Some (take i h), atoi (drop (i + 1) h))))"

definition clean_start :: "string \<Rightarrow> string \<Rightarrow> string" where
  "clean_start pre pattern =
     (if pre = [] \<and> pattern \<noteq> [] \<and> hd pattern \<noteq> CHR ''/'' \<and> hd pattern \<noteq> CHR ''*'' then ''/''
      else if pre \<noteq> [] \<and> hd pre \<noteq> CHR ''/'' then ''/'' else [])"

definition strip_slash :: "string \<Rightarrow> string" where
  "strip_slash clean = (if clean \<noteq> [] \<and> last clean = CHR ''/'' then butlast clean else clean)"

definition cut_pattern :: "string \<Rightarrow> string \<Rightarrow> string \<times> bool" where
  "cut_pattern pattern clean =
     (let cleanLength = length clean in
      if length pattern \<le> 1 then (take (cleanLength - 1) clean, False)
      else if last clean \<noteq> CHR ''*'' then (clean, True)
      else if cleanLength > 2 then (take (cleanLength - 2) clean, False)
      else (clean, False))"

definition cse_add_location :: "string option \<Rightarrow> string \<Rightarrow> string \<Rightarrow> config \<Rightarrow> config res" where
  "cse_add_location host pre pattern config =
     (let (the_host, the_port) = split_host host
      in bindR (strcat_clean (clean_start pre pattern) pre) (\<lambda>clean.
       let clean = strip_slash clean
       in if pattern = [] then
            Inr (cse_add_unique_location the_host the_port (Some clean) None False config)
          else if hd pattern = CHR ''*'' then
            Inr (cse_add_unique_location the_host the_port (Some clean) (Some (tl pattern)) False config)
          else
            bindR (if hd pattern \<noteq> CHR ''/'' then strcat_clean clean ''/'' else Inr clean) (\<lambda>clean.
            bindR (strcat_clean clean pattern) (\<lambda>clean.
              let (clean, is_exact) = cut_pattern pattern clean
              in Inr (cse_add_unique_location the_host the_port (Some clean) None is_exact config)))))"

subsection \<open>Matching a request\<close>

fun cse_starts_with :: "string \<Rightarrow> string \<Rightarrow> bool" where
  "cse_starts_with full [] = (full = [] \<or> hd full = CHR ''/'')"
| "cse_starts_with [] (ch2 # part) = False"
| "cse_starts_with (ch1 # full) (ch2 # part) = (if ch1 = ch2 then cse_starts_with full part else False)"

text \<open>
  The scan for a suffix, one turn of the do-while loop per unit of fuel; a turn that finds
  the suffix moves past it, so \<open>length full + 1\<close> turns are enough unless the suffix is empty.
\<close>

fun match_suffix_loop :: "nat \<Rightarrow> string \<Rightarrow> string \<Rightarrow> bool res" where
  "match_suffix_loop 0 full suf = Inl OutOfFuel"
| "match_suffix_loop (Suc fuel) full suf =
     (case strstr full suf of
        None \<Rightarrow> Inr False
      | Some i \<Rightarrow>
          let after = drop (i + length suf) full
          in if after = [] \<or> hd after = CHR ''/'' then Inr True
             else let full = after
                  in if full \<noteq> [] then match_suffix_loop fuel full suf else Inr False)"

definition cse_match_suffix :: "string \<Rightarrow> string \<Rightarrow> bool res" where
  "cse_match_suffix full suf = match_suffix_loop (length full + 1) full suf"

text \<open>The body of the loop over the table: True is \<open>return 1\<close>, False is \<open>continue\<close>.\<close>

definition location_accepts :: "location \<Rightarrow> string \<Rightarrow> int \<Rightarrow> string \<Rightarrow> bool res" where
  "location_accepts loc host port uri =
     (case loc_host loc of
        None \<Rightarrow> Inl NullPointer
      | Some lhost \<Rightarrow>
          if lhost \<noteq> [] \<and> strstr lhost host = None then Inr False
          else if port \<noteq> 0 \<and> loc_port loc \<noteq> 0 \<and> port \<noteq> loc_port loc then Inr False
          else case loc_prefix loc of
              None \<Rightarrow> Inl NullPointer
            | Some pre \<Rightarrow>
                if loc_is_exact loc \<and> uri = pre then Inr True
                else if loc_is_exact loc then Inr False
                else if \<not> cse_starts_with uri pre then Inr False
                else case loc_suffix loc of
                    None \<Rightarrow> Inr True
                  | Some suf \<Rightarrow> cse_match_suffix uri suf)"

fun cse_match_location :: "location list \<Rightarrow> string \<Rightarrow> int \<Rightarrow> string \<Rightarrow> bool res" where
  "cse_match_location [] host port uri = Inr False"
| "cse_match_location (loc # locs) host port uri =
     bindR (location_accepts loc host port uri) (\<lambda>accepts.
       if accepts then Inr True else cse_match_location locs host port uri)"

text \<open>
  \<open>cse_match_request\<close> cuts the session parameter off in an array of 4096 bytes, into which the
  whole URI is copied first.
\<close>

definition cse_match_request :: "config \<Rightarrow> string \<Rightarrow> int \<Rightarrow> string \<Rightarrow> bool res" where
  "cse_match_request config host port uri =
     bindR (case strstr uri '';jsessionid='' of
              None \<Rightarrow> Inr uri
            | Some i \<Rightarrow> if length uri + 1 > 4096 then Inl OutOfBounds else Inr (take i uri))
       (\<lambda>test. bindR (cse_match_location (locations config) host port test) (\<lambda>m.
         Inr (m \<or> strstr test ''/j_security_check'' \<noteq> None)))"

text \<open>
  \<open>cse_dispatch\<close> (mod_caucho.c): the handler Apache is told to run, if the module takes the
  request.  The server name and port are Apache's answers about the request.
\<close>

datatype dispatch = Declined | Handler string

definition cse_dispatch :: "config option \<Rightarrow> string \<Rightarrow> int \<Rightarrow> string \<Rightarrow> dispatch res" where
  "cse_dispatch config host port uri =
     (case config of
        None \<Rightarrow> Inr Declined
      | Some config \<Rightarrow>
          bindR (cse_match_request config host port uri) (\<lambda>m.
            if m then Inr (Handler ''caucho-request'')
            else if \<not> disable_caucho_status config \<and> uri = ''/caucho-status''
              then Inr (Handler ''caucho-status'')
            else Inr Declined))"

subsection \<open>Prefixes\<close>

lemma cse_starts_with_iff:
  "cse_starts_with full part \<longleftrightarrow> (\<exists>rest. full = part @ rest \<and> (rest = [] \<or> hd rest = CHR ''/''))"
  by (induction full part rule: cse_starts_with.induct) auto

subsection \<open>Suffixes: termination, soundness, completeness\<close>

lemma match_suffix_enough_fuel:
  assumes "suf \<noteq> []" "length full < n"
  shows "returns (\<lambda>b. True) (match_suffix_loop n full suf)"
  using assms(2)
proof (induction n arbitrary: full)
  case (Suc n)
  show ?case
  proof (cases "strstr full suf")
    case (Some i)
    let ?after = "drop (i + length suf) full"
    have "length ?after < n" if "?after \<noteq> []" using that Suc.prems assms(1) by (cases suf) auto
    then show ?thesis using Some Suc.IH [of ?after] by (auto simp: Let_def)
  qed simp
qed simp

text \<open>More turns change nothing once the loop has returned.\<close>

lemma match_suffix_mono:
  "match_suffix_loop n full suf = Inr b \<Longrightarrow> match_suffix_loop (Suc n) full suf = Inr b"
proof (induction n arbitrary: full)
  case (Suc n)
  show ?case
  proof (cases "strstr full suf")
    case (Some i)
    let ?after = "drop (i + length suf) full"
    show ?thesis using Some Suc.IH [of ?after] Suc.prems
      by (auto simp: Let_def simp del: match_suffix_loop.simps(1) split: if_splits)
  qed (use Suc.prems in simp)
qed simp

text \<open>The suffix stands in \<open>full\<close> at the end or in front of a slash.\<close>

definition ends_segment :: "string \<Rightarrow> string \<Rightarrow> bool" where
  "ends_segment full suf \<longleftrightarrow>
     (\<exists>a rest. full = a @ suf @ rest \<and> (rest = [] \<or> hd rest = CHR ''/''))"

lemma ends_segment_drop: "ends_segment (drop n full) suf \<Longrightarrow> ends_segment full suf"
  unfolding ends_segment_def by (metis append_assoc append_take_drop_id)

lemma match_suffix_sound: "match_suffix_loop n full suf = Inr True \<Longrightarrow> ends_segment full suf"
proof (induction n arbitrary: full)
  case (Suc n)
  from Suc.prems obtain i where i: "strstr full suf = Some i" by (auto split: option.splits)
  let ?after = "drop (i + length suf) full"
  note split = cs.find_split [OF i]
  show ?case
  proof (cases "?after = [] \<or> hd ?after = CHR ''/''")
    case True
    with split show ?thesis unfolding ends_segment_def by metis
  next
    case False
    then have "match_suffix_loop n ?after suf = Inr True" using Suc.prems i by (simp add: Let_def)
    then show ?thesis using Suc.IH ends_segment_drop by blast
  qed
qed simp

text \<open>A pattern with no proper border: it cannot overlap itself.\<close>

definition unbordered :: "string \<Rightarrow> bool" where
  "unbordered suf \<longleftrightarrow> (\<forall>k. 0 < k \<and> k < length suf \<longrightarrow> drop k suf \<noteq> take (length suf - k) suf)"

lemma occurrences_apart:
  assumes "unbordered suf" "full = a @ suf @ b" "full = a' @ suf @ b'" "length a < length a'"
  shows "length a + length suf \<le> length a'"
proof (rule ccontr)
  define k where "k = length a' - length a"
  assume "\<not> length a + length suf \<le> length a'"
  then have k: "0 < k" "k < length suf" using assms(4) by (simp_all add: k_def)
  have la': "length a' = length a + k" using assms(4) by (simp add: k_def)
  have "drop (length a') full = suf @ b'" using assms(3) by simp
  moreover have "drop (length a') full = drop k suf @ b" using assms(2) k la' by simp
  ultimately have "take (length suf - k) (drop k suf @ b) = take (length suf - k) (suf @ b')" by simp
  then have "drop k suf = take (length suf - k) suf" using k by simp
  then show False using assms(1) k by (auto simp: unbordered_def)
qed

lemma match_suffix_complete:
  assumes "unbordered suf" "suf \<noteq> []" "length full < n" "ends_segment full suf"
  shows "match_suffix_loop n full suf = Inr True"
  using assms(3,4)
proof (induction n arbitrary: full)
  case (Suc n)
  obtain a rest where occ: "full = a @ suf @ rest" "rest = [] \<or> hd rest = CHR ''/''"
    using Suc.prems(2) by (auto simp: ends_segment_def)
  obtain i where i: "strstr full suf = Some i" "i \<le> length a"
    using strstr_append_hit occ(1) by blast
  let ?after = "drop (i + length suf) full"
  note split = cs.find_split [OF i(1)]
  show ?case
  proof (cases "?after = [] \<or> hd ?after = CHR ''/''")
    case True
    then show ?thesis using i(1) by (simp add: Let_def)
  next
    case False
    have li: "length (take i full) = i" using cs.find_bound [OF i(1)] by simp
    have "i \<noteq> length a" using False occ by auto
    then have apart: "i + length suf \<le> length a"
      using occurrences_apart [OF assms(1) split occ(1)] i(2) li by simp
    have "?after = drop (i + length suf) a @ suf @ rest" using apart occ(1) by simp
    then have "ends_segment ?after suf" using occ(2) unfolding ends_segment_def by blast
    moreover have "length ?after < n" using Suc.prems(1) assms(2) False by (cases suf) auto
    ultimately show ?thesis using Suc.IH i(1) False by (simp add: Let_def)
  qed
qed simp

lemma cse_match_suffix_returns: "suf \<noteq> [] \<Longrightarrow> \<exists>b. cse_match_suffix full suf = Inr b"
  using match_suffix_enough_fuel [of suf full "length full + 1"]
  by (simp add: cse_match_suffix_def returns_iff)

lemma cse_match_suffix_iff:
  assumes "unbordered suf" "suf \<noteq> []"
  shows "cse_match_suffix full suf = Inr (ends_segment full suf)"
proof -
  obtain b where b: "cse_match_suffix full suf = Inr b" using cse_match_suffix_returns [OF assms(2)] by blast
  have "b \<Longrightarrow> ends_segment full suf"
    using b by (intro match_suffix_sound [of "length full + 1"]) (simp only: cse_match_suffix_def)
  moreover have "ends_segment full suf \<Longrightarrow> b"
    using match_suffix_complete [OF assms, of full "length full + 1"] b
    by (simp only: cse_match_suffix_def) simp
  ultimately have "b = ends_segment full suf" by blast
  then show ?thesis using b by simp
qed

lemma cse_match_suffix_empty:
  "full = [] \<or> hd full = CHR ''/'' \<Longrightarrow> cse_match_suffix full [] = Inr True"
  by (cases full) (auto simp: cse_match_suffix_def)

text \<open>A file extension such as \<open>.jsp\<close>: its first character is not used again.\<close>

lemma first_char_unbordered: "c \<notin> set cs \<Longrightarrow> unbordered (c # cs)"
  unfolding unbordered_def
proof (intro allI impI notI)
  fix k assume cs: "c \<notin> set cs" and k: "0 < k \<and> k < length (c # cs)"
    and eq: "drop k (c # cs) = take (length (c # cs) - k) (c # cs)"
  have "set (drop k (c # cs)) \<subseteq> set cs" using k by (cases k) (auto dest: in_set_dropD)
  moreover have "c \<in> set (take (length (c # cs) - k) (c # cs))"
    using k by (cases "length (c # cs) - k") auto
  ultimately show False using cs eq by auto
qed

subsection \<open>The table\<close>

text \<open>
  What \<open>cse_add_location\<close> puts in the table: a host, and a prefix that is empty or begins with
  a slash.
\<close>

definition location_ok :: "location \<Rightarrow> bool" where
  "location_ok loc \<longleftrightarrow> loc_host loc \<noteq> None \<and>
     (\<exists>pre. loc_prefix loc = Some pre \<and> (pre = [] \<or> hd pre = CHR ''/''))"

definition table_ok :: "config \<Rightarrow> bool" where
  "table_ok config \<longleftrightarrow> (\<forall>loc \<in> set (locations config). location_ok loc)"

text \<open>The decision about one location, without the control flow.\<close>

definition location_matches :: "location \<Rightarrow> string \<Rightarrow> int \<Rightarrow> string \<Rightarrow> bool" where
  "location_matches loc host port uri \<longleftrightarrow>
     (the (loc_host loc) = [] \<or> sublist host (the (loc_host loc))) \<and>
     (port = 0 \<or> loc_port loc = 0 \<or> port = loc_port loc) \<and>
     (if loc_is_exact loc then uri = the (loc_prefix loc)
      else cse_starts_with uri (the (loc_prefix loc)) \<and>
           (case loc_suffix loc of None \<Rightarrow> True | Some suf \<Rightarrow> cse_match_suffix uri suf = Inr True))"

lemma location_accepts_ok:
  assumes "location_ok loc"
  shows "location_accepts loc host port uri = Inr (location_matches loc host port uri)"
proof -
  obtain lhost pre where l: "loc_host loc = Some lhost" "loc_prefix loc = Some pre"
    "pre = [] \<or> hd pre = CHR ''/''" using assms by (auto simp: location_ok_def)
  have start: "cse_starts_with uri pre \<Longrightarrow> uri = [] \<or> hd uri = CHR ''/''"
    using l(3) by (cases pre) (auto simp: cse_starts_with_iff)
  have "\<exists>b. cse_match_suffix uri s = Inr b" if "cse_starts_with uri pre" for s
    using cse_match_suffix_returns [of s uri] cse_match_suffix_empty [OF start [OF that]]
    by (cases "s = []") auto
  then obtain b where suf: "\<And>s. cse_starts_with uri pre \<Longrightarrow> cse_match_suffix uri s = Inr (b s)"
    by metis
  show ?thesis using l(1,2) strstr_None_iff [of lhost host]
    by (cases "cse_starts_with uri pre")
      (simp_all add: location_accepts_def location_matches_def suf split: option.split)
qed

lemma cse_match_location_ok:
  "\<forall>loc \<in> set locs. location_ok loc \<Longrightarrow>
   cse_match_location locs host port uri = Inr (\<exists>loc \<in> set locs. location_matches loc host port uri)"
  by (induction locs) (auto simp: location_accepts_ok)

lemma location_differs_iff:
  "location_differs loc h p pre suf ex \<longleftrightarrow> loc \<noteq> \<lparr>loc_host = h, loc_port = p, loc_prefix = pre,
     loc_suffix = suf, loc_is_exact = ex\<rparr>"
  by (cases loc; cases h; cases pre; cases suf) (auto simp: location_differs_def)

lemma has_location_iff:
  "has_location locs h p pre suf ex \<longleftrightarrow> \<lparr>loc_host = h, loc_port = p, loc_prefix = pre,
     loc_suffix = suf, loc_is_exact = ex\<rparr> \<in> set locs"
  by (induction locs) (auto simp: location_differs_iff)

lemma set_add_unique:
  "set (locations (cse_add_unique_location h p pre suf ex config)) =
   insert \<lparr>loc_host = h, loc_port = p, loc_prefix = pre, loc_suffix = suf, loc_is_exact = ex\<rparr>
     (set (locations config))"
  by (auto simp: cse_add_unique_location_def has_location_iff)

lemma distinct_add_unique:
  "distinct (locations config) \<Longrightarrow> distinct (locations (cse_add_unique_location h p pre suf ex config))"
  by (simp add: cse_add_unique_location_def has_location_iff)

subsection \<open>What a mapping adds to the table\<close>

text \<open>A web-app prefix as the table keeps it.\<close>

definition clean_root :: "string \<Rightarrow> bool" where
  "clean_root p \<longleftrightarrow> p = [] \<or> (hd p = CHR ''/'' \<and> last p \<noteq> CHR ''/'')"

lemma strcat_clean_fits: "length a + length b < 4096 \<Longrightarrow> strcat_clean a b = Inr (a @ b)"
  by (simp add: strcat_clean_def)

lemma hd_butlast_cases: "butlast xs = [] \<or> hd (butlast xs) = hd xs"
  by (cases xs) auto

lemma clean_start_ok:
  "length (clean_start pre pattern) \<le> 1"
  "clean_start pre pattern @ pre = [] \<or> hd (clean_start pre pattern @ pre) = CHR ''/''"
  by (auto simp: clean_start_def)

lemma strip_slash_ok:
  "length (strip_slash c) \<le> length c"
  "c = [] \<or> hd c = CHR ''/'' \<Longrightarrow> strip_slash c = [] \<or> hd (strip_slash c) = CHR ''/''"
  using hd_butlast_cases [of c] by (auto simp: strip_slash_def)

lemma cut_pattern_ok:
  assumes "hd c = CHR ''/''" "cut_pattern pattern c = (d, ex)"
  shows "d = [] \<or> hd d = CHR ''/''"
proof -
  have t: "take n c = [] \<or> hd (take n c) = CHR ''/''" for n using assms(1) by (cases n; cases c) auto
  have "d = c \<or> (\<exists>n. d = take n c)" using assms(2)
    unfolding cut_pattern_def Let_def by (simp split: if_splits) auto
  then show ?thesis using t assms(1) by blast
qed

text \<open>The location that a pattern stands for, without the work array.\<close>

definition location_of :: "string \<Rightarrow> string \<Rightarrow> string \<Rightarrow> location" where
  "location_of h pre pattern =
     (let hp = split_host (Some h);
          base = strip_slash (clean_start pre pattern @ pre);
          path = cut_pattern pattern ((if hd pattern \<noteq> CHR ''/'' then base @ ''/'' else base) @ pattern);
          is_suffix = (pattern \<noteq> [] \<and> hd pattern = CHR ''*'')
      in \<lparr>loc_host = fst hp, loc_port = snd hp,
          loc_prefix = Some (if pattern = [] \<or> is_suffix then base else fst path),
          loc_suffix = (if is_suffix then Some (tl pattern) else None),
          loc_is_exact = (pattern \<noteq> [] \<and> \<not> is_suffix \<and> snd path)\<rparr>)"

definition add_location :: "location \<Rightarrow> config \<Rightarrow> config" where
  "add_location loc = cse_add_unique_location (loc_host loc) (loc_port loc) (loc_prefix loc) (loc_suffix loc) (loc_is_exact loc)"

lemma set_add_location [simp]: "set (locations (add_location loc config)) = insert loc (set (locations config))"
  by (cases loc) (simp add: add_location_def set_add_unique)

lemma location_of_ok: "location_ok (location_of h pre pattern)"
proof -
  define base where "base = strip_slash (clean_start pre pattern @ pre)"
  define path where "path = (if hd pattern \<noteq> CHR ''/'' then base @ ''/'' else base) @ pattern"
  obtain lh lp where hp: "split_host (Some h) = (Some lh, lp)"
    by (cases "strchr h (CHR '':'')") (auto simp: split_host_def)
  have base: "base = [] \<or> hd base = CHR ''/''"
    unfolding base_def by (rule strip_slash_ok(2) [OF clean_start_ok(2) [of pre pattern]])
  then have "pattern \<noteq> [] \<Longrightarrow> hd path = CHR ''/''" by (auto simp: path_def hd_append)
  from cut_pattern_ok [OF this] have "pattern \<noteq> [] \<Longrightarrow> fst (cut_pattern pattern path) = [] \<or> hd (fst (cut_pattern pattern path)) = CHR ''/''"
    by (metis prod.collapse)
  then show ?thesis using base hp
    unfolding location_ok_def location_of_def Let_def base_def [symmetric] path_def [symmetric] by simp
qed

lemma add_location_eq:
  assumes "length pre + length pattern + 3 \<le> 4096"
  shows "cse_add_location (Some h) pre pattern config = Inr (add_location (location_of h pre pattern) config)"
proof -
  obtain lh lp where hp: "split_host (Some h) = (Some lh, lp)"
    by (cases "strchr h (CHR '':'')") (auto simp: split_host_def)
  define c1 where "c1 = strip_slash (clean_start pre pattern @ pre)"
  have s0: "strcat_clean (clean_start pre pattern) pre = Inr (clean_start pre pattern @ pre)"
    using clean_start_ok(1) [of pre pattern] assms by (intro strcat_clean_fits) linarith
  have c1: "length c1 \<le> 1 + length pre"
    using strip_slash_ok(1) [of "clean_start pre pattern @ pre"] clean_start_ok(1) [of pre pattern] by (simp add: c1_def)
  define c2 where "c2 = (if hd pattern \<noteq> CHR ''/'' then c1 @ ''/'' else c1)"
  have s1: "(if hd pattern \<noteq> CHR ''/'' then strcat_clean c1 ''/'' else Inr c1) = Inr c2"
    using c1 assms by (simp add: c2_def strcat_clean_fits)
  have s2: "strcat_clean c2 pattern = Inr (c2 @ pattern)"
    using c1 assms by (intro strcat_clean_fits) (simp add: c2_def)
  obtain d ex where d: "cut_pattern pattern (c2 @ pattern) = (d, ex)" by (cases "cut_pattern pattern (c2 @ pattern)")
  have eq: "cse_add_location (Some h) pre pattern config =
      (if pattern = [] then Inr (cse_add_unique_location (Some lh) lp (Some c1) None False config)
       else if hd pattern = CHR ''*'' then
         Inr (cse_add_unique_location (Some lh) lp (Some c1) (Some (tl pattern)) False config)
       else Inr (cse_add_unique_location (Some lh) lp (Some d) None ex config))"
    unfolding cse_add_location_def hp s0 bindR_simps Let_def prod.case c1_def [symmetric] s1 s2 d ..
  show ?thesis
    unfolding eq add_location_def location_of_def Let_def hp c1_def [symmetric] c2_def [symmetric] d by simp
qed

lemma add_location_ok:
  assumes "length pre + length pattern + 3 \<le> 4096" "table_ok config"
  shows "returns (\<lambda>config'. table_ok config' \<and> set (locations config) \<subseteq> set (locations config'))
    (cse_add_location (Some h) pre pattern config)"
  using assms location_of_ok [of h pre pattern] by (auto simp: add_location_eq table_ok_def)

lemma clean_rootE:
  assumes "clean_root p"
  obtains "p = []" | "p \<noteq> []" "hd p = CHR ''/''" "last p \<noteq> CHR ''/''"
  using assms by (auto simp: clean_root_def)

lemma no_port: "CHR '':'' \<notin> set h \<Longrightarrow> strchr h (CHR '':'') = None"
  by (simp add: strchr_None)

lemmas add_location_eval = cse_add_location_def split_host_def clean_start_def strip_slash_def
  cut_pattern_def no_port strcat_clean_fits Let_def

lemma add_subtree:
  assumes "CHR '':'' \<notin> set h" "clean_root p" "q = [] \<or> hd q = CHR ''/''" "p @ q \<noteq> []"
    and "length p + length q < 4000"
  shows "cse_add_location (Some h) p (q @ ''/*'') config =
    Inr (cse_add_unique_location (Some h) 0 (Some (p @ q)) None False config)"
proof -
  have "hd (q @ ''/*'') = CHR ''/''" using assms(3) by (cases q) auto
  moreover have "Suc 0 < length p + length q + 1" using assms(4) by (cases p; cases q) auto
  ultimately show ?thesis
    using assms by (elim clean_rootE) (simp_all add: add_location_eval)
qed

lemma add_extension:
  assumes "CHR '':'' \<notin> set h" "clean_root p" "length p < 4000"
  shows "cse_add_location (Some h) p (CHR ''*'' # suf) config =
    Inr (cse_add_unique_location (Some h) 0 (Some p) (Some suf) False config)"
  using assms by (elim clean_rootE) (simp_all add: add_location_eval)

lemma add_exact:
  assumes "CHR '':'' \<notin> set h" "clean_root p" "q \<noteq> []" "last q \<noteq> CHR ''*''"
    and "length p + length q < 4000"
  shows "cse_add_location (Some h) p (CHR ''/'' # q) config =
    Inr (cse_add_unique_location (Some h) 0 (Some (p @ CHR ''/'' # q)) None True config)"
  using assms by (elim clean_rootE) (simp_all add: add_location_eval)

lemma match_after_add:
  assumes "table_ok config" "pre = [] \<or> hd pre = CHR ''/''"
  shows "cse_match_location (locations (cse_add_unique_location (Some h) lp (Some pre) suf ex config)) rh rp uri =
    Inr ((\<exists>loc \<in> set (locations config). location_matches loc rh rp uri) \<or>
      location_matches \<lparr>loc_host = Some h, loc_port = lp, loc_prefix = Some pre, loc_suffix = suf,
        loc_is_exact = ex\<rparr> rh rp uri)"
  using assms by (subst cse_match_location_ok) (auto simp: set_add_unique table_ok_def location_ok_def)

lemma strstr_first_append:
  assumes "unbordered pat" "pat \<noteq> []" "\<not> sublist pat base"
  shows "strstr (base @ pat @ sid) pat = Some (length base)"
proof -
  obtain n where n: "strstr (base @ pat @ sid) pat = Some n" "n \<le> length base"
    using strstr_append_hit by blast
  note split = cs.find_split [OF n(1)]
  have "n = length base"
  proof (rule ccontr)
    assume "n \<noteq> length base"
    then have lt: "length (take n (base @ pat @ sid)) < length base" using n(2) by simp
    from occurrences_apart [OF assms(1) split refl lt] have le: "n + length pat \<le> length base" using n(2) by simp
    have "base = take n base @ pat @ take (length base - n - length pat) (drop (n + length pat) (base @ pat @ sid))"
      using arg_cong [OF split, of "take (length base)"] n(2) le by simp
    then show False using assms(3) by (metis sublist_def)
  qed
  then show ?thesis using n(1) by simp
qed

subsection \<open>Properties\<close>

text \<open>
  A prefix \<open>/foo\<close> covers \<open>/foo\<close> and everything below \<open>/foo/\<close>, and nothing else: the
  prefix has to end where a path segment ends.
\<close>

theorem starts_with_segment:
  "cse_starts_with full part \<longleftrightarrow> (\<exists>rest. full = part @ rest \<and> (rest = [] \<or> hd rest = CHR ''/''))"
  by (rule cse_starts_with_iff)

text \<open>
  C32: for a pattern \<open>*.ext\<close> the scan ends and finds exactly the URIs in which the extension
  stands at the end or in front of a slash, wherever other occurrences are.
\<close>

theorem match_suffix_extension:
  assumes "CHR ''.'' \<notin> set ext"
  shows "cse_match_suffix uri (CHR ''.'' # ext) = Inr (\<exists>a rest. uri = a @ (CHR ''.'' # ext) @ rest \<and>
    (rest = [] \<or> hd rest = CHR ''/''))"
  using cse_match_suffix_iff [OF first_char_unbordered [OF assms], of uri]
  by (simp add: ends_segment_def)

theorem match_suffix_extension_witness: "cse_match_suffix ''/a.jspx/b.jsp/c'' ''.jsp'' = Inr True"
proof -
  have "''/a.jspx/b.jsp/c'' = ''/a.jspx/b'' @ ''.jsp'' @ ''/c''" by simp
  then have "\<exists>a rest. ''/a.jspx/b.jsp/c'' = a @ (CHR ''.'' # ''jsp'') @ rest \<and> (rest = [] \<or> hd rest = CHR ''/'')"
    by (metis list.sel(1))
  then show ?thesis using match_suffix_extension [of "''jsp''" "''/a.jspx/b.jsp/c''"] by simp
qed

text \<open>
  A suffix that overlaps itself can be missed, because the scan goes on behind each
  occurrence it has found; and on an empty suffix the scan stays where it is, so it never ends
  on a string that does not begin with a slash.
\<close>

theorem match_suffix_limits:
  "cse_match_suffix ''/x.aa.aa.aa'' ''.aa.aa'' = Inr False \<and>
   ''/x.aa.aa.aa'' = ''/x.aa'' @ ''.aa.aa'' \<and>
   (\<forall>fuel. match_suffix_loop fuel ''*'' [] = Inl OutOfFuel)"
proof (intro conjI allI)
  show "cse_match_suffix ''/x.aa.aa.aa'' ''.aa.aa'' = Inr False"
    by (simp add: cse_match_suffix_def numeral_eq_Suc)
  show "match_suffix_loop fuel ''*'' [] = Inl OutOfFuel" for fuel
    by (induction fuel) auto
qed simp

text \<open>
  C26: the table stays well formed under \<open>cse_add_location\<close> as long as prefix and pattern fit
  the 4096-byte work array, and on a well-formed table every request is decided: no null
  pointer, no endless scan, and the answer is whether some location of the table matches.
\<close>

theorem location_table_decides:
  assumes "table_ok config" "length pre + length pattern + 3 \<le> 4096"
  shows "returns (\<lambda>config'. table_ok config' \<and> set (locations config) \<subseteq> set (locations config') \<and>
      (\<forall>rh rp uri. cse_match_location (locations config') rh rp uri =
         Inr (\<exists>loc \<in> set (locations config'). location_matches loc rh rp uri)))
    (cse_add_location (Some h) pre pattern config)"
  by (rule returns_mono [OF add_location_ok [OF assms(2,1)]]) (auto simp: table_ok_def cse_match_location_ok)

theorem location_table_decides_witness:
  "returns (\<lambda>config'. table_ok config' \<and> set (locations cse_create_server_config) \<subseteq> set (locations config') \<and>
      (\<forall>rh rp uri. cse_match_location (locations config') rh rp uri =
         Inr (\<exists>loc \<in> set (locations config'). location_matches loc rh rp uri)))
    (cse_add_location (Some ''h'') ''/app'' ''*'' cse_create_server_config)"
  by (rule location_table_decides) (simp_all add: table_ok_def cse_create_server_config_def Let_def)





text \<open>
  The mapping \<open>/*\<close> of the root web-app is kept with its star as a prefix, so it covers only
  URIs that literally begin with the segment \<open>/*\<close>, not every URI.
\<close>

theorem root_star_mapping:
  "returns (\<lambda>config'. \<forall>rh rp uri. cse_match_location (locations config') rh rp uri =
      Inr (cse_starts_with uri ''/*''))
    (cse_add_location (Some []) [] ''/*'' cse_create_server_config)"
proof -
  have t: "table_ok cse_create_server_config" "locations cse_create_server_config = []"
    by (simp_all add: table_ok_def cse_create_server_config_def Let_def)
  have "cse_add_location (Some []) [] ''/*'' cse_create_server_config =
      Inr (cse_add_unique_location (Some []) 0 (Some ''/*'') None False cse_create_server_config)"
    by (simp add: add_location_eval)
  then show ?thesis using t by (simp add: match_after_add location_matches_def)
qed

text \<open>
  C33: the host of a location is compared by substring, and in this direction: a virtual host's
  location serves every request whose server name is a part of the configured name.
\<close>

theorem host_matched_by_substring:
  assumes "vh \<noteq> []" "CHR '':'' \<notin> set vh"
  shows "returns (\<lambda>config'. \<forall>rh rp uri. cse_match_location (locations config') rh rp uri =
      Inr (sublist rh vh \<and> cse_starts_with uri ''/app''))
    (cse_add_location (Some vh) ''/app'' [] cse_create_server_config)"
proof -
  have t: "table_ok cse_create_server_config" "locations cse_create_server_config = []"
    by (simp_all add: table_ok_def cse_create_server_config_def Let_def)
  have "cse_add_location (Some vh) ''/app'' [] cse_create_server_config =
      Inr (cse_add_unique_location (Some vh) 0 (Some ''/app'') None False cse_create_server_config)"
    using assms by (simp add: add_location_eval)
  then show ?thesis using t assms by (simp add: match_after_add location_matches_def)
qed

theorem host_matched_by_substring_witness:
  "returns (\<lambda>config'. cse_match_location (locations config') ''o.c'' 80 ''/app/x'' = Inr True)
    (cse_add_location (Some ''www.foo.com'') ''/app'' [] cse_create_server_config)"
proof -
  have "sublist ''o.c'' ''www.foo.com''" by (simp add: sublist_code)
  then show ?thesis
    by (intro returns_mono [OF host_matched_by_substring [of "''www.foo.com''"]]) auto
qed

text \<open>
  C30: a session parameter does not change the decision: a URI with \<open>;jsessionid=\<close> and anything
  behind it is treated as the URI in front of it, if the whole fits the 4096-byte array; one
  that does not fit is copied past the array's end.
\<close>

theorem match_request_session_parameter:
  assumes "\<not> sublist '';jsessionid='' base"
  shows "cse_match_request config rh rp (base @ '';jsessionid='' @ sid) =
    (if length (base @ '';jsessionid='' @ sid) < 4096 then cse_match_request config rh rp base
     else Inl OutOfBounds)"
proof -
  have "unbordered '';jsessionid=''" by (rule first_char_unbordered) simp
  from strstr_first_append [OF this _ assms]
  have "strstr (base @ '';jsessionid='' @ sid) '';jsessionid='' = Some (length base)" by simp
  then show ?thesis using assms strstr_None_iff [of base "'';jsessionid=''"]
    by (simp only: cse_match_request_def) simp
qed

theorem match_request_session_parameter_witness:
  "cse_match_request cse_create_server_config ''h'' 80 (''/a'' @ '';jsessionid='' @ ''abc'') =
    (if length (''/a'' @ '';jsessionid='' @ ''abc'') < 4096
     then cse_match_request cse_create_server_config ''h'' 80 ''/a'' else Inl OutOfBounds)"
  by (rule match_request_session_parameter) (simp add: sublist_code)



end
