(* ===== verification/Cse_World.thy ===== *)
theory Cse_World
  imports Cse_Base
begin

text \<open>
  What the module sees of the operating system and of Apache's socket cleanups.  The answers
  of the system calls are inputs: a world holds, for each descriptor, the chunks the peer
  delivers (any segmentation, an error or an end of file anywhere), for each \<open>send\<close> how much
  the kernel takes, and for each new connection what \<open>socket\<close>, \<open>connect\<close>, \<open>select\<close> and
  \<open>getsockopt\<close> answer.  Every theorem holds for all worlds, so for every behaviour of the
  network.  A world also keeps the table of open descriptors and a log of the effects.
\<close>

datatype errno = EWOULDBLOCK | EINPROGRESS | EOTHER

datatype connect_result = ConnectOk | ConnectErr errno

text \<open>The answers of the calls made while one connection is opened.\<close>

record conn_script =
  c_socket_ok :: bool
  c_connect :: connect_result
  c_select :: int
  c_isset :: bool
  c_getsockopt :: int
  c_soerror :: int
  c_rx :: "string option list"

datatype event =
    Sent int string
  | Closed int
  | ConnectTo int "32 word" int
  | NoteCleanup int nat
  | KillCleanup int nat

record world =
  open_fds :: "int list"
  nonblock :: "int \<Rightarrow> bool"
  rx :: "int \<Rightarrow> string option list"
  tx :: "int list"
  conns :: "conn_script list"
  log :: "event list"

definition emit :: "event \<Rightarrow> world \<Rightarrow> world" where
  "emit e w = w\<lparr>log := log w @ [e]\<rparr>"

lemma emit_simps [simp]:
  "open_fds (emit e w) = open_fds w" "nonblock (emit e w) = nonblock w" "rx (emit e w) = rx w"
  "tx (emit e w) = tx w" "conns (emit e w) = conns w" "log (emit e w) = log w @ [e]"
  by (simp_all add: emit_def)

subsection \<open>Descriptors\<close>

text \<open>\<open>socket\<close> gives the lowest descriptor that is not open (POSIX).\<close>

definition lowest_free :: "int list \<Rightarrow> int" where
  "lowest_free fds = hd (filter (\<lambda>n. n \<notin> set fds) (map int [0..<Suc (length fds)]))"

lemma lowest_free_exists: "filter (\<lambda>n. n \<notin> set fds) (map int [0..<Suc (length fds)]) \<noteq> []"
proof
  assume "filter (\<lambda>n. n \<notin> set fds) (map int [0..<Suc (length fds)]) = []"
  then have sub: "int ` {0..<Suc (length fds)} \<subseteq> set fds"
    by (auto simp: filter_empty_conv simp del: upt_Suc)
  have "Suc (length fds) = card (int ` {0..<Suc (length fds)})" by (simp add: card_image)
  also have "\<dots> \<le> card (set fds)" using sub by (rule card_mono [rotated]) simp
  also have "\<dots> \<le> length fds" by (rule card_length)
  finally show False by simp
qed

lemma lowest_free_fresh: "lowest_free fds \<notin> set fds" "0 \<le> lowest_free fds"
proof -
  have "lowest_free fds \<in> set (filter (\<lambda>n. n \<notin> set fds) (map int [0..<Suc (length fds)]))"
    unfolding lowest_free_def using lowest_free_exists by (rule hd_in_set)
  then show "lowest_free fds \<notin> set fds" "0 \<le> lowest_free fds" by (auto simp del: upt_Suc)
qed

lemma lowest_free_simps [simp]:
  "lowest_free fds \<notin> set fds" "\<not> lowest_free fds < 0" "lowest_free fds \<noteq> -1" "0 \<le> lowest_free fds"
  using lowest_free_fresh [of fds] by auto

definition sys_socket :: "conn_script \<Rightarrow> world \<Rightarrow> int \<times> world" where
  "sys_socket c w =
     (if c_socket_ok c then
        let fd = lowest_free (open_fds w)
        in (fd, w\<lparr>open_fds := fd # open_fds w, nonblock := (nonblock w)(fd := False),
                  rx := (rx w)(fd := c_rx c)\<rparr>)
      else (-1, w))"

definition sys_close :: "int \<Rightarrow> world \<Rightarrow> world" where
  "sys_close fd w =
     (if fd \<in> set (open_fds w)
      then emit (Closed fd) (w\<lparr>open_fds := filter (\<lambda>d. d \<noteq> fd) (open_fds w)\<rparr>) else w)"

definition set_nonblock :: "int \<Rightarrow> bool \<Rightarrow> world \<Rightarrow> world" where
  "set_nonblock fd b w = w\<lparr>nonblock := (nonblock w)(fd := b)\<rparr>"

lemma set_nonblock_simps [simp]:
  "open_fds (set_nonblock fd b w) = open_fds w" "rx (set_nonblock fd b w) = rx w"
  "tx (set_nonblock fd b w) = tx w" "conns (set_nonblock fd b w) = conns w"
  "log (set_nonblock fd b w) = log w"
  "nonblock (set_nonblock fd b w) = (nonblock w)(fd := b)"
  by (simp_all add: set_nonblock_def)

subsection \<open>send and recv\<close>

definition sys_send :: "int \<Rightarrow> string \<Rightarrow> world \<Rightarrow> int \<times> world" where
  "sys_send fd bs w =
     (if fd \<notin> set (open_fds w) then (-1, w)
      else case tx w of
          [] \<Rightarrow> (int (length bs), emit (Sent fd bs) w)
        | k # ks \<Rightarrow>
            (if k < 0 then (-1, w\<lparr>tx := ks\<rparr>)
             else let n = min (nat k) (length bs)
                  in (int n, emit (Sent fd (take n bs)) (w\<lparr>tx := ks\<rparr>))))"

definition sys_recv :: "int \<Rightarrow> nat \<Rightarrow> world \<Rightarrow> int \<times> string \<times> world" where
  "sys_recv fd n w =
     (if fd \<notin> set (open_fds w) then (-1, [], w)
      else case rx w fd of
          [] \<Rightarrow> (0, [], w)
        | None # cs \<Rightarrow> (-1, [], w\<lparr>rx := (rx w)(fd := cs)\<rparr>)
        | Some c # cs \<Rightarrow>
            (if length c \<le> n then (int (length c), c, w\<lparr>rx := (rx w)(fd := cs)\<rparr>)
             else (int n, take n c, w\<lparr>rx := (rx w)(fd := Some (drop n c) # cs)\<rparr>)))"

text \<open>The bytes the peer will still deliver, up to an error or the end of the stream.\<close>

fun deliverable :: "string option list \<Rightarrow> string" where
  "deliverable [] = []"
| "deliverable (None # cs) = []"
| "deliverable (Some c # cs) = (if c = [] then [] else c @ deliverable cs)"

text \<open>What was sent on a descriptor.\<close>

fun sent_on :: "int \<Rightarrow> event list \<Rightarrow> string" where
  "sent_on fd [] = []"
| "sent_on fd (Sent d bs # es) = (if d = fd then bs @ sent_on fd es else sent_on fd es)"
| "sent_on fd (e # es) = sent_on fd es"

lemma sent_on_append [simp]: "sent_on fd (xs @ ys) = sent_on fd xs @ sent_on fd ys"
  by (induction fd xs rule: sent_on.induct) auto

text \<open>A kernel that takes every \<open>send\<close> of up to \<open>n\<close> bytes whole.\<close>

definition tx_takes :: "nat \<Rightarrow> world \<Rightarrow> bool" where
  "tx_takes n w \<longleftrightarrow> (\<forall>k \<in> set (tx w). int n \<le> k)"

lemma sys_send_frame [frame_simps]:
  "open_fds (snd (sys_send fd bs w)) = open_fds w" "rx (snd (sys_send fd bs w)) = rx w"
  "nonblock (snd (sys_send fd bs w)) = nonblock w" "conns (snd (sys_send fd bs w)) = conns w"
  by (auto simp: sys_send_def Let_def split: list.split)

lemma sys_send_result: "fst (sys_send fd bs w) \<le> int (length bs)"
  by (auto simp: sys_send_def Let_def split: list.split)

lemma sys_send_whole:
  assumes "fd \<in> set (open_fds w)" "tx_takes n w" "length bs \<le> n"
  shows "fst (sys_send fd bs w) = int (length bs)"
    and "log (snd (sys_send fd bs w)) = log w @ [Sent fd bs]"
    and "tx_takes n (snd (sys_send fd bs w))"
  using assms by (auto simp: sys_send_def tx_takes_def Let_def split: list.split)

lemma sys_recv_frame [frame_simps]:
  "open_fds (snd (snd (sys_recv fd n w))) = open_fds w"
  "nonblock (snd (snd (sys_recv fd n w))) = nonblock w"
  "conns (snd (snd (sys_recv fd n w))) = conns w"
  "tx (snd (snd (sys_recv fd n w))) = tx w" "log (snd (snd (sys_recv fd n w))) = log w"
  by (auto simp: sys_recv_def split: list.split option.split)

lemma sys_recv_data:
  assumes "sys_recv fd n w = (r, bs, w')" "fd \<in> set (open_fds w)" "0 < n"
    and "deliverable (rx w fd) \<noteq> []"
  shows "0 < r" "r = int (length bs)" "length bs \<le> n"
    and "bs @ deliverable (rx w' fd) = deliverable (rx w fd)"
proof -
  obtain c cs where c: "rx w fd = Some c # cs" "c \<noteq> []"
    using assms(4) by (cases "rx w fd" rule: deliverable.cases) (auto split: if_splits)
  show "0 < r" "r = int (length bs)" "length bs \<le> n"
    "bs @ deliverable (rx w' fd) = deliverable (rx w fd)"
    using assms(1-3) c by (auto simp: sys_recv_def split: if_splits)
qed

lemma sys_recv_end:
  assumes "sys_recv fd n w = (r, bs, w')" "deliverable (rx w fd) = []"
  shows "r \<le> 0"
  using assms
  by (cases "rx w fd" rule: deliverable.cases) (auto simp: sys_recv_def split: if_splits)

lemma sys_recv_result:
  "sys_recv fd n w = (r, bs, w') \<Longrightarrow> r \<le> 0 \<or> r = int (length bs) \<and> length bs \<le> n"
  by (auto simp: sys_recv_def split: if_splits list.splits option.splits)

subsection \<open>Apache's socket cleanups\<close>

text \<open>
  The module registers and removes the close-on-exit cleanup of a socket with Apache's pool
  (a number here); the calls are logged.  Descriptor 0 gets none, as the code tests \<open>> 0\<close>.
\<close>

definition cse_set_socket_cleanup :: "int \<Rightarrow> nat \<Rightarrow> world \<Rightarrow> world" where
  "cse_set_socket_cleanup socket pool w =
     (if socket > 0 then emit (NoteCleanup socket pool) w else w)"

definition cse_kill_socket_cleanup :: "int \<Rightarrow> nat \<Rightarrow> world \<Rightarrow> world" where
  "cse_kill_socket_cleanup socket pool w =
     (if socket > 0 then emit (KillCleanup socket pool) w else w)"

lemma cleanup_frame [simp]:
  "open_fds (cse_set_socket_cleanup d p w) = open_fds w" "rx (cse_set_socket_cleanup d p w) = rx w"
  "tx (cse_set_socket_cleanup d p w) = tx w" "conns (cse_set_socket_cleanup d p w) = conns w"
  "nonblock (cse_set_socket_cleanup d p w) = nonblock w"
  "sent_on fd (log (cse_set_socket_cleanup d p w)) = sent_on fd (log w)"
  "open_fds (cse_kill_socket_cleanup d p w) = open_fds w" "rx (cse_kill_socket_cleanup d p w) = rx w"
  "tx (cse_kill_socket_cleanup d p w) = tx w" "conns (cse_kill_socket_cleanup d p w) = conns w"
  "nonblock (cse_kill_socket_cleanup d p w) = nonblock w"
  "sent_on fd (log (cse_kill_socket_cleanup d p w)) = sent_on fd (log w)"
  by (simp_all add: cse_set_socket_cleanup_def cse_kill_socket_cleanup_def)

lemma sys_close_frame [simp]:
  "rx (sys_close fd w) = rx w" "tx (sys_close fd w) = tx w" "conns (sys_close fd w) = conns w"
  "nonblock (sys_close fd w) = nonblock w"
  "set (open_fds (sys_close fd w)) = set (open_fds w) - {fd}"
  "sent_on d (log (sys_close fd w)) = sent_on d (log w)"
  by (auto simp: sys_close_def)

subsection \<open>Opening a connection\<close>

text \<open>
  \<open>cse_connect\<close> opens a socket, makes it non-blocking, connects within the timeout and
  restores the descriptor's flags; \<open>cse_connect_wait\<close> blocks.  An exhausted script means that
  \<open>socket\<close> fails.
\<close>

definition next_conn :: "world \<Rightarrow> conn_script option \<times> world" where
  "next_conn w = (case conns w of [] \<Rightarrow> (None, w) | c # cs \<Rightarrow> (Some c, w\<lparr>conns := cs\<rparr>))"

definition cse_connect :: "32 word \<Rightarrow> int \<Rightarrow> world \<Rightarrow> int \<times> world" where
  "cse_connect addr port w =
     (case next_conn w of
        (None, w) \<Rightarrow> (-1, w)
      | (Some c, w) \<Rightarrow>
          let (sock, w) = sys_socket c w in
          if sock < 0 then (-1, w)
          else
            let flags = nonblock w sock;
                w = set_nonblock sock True w;
                w = emit (ConnectTo sock addr port) w
            in case c_connect c of
                 ConnectOk \<Rightarrow> (sock, set_nonblock sock flags w)
               | ConnectErr e \<Rightarrow>
                   if e \<noteq> EWOULDBLOCK \<and> e \<noteq> EINPROGRESS then (-1, sys_close sock w)
                   else if c_select c \<le> 0 then (-1, sys_close sock (set_nonblock sock flags w))
                   else if \<not> c_isset c \<or> c_getsockopt c < 0 \<or> c_soerror c \<noteq> 0
                     then (-1, sys_close sock w)
                   else (sock, set_nonblock sock flags w))"

definition cse_connect_wait :: "32 word \<Rightarrow> int \<Rightarrow> world \<Rightarrow> int \<times> world" where
  "cse_connect_wait addr port w =
     (case next_conn w of
        (None, w) \<Rightarrow> (-1, w)
      | (Some c, w) \<Rightarrow>
          let (sock, w) = sys_socket c w in
          if sock < 0 then (-1, w)
          else
            let w = emit (ConnectTo sock addr port) w
            in case c_connect c of
                 ConnectOk \<Rightarrow> (sock, w)
               | ConnectErr e \<Rightarrow> (-1, sys_close sock w))"

definition WSA_WAIT_EVENT_0 :: int where "WSA_WAIT_EVENT_0 = 0"

text \<open>
  The routine for Windows: any failure of \<open>connect\<close> leads to the wait for its event. The answer of
  the wait is \<open>c_select\<close> of the script, the error code of the event \<open>c_soerror\<close>; \<open>FIONBIO\<close> sets the mode.
\<close>

definition cse_connect_windows :: "32 word \<Rightarrow> int \<Rightarrow> world \<Rightarrow> int \<times> world" where
  "cse_connect_windows addr port w =
     (case next_conn w of
        (None, w) \<Rightarrow> (-1, w)
      | (Some c, w) \<Rightarrow>
          let (sock, w) = sys_socket c w in
          if sock < 0 then (-1, w)
          else
            let w = set_nonblock sock True w;
                w = emit (ConnectTo sock addr port) w
            in if c_connect c \<noteq> ConnectOk \<and> (c_select c \<noteq> WSA_WAIT_EVENT_0 \<or> c_soerror c \<noteq> 0)
               then (-1, sys_close sock w)
               else (sock, set_nonblock sock False w))"

text \<open>
  What a connection routine owes its caller: it either returns a fresh descriptor, open and
  blocking, or -1 with the set of open descriptors as it was.
\<close>

definition connects :: "(world \<Rightarrow> int \<times> world) \<Rightarrow> bool" where
  "connects f \<longleftrightarrow> (\<forall>w r w'. f w = (r, w') \<longrightarrow>
     (if 0 \<le> r then r \<notin> set (open_fds w) \<and> set (open_fds w') = insert r (set (open_fds w)) \<and>
                    \<not> nonblock w' r \<and> (\<forall>d. d \<noteq> r \<longrightarrow> rx w' d = rx w d \<and> nonblock w' d = nonblock w d)
      else r = -1 \<and> set (open_fds w') = set (open_fds w) \<and>
           (\<forall>d \<in> set (open_fds w). rx w' d = rx w d \<and> nonblock w' d = nonblock w d)) \<and>
     tx w' = tx w \<and> (\<forall>d. sent_on d (log w') = sent_on d (log w)))"

lemmas connect_unfold = next_conn_def sys_socket_def Let_def

lemma cse_connect_connects: "connects (cse_connect addr port)"
  unfolding connects_def cse_connect_def connect_unfold
  by (auto split: list.splits connect_result.splits if_splits)

lemma cse_connect_wait_connects: "connects (cse_connect_wait addr port)"
  unfolding connects_def cse_connect_wait_def connect_unfold
  by (auto split: list.splits connect_result.splits if_splits)

lemma cse_connect_windows_connects: "connects (cse_connect_windows addr port)"
  unfolding connects_def cse_connect_windows_def connect_unfold
  by (auto split: list.splits if_splits)

text \<open>The same contract as its callers use it: an interface of two laws.\<close>

locale connector =
  fixes connect :: "world \<Rightarrow> int \<times> world"
  assumes connect_fresh: "connect w = (d, w') \<Longrightarrow> 0 \<le> d \<Longrightarrow>
      d \<notin> set (open_fds w) \<and> set (open_fds w') = insert d (set (open_fds w)) \<and> \<not> nonblock w' d"
    and connect_failed: "connect w = (d, w') \<Longrightarrow> d < 0 \<Longrightarrow> d = -1 \<and> set (open_fds w') = set (open_fds w)"
begin

lemma connect_result:
  assumes "connect w = (d, w')"
  shows "set (open_fds w) \<subseteq> set (open_fds w') \<and>
    (if 0 \<le> d then d \<in> set (open_fds w') \<and> d \<notin> set (open_fds w) \<and> \<not> nonblock w' d
     else d = -1 \<and> set (open_fds w') = set (open_fds w))"
  using connect_fresh [OF assms] connect_failed [OF assms] by (cases "0 \<le> d") auto

end

lemma connects_laws:
  assumes "connects f" "f w = (d, w')"
  shows "0 \<le> d \<Longrightarrow> d \<notin> set (open_fds w) \<and> set (open_fds w') = insert d (set (open_fds w)) \<and> \<not> nonblock w' d"
    and "d < 0 \<Longrightarrow> d = -1 \<and> set (open_fds w') = set (open_fds w)"
  using assms unfolding connects_def by (metis not_le)+

interpretation blocking: connector "cse_connect_wait addr port" for addr port
  by unfold_locales (use connects_laws [OF cse_connect_wait_connects] in blast)+

interpretation timed: connector "cse_connect addr port" for addr port
  by unfold_locales (use connects_laws [OF cse_connect_connects] in blast)+

interpretation winsock: connector "cse_connect_windows addr port" for addr port
  by unfold_locales (use connects_laws [OF cse_connect_windows_connects] in blast)+

text \<open>
  C23: opening a connection leaks nothing: the timed routine, its variant for Windows and the blocking routine return a descriptor
  that was not open before, is open and blocking now, and leave all others alone, or return -1
  with exactly the descriptors that were open before.
\<close>

theorem connecting_leaks_no_descriptor:
  "connects (cse_connect addr port) \<and> connects (cse_connect_windows addr port) \<and> connects (cse_connect_wait addr port)"
  by (simp add: cse_connect_connects cse_connect_windows_connects cse_connect_wait_connects)

end
