(* ===== verification/Cse_Stream.thy ===== *)
theory Cse_Stream
  imports Cse_World
begin

text \<open>
  The buffered stream to a servlet runner (stream.c, \<open>stream_t\<close> of cse.h): its two 8 KB
  buffers, the reading and writing routines, and the packet framing.  An operation maps a
  stream and a world to a result and the next pair; only operations that touch a caller's
  array can fault.
  \<^item> \<open>s_write_buf\<close> holds the queued bytes, so C's \<open>write_length\<close> is its length; the bytes of
    the array past \<open>write_length\<close> are never read.
  \<^item> \<open>s_read_buf\<close> holds the bytes of the last \<open>recv\<close>; \<open>s_read_length\<close> keeps \<open>recv\<close>'s result,
    which may be -1, and \<open>s_read_offset\<close> the position in the buffer, as in the code.
  \<^item> \<open>s_srun\<close> is the index of the servlet runner in the configuration's \<open>srun_list\<close> (a pointer
    into that array in C), \<open>s_pool\<close> names Apache's pool.
\<close>

definition BUF_LENGTH :: nat where "BUF_LENGTH = 8192"

record stream =
  s_srun :: "nat option"
  s_pool :: nat
  s_update_count :: int
  s_socket :: int
  s_read_buf :: string
  s_read_offset :: int
  s_read_length :: int
  s_write_buf :: string

type_synonym io = "stream \<times> world"

definition s_write_length :: "stream \<Rightarrow> int" where
  "s_write_length s = int (length (s_write_buf s))"

subsection \<open>Closing, flushing, filling\<close>

definition cse_close :: "io \<Rightarrow> io" where
  "cse_close = (\<lambda>(s, w).
     let socket = s_socket s;
         s = s\<lparr>s_socket := -1\<rparr>;
         w = cse_kill_socket_cleanup socket (s_pool s) w
     in (s, sys_close socket w))"

definition cse_flush :: "io \<Rightarrow> int \<times> io" where
  "cse_flush = (\<lambda>(s, w).
     if s_write_length s > 0 then
       let (len, w) = sys_send (s_socket s) (s_write_buf s) w in
       if len \<noteq> s_write_length s then (-1, s, w)
       else (0, s\<lparr>s_write_buf := []\<rparr>, w)
     else (0, s, w))"

definition cse_fill_buffer :: "io \<Rightarrow> int \<times> io" where
  "cse_fill_buffer = (\<lambda>(s, w).
     if s_socket s < 0 then (-1, s, w)
     else let (fl, s, w) = cse_flush (s, w) in
       if fl < 0 then (-1, s, w)
       else let s = s\<lparr>s_read_offset := 0\<rparr>;
                (len, bytes, w) = sys_recv (s_socket s) BUF_LENGTH w;
                s = s\<lparr>s_read_length := len,
                      s_read_buf := (if 0 < len then bytes else s_read_buf s)\<rparr>
            in if s_read_length s \<le> 0 then (-1, cse_close (s, w))
               else (s_read_length s, s, w))"

text \<open>The guard in front of every read: refill when the buffer is used up.\<close>

definition ensure_data :: "io \<Rightarrow> int \<times> io" where
  "ensure_data = (\<lambda>(s, w).
     if s_read_offset s \<ge> s_read_length s then cse_fill_buffer (s, w) else (0, s, w))"

definition cse_read_byte :: "io \<Rightarrow> (int \<times> io) res" where
  "cse_read_byte x =
     (let (fl, s, w) = ensure_data x in
      if fl < 0 then Inr (-1, s, w)
      else bindR (read_mem (s_read_buf s) (s_read_offset s) 1) (\<lambda>bs.
             Inr (of_char (hd bs), s\<lparr>s_read_offset := s_read_offset s + 1\<rparr>, w)))"

subsection \<open>Writing\<close>

definition cse_write :: "string \<Rightarrow> int \<Rightarrow> io \<Rightarrow> io res" where
  "cse_write buf len = (\<lambda>(s, w).
     let append = (\<lambda>(s, w). bindR (read_mem buf 0 len) (\<lambda>bs.
           if s_write_length s + len > int BUF_LENGTH + 1 then Inl OutOfBounds
           else Inr (s\<lparr>s_write_buf := s_write_buf s @ bs\<rparr>, w)))
     in
     if s_write_length s + len > int BUF_LENGTH then
       let (r, s, w) = (if s_write_length s > 0 then
                let (n, w) = sys_send (s_socket s) (s_write_buf s) w
                in (n, s\<lparr>s_write_buf := []\<rparr>, w)
              else (0, s, w))
       in if r < 0 then Inr (cse_close (s, w))
          else if len > int BUF_LENGTH then
            let (n, w) = sys_send (s_socket s) (s_write_buf s) w in
            if n < 0 then Inr (cse_close (s, w)) else Inr (s, w)
          else append (s, w)
     else append (s, w))"

definition cse_write_packet :: "char \<Rightarrow> string \<Rightarrow> int \<Rightarrow> io \<Rightarrow> io res" where
  "cse_write_packet code buf len x =
     (let temp = [code, char_of (drop_bit 16 len AND 255),
                  char_of (drop_bit 8 len AND 255), char_of (len AND 255)]
      in bindR (cse_write temp 4 x) (\<lambda>x.
           if len \<ge> 0 then cse_write buf len x else Inr x))"

definition cse_write_string :: "char \<Rightarrow> string option \<Rightarrow> io \<Rightarrow> io res" where
  "cse_write_string code buf x =
     (case buf of None \<Rightarrow> Inr x
      | Some str \<Rightarrow> cse_write_packet code str (int (length str)) x)"

subsection \<open>Reading blocks\<close>

lemma ensure_data_progress:
  assumes "ensure_data (s, w) = (r, s', w')" "\<not> r < 0"
  shows "s_read_offset s' < s_read_length s'"
  using assms
  by (auto simp: ensure_data_def cse_fill_buffer_def cse_close_def Let_def
      split: if_splits prod.splits)

text \<open>
  \<open>cse_read_all\<close> copies \<open>len\<close> bytes to an array, refilling as needed; \<open>off\<close> is how far the
  C pointer has advanced in the array.
\<close>

function read_all_loop :: "string \<Rightarrow> int \<Rightarrow> int \<Rightarrow> io \<Rightarrow> (bool \<times> string \<times> io) res" where
  "read_all_loop buf off len (s, w) =
     (if len \<le> 0 then Inr (True, buf, s, w)
      else let (fl, s, w) = ensure_data (s, w) in
        if fl < 0 then Inr (False, buf, s, w)
        else let sublen = s_read_length s - s_read_offset s;
                 sublen = (if len < sublen then len else sublen)
             in bindR (read_mem (s_read_buf s) (s_read_offset s) sublen) (\<lambda>bs.
                bindR (store buf off bs) (\<lambda>buf.
                read_all_loop buf (off + sublen) (len - sublen)
                  (s\<lparr>s_read_offset := s_read_offset s + sublen\<rparr>, w))))"
  by pat_completeness auto
termination
  by (relation "measure (\<lambda>(buf, off, len, x). nat len)")
    (auto dest: ensure_data_progress simp: eq_commute)

definition cse_read_all :: "string \<Rightarrow> int \<Rightarrow> io \<Rightarrow> (int \<times> string \<times> io) res" where
  "cse_read_all buf len x =
     bindR (read_all_loop buf 0 len x) (\<lambda>(ok, buf, x). Inr (if ok then len else -1, buf, x))"

function cse_skip :: "int \<Rightarrow> io \<Rightarrow> int \<times> io" where
  "cse_skip len (s, w) =
     (if len \<le> 0 then (1, s, w)
      else let (fl, s, w) = ensure_data (s, w) in
        if fl < 0 then (-1, s, w)
        else let sublen = s_read_length s - s_read_offset s;
                 sublen = (if len < sublen then len else sublen)
             in cse_skip (len - sublen) (s\<lparr>s_read_offset := s_read_offset s + sublen\<rparr>, w))"
  by pat_completeness auto
termination
  by (relation "measure (\<lambda>(len, x). nat len)")
    (auto dest: ensure_data_progress simp: eq_commute)

definition cse_read_limit :: "string \<Rightarrow> int \<Rightarrow> int \<Rightarrow> io \<Rightarrow> (int \<times> string \<times> io) res" where
  "cse_read_limit buf buflen readlen x =
     (if buflen > readlen then
        bindR (cse_read_all buf readlen x) (\<lambda>(result, buf, x).
        bindR (store buf readlen [NUL]) (\<lambda>buf. Inr (result, buf, x)))
      else
        bindR (cse_read_all buf buflen x) (\<lambda>(result, buf, x).
        bindR (store buf (buflen - 1) [NUL]) (\<lambda>buf.
        let (_, x) = cse_skip (readlen - buflen) x in Inr (result, buf, x))))"

subsection \<open>Packet headers and strings\<close>

text \<open>
  The four bytes in front of a packet, read the same way by \<open>cse_read_string\<close> and by the
  response loop of the request handler: the code, the third length byte as read (-1 at the
  end of the stream), and the length.
\<close>

definition packet_length :: "int \<Rightarrow> int \<Rightarrow> int \<Rightarrow> int" where
  "packet_length b1 b2 l3 =
     (let l1 = b1 AND 255; l2 = b2 AND 255
      in push_bit 16 l1 + push_bit 8 l2 + (l3 AND 255))"

definition read_header :: "io \<Rightarrow> ((int \<times> int \<times> int) \<times> io) res" where
  "read_header x =
     bindR (cse_read_byte x) (\<lambda>(code, x).
     bindR (cse_read_byte x) (\<lambda>(b1, x).
     bindR (cse_read_byte x) (\<lambda>(b2, x).
     bindR (cse_read_byte x) (\<lambda>(l3, x).
       Inr ((code, l3, packet_length b1 b2 l3), x)))))"

definition cse_read_string :: "string \<Rightarrow> int \<Rightarrow> io \<Rightarrow> (int \<times> string \<times> io) res" where
  "cse_read_string buf len x =
     (let len = len - 1 in
      bindR (read_header x) (\<lambda>((code, l3, read_length), s, w).
        if s_socket s < 0 \<or> l3 < 0 then Inr (-1, buf, s, w)
        else cse_read_limit buf len read_length (s, w)))"

subsection \<open>The stream's invariant: no operation leaves the buffers\<close>

definition stream_ok :: "stream \<Rightarrow> bool" where
  "stream_ok s \<longleftrightarrow>
     0 \<le> s_read_offset s \<and> s_read_offset s \<le> max 0 (s_read_length s) \<and>
     (s_read_length s \<le> 0 \<or> s_read_length s = int (length (s_read_buf s))) \<and>
     length (s_read_buf s) \<le> BUF_LENGTH \<and> length (s_write_buf s) \<le> BUF_LENGTH"

lemma cse_close_simps [simp]:
  "fst (cse_close (s, w)) = s\<lparr>s_socket := -1\<rparr>"
  "set (open_fds (snd (cse_close (s, w)))) = set (open_fds w) - {s_socket s}"
  "rx (snd (cse_close (s, w))) = rx w" "tx (snd (cse_close (s, w))) = tx w"
  "conns (snd (cse_close (s, w))) = conns w"
  "sent_on d (log (snd (cse_close (s, w)))) = sent_on d (log w)"
  by (simp_all add: cse_close_def Let_def)

lemma stream_ok_close [simp]: "stream_ok (s\<lparr>s_socket := d\<rparr>) = stream_ok s"
  by (simp add: stream_ok_def)

lemma cse_close_pair: "cse_close (s, w) = (s\<lparr>s_socket := -1\<rparr>, snd (cse_close (s, w)))"
  by (metis cse_close_simps(1) surjective_pairing)

lemma stream_ok_flush: "stream_ok s \<Longrightarrow> cse_flush (s, w) = (r, s', w') \<Longrightarrow> stream_ok s'"
  by (auto simp: cse_flush_def stream_ok_def Let_def split: if_splits prod.splits)

lemma stream_ok_fill:
  assumes "stream_ok s" "cse_fill_buffer (s, w) = (r, s', w')"
  shows "stream_ok s'"
proof (cases "s_socket s < 0")
  case True
  with assms show ?thesis by (simp add: cse_fill_buffer_def)
next
  case False
  obtain fl s1 w1 where fl: "cse_flush (s, w) = (fl, s1, w1)" by (metis prod_cases3)
  obtain len bytes w2 where rv: "sys_recv (s_socket s1) BUF_LENGTH w1 = (len, bytes, w2)"
    by (metis prod_cases3)
  have ok: "stream_ok s1" by (rule stream_ok_flush [OF assms(1) fl])
  show ?thesis
    using assms(2) False fl rv ok sys_recv_result [OF rv]
    by (auto simp: cse_fill_buffer_def Let_def stream_ok_def cse_close_def split: if_splits)
qed

lemma stream_ok_ensure: "stream_ok s \<Longrightarrow> ensure_data (s, w) = (r, s', w') \<Longrightarrow> stream_ok s'"
  by (auto simp: ensure_data_def split: if_splits intro: stream_ok_fill)

lemma ensure_data_readable:
  assumes "stream_ok s" "ensure_data (s, w) = (r, s', w')" "\<not> r < 0"
  shows "stream_ok s'" "s_read_length s' = int (length (s_read_buf s'))"
    "0 \<le> s_read_offset s'" "s_read_offset s' < s_read_length s'"
  using stream_ok_ensure [OF assms(1,2)] ensure_data_progress [OF assms(2,3)]
  by (auto simp: stream_ok_def)

lemma stream_ok_advance:
  "stream_ok s \<Longrightarrow> 0 \<le> n \<Longrightarrow> s_read_offset s + n \<le> s_read_length s \<Longrightarrow>
   stream_ok (s\<lparr>s_read_offset := s_read_offset s + n\<rparr>)"
  by (auto simp: stream_ok_def)

definition unread :: "stream \<Rightarrow> string" where
  "unread s = (if s_read_offset s < s_read_length s
     then drop (nat (s_read_offset s)) (s_read_buf s) else [])"

abbreviation advance :: "int \<Rightarrow> stream \<Rightarrow> stream" where
  "advance n s \<equiv> s\<lparr>s_read_offset := s_read_offset s + n\<rparr>"

lemma read_from_buffer:
  assumes "stream_ok s" "0 < n" "s_read_offset s + n \<le> s_read_length s"
  obtains bs where "read_mem (s_read_buf s) (s_read_offset s) n = Inr bs"
    "int (length bs) = n" "unread s = bs @ unread (advance n s)" "stream_ok (advance n s)"
proof -
  have len: "s_read_length s = int (length (s_read_buf s))" "0 \<le> s_read_offset s"
    using assms by (auto simp: stream_ok_def)
  define bs where "bs = take (nat n) (drop (nat (s_read_offset s)) (s_read_buf s))"
  show thesis
  proof
    show "read_mem (s_read_buf s) (s_read_offset s) n = Inr bs"
      using assms len by (simp add: read_mem_def bs_def)
    show "int (length bs) = n" using assms len by (simp add: bs_def)
    have "nat (s_read_offset s + n) = nat n + nat (s_read_offset s)"
      using assms len by (simp add: nat_add_distrib)
    then show "unread s = bs @ unread (advance n s)"
      using assms len by (auto simp: unread_def bs_def drop_drop [symmetric] simp del: drop_drop)
    show "stream_ok (advance n s)" using assms by (auto simp: stream_ok_def)
  qed
qed

lemma cse_read_byte_step:
  assumes "stream_ok s" "ensure_data (s, w) = (fl, s1, w1)" "\<not> fl < 0"
  obtains c where "cse_read_byte (s, w) = Inr (of_char c, advance 1 s1, w1)"
    "unread s1 = c # unread (advance 1 s1)" "stream_ok (advance 1 s1)"
proof -
  note r = ensure_data_readable [OF assms]
  obtain bs where bs: "read_mem (s_read_buf s1) (s_read_offset s1) 1 = Inr bs"
    "int (length bs) = 1" "unread s1 = bs @ unread (advance 1 s1)" "stream_ok (advance 1 s1)"
    by (rule read_from_buffer [OF r(1), of 1]) (use r in auto)
  then obtain c where "bs = [c]" by (cases bs) auto
  with bs assms show thesis by (intro that [of c]) (simp_all add: cse_read_byte_def)
qed

lemma cse_read_byte_safe:
  assumes "stream_ok s"
  shows "returns (\<lambda>(r, s', w'). stream_ok s' \<and> -1 \<le> r \<and> r < 256) (cse_read_byte (s, w))"
proof -
  obtain fl s1 w1 where e: "ensure_data (s, w) = (fl, s1, w1)" by (metis prod_cases3)
  show ?thesis
  proof (cases "fl < 0")
    case True
    with e stream_ok_ensure [OF assms e] show ?thesis by (simp add: cse_read_byte_def)
  next
    case False
    obtain c where "cse_read_byte (s, w) = Inr (of_char c, advance 1 s1, w1)"
      "stream_ok (advance 1 s1)" by (rule cse_read_byte_step [OF assms e False])
    then show ?thesis using of_char_less [of c] by simp
  qed
qed

text \<open>One round of the block loops: what they take from the buffer and where they go on.\<close>

declare read_all_loop.simps [simp del] cse_skip.simps [simp del]

lemma read_all_loop_done [simp]: "len \<le> 0 \<Longrightarrow> read_all_loop buf off len x = Inr (True, buf, x)"
  by (cases x) (simp add: read_all_loop.simps)

lemma cse_skip_done [simp]: "len \<le> 0 \<Longrightarrow> cse_skip len x = (1, x)"
  by (cases x) (simp add: cse_skip.simps)

lemma block_end:
  assumes "0 < len" "ensure_data (s, w) = (fl, s1, w1)" "fl < 0"
  shows "read_all_loop buf off len (s, w) = Inr (False, buf, s1, w1)"
    and "cse_skip len (s, w) = (-1, s1, w1)"
  using assms by (simp_all add: read_all_loop.simps [of buf off len s w] cse_skip.simps [of len s w])

lemma block_step:
  assumes "stream_ok s" "0 < len" "ensure_data (s, w) = (fl, s1, w1)" "\<not> fl < 0"
  obtains n bs where "0 < n" "n \<le> len" "int (length bs) = n"
    "unread s1 = bs @ unread (advance n s1)" "stream_ok (advance n s1)"
    "\<forall>buf off. read_all_loop buf off len (s, w) = bindR (store buf off bs)
       (\<lambda>buf. read_all_loop buf (off + n) (len - n) (advance n s1, w1))"
    "cse_skip len (s, w) = cse_skip (len - n) (advance n s1, w1)"
proof -
  define n where "n = (if len < s_read_length s1 - s_read_offset s1 then len
    else s_read_length s1 - s_read_offset s1)"
  note r = ensure_data_readable [OF assms(1,3,4)]
  have n: "0 < n" "n \<le> len" "s_read_offset s1 + n \<le> s_read_length s1"
    using assms r by (auto simp: n_def)
  obtain bs where bs: "read_mem (s_read_buf s1) (s_read_offset s1) n = Inr bs"
    "int (length bs) = n" "unread s1 = bs @ unread (advance n s1)" "stream_ok (advance n s1)"
    by (rule read_from_buffer [OF r(1) n(1,3)])
  show thesis
  proof (rule that [OF n(1,2) bs(2,3,4)])
    show "\<forall>buf off. read_all_loop buf off len (s, w) = bindR (store buf off bs)
       (\<lambda>buf. read_all_loop buf (off + n) (len - n) (advance n s1, w1))"
      using assms bs(1) by (simp add: read_all_loop.simps [of _ _ len s w] n_def [symmetric])
    show "cse_skip len (s, w) = cse_skip (len - n) (advance n s1, w1)"
      using assms by (simp add: cse_skip.simps [of len s w] n_def [symmetric])
  qed
qed

lemma read_all_loop_safe:
  assumes "stream_ok s" "0 \<le> off" "off + len \<le> int (length buf)"
  shows "returns (\<lambda>(ok, buf', s', w'). stream_ok s' \<and> length buf' = length buf)
    (read_all_loop buf off len (s, w))"
  using assms
proof (induction "nat len" arbitrary: buf off len s w rule: less_induct)
  case less
  obtain fl s1 w1 where e: "ensure_data (s, w) = (fl, s1, w1)" by (metis prod_cases3)
  consider "len \<le> 0" | "0 < len" "fl < 0" | "0 < len" "\<not> fl < 0" by linarith
  then show ?case
  proof cases
    case 3
    obtain n bs where n: "0 < n" "n \<le> len" "int (length bs) = n"
      "unread s1 = bs @ unread (advance n s1)" "stream_ok (advance n s1)"
      and step: "\<forall>buf off. read_all_loop buf off len (s, w) = bindR (store buf off bs)
        (\<lambda>buf. read_all_loop buf (off + n) (len - n) (advance n s1, w1))"
        "cse_skip len (s, w) = cse_skip (len - n) (advance n s1, w1)"
      by (rule block_step [OF less.prems(1) 3(1) e 3(2)])
    have "off + int (length bs) \<le> int (length buf)" using less.prems(3) n(2,3) by linarith
    then obtain b where b: "store buf off bs = Inr b" "length b = length buf"
      by (rule store_obtain [OF less.prems(2)])
    have "returns (\<lambda>(ok, buf', s', w'). stream_ok s' \<and> length buf' = length b)
        (read_all_loop b (off + n) (len - n) (advance n s1, w1))"
      by (rule less.hyps) (use less.prems n b 3 in auto)
    then show ?thesis using b by (simp add: step)
  next
    case 2
    then show ?thesis using block_end(1) [OF 2(1) e 2(2)] stream_ok_ensure [OF less.prems(1) e]
      by simp
  qed (use less.prems in simp)
qed

lemma cse_skip_safe: "stream_ok s \<Longrightarrow> cse_skip len (s, w) = (r, s', w') \<Longrightarrow> stream_ok s'"
proof (induction "nat len" arbitrary: len s w rule: less_induct)
  case less
  obtain fl s1 w1 where e: "ensure_data (s, w) = (fl, s1, w1)" by (metis prod_cases3)
  consider "len \<le> 0" | "0 < len" "fl < 0" | "0 < len" "\<not> fl < 0" by linarith
  then show ?case
  proof cases
    case 3
    obtain n bs where n: "0 < n" "n \<le> len" "int (length bs) = n"
      "unread s1 = bs @ unread (advance n s1)" "stream_ok (advance n s1)"
      and step: "\<forall>buf off. read_all_loop buf off len (s, w) = bindR (store buf off bs)
        (\<lambda>buf. read_all_loop buf (off + n) (len - n) (advance n s1, w1))"
        "cse_skip len (s, w) = cse_skip (len - n) (advance n s1, w1)"
      by (rule block_step [OF less.prems(1) 3(1) e 3(2)])
    show ?thesis by (rule less.hyps [OF _ n(5)]) (use n step(2) less.prems 3 in auto)
  next
    case 2
    then show ?thesis using block_end(2) [OF 2(1) e 2(2)] stream_ok_ensure [OF less.prems(1) e]
        less.prems(2) by simp
  qed (use less.prems in simp)
qed

lemma cse_read_all_safe:
  assumes "stream_ok s" "len \<le> int (length buf)"
  shows "returns (\<lambda>(r, buf', s', w'). stream_ok s' \<and> length buf' = length buf \<and> (r = len \<or> r = -1))
    (cse_read_all buf len (s, w))"
  using read_all_loop_safe [of s 0 len buf w] assms
  by (auto simp: cse_read_all_def returns_bindR elim!: returns_mono)

lemma packet_length_mod:
  "packet_length a b c = 65536 * (a mod 256) + 256 * (b mod 256) + c mod 256"
  by (simp add: packet_length_def and_255_mod push_bit_eq_mult)

lemma packet_length_bound: "0 \<le> packet_length a b c" "packet_length a b c < 16777216"
  using pos_mod_bound [of 256 a] pos_mod_bound [of 256 b] pos_mod_bound [of 256 c]
    pos_mod_sign [of 256 a] pos_mod_sign [of 256 b] pos_mod_sign [of 256 c]
  by (simp_all add: packet_length_mod)

lemma read_header_safe:
  assumes "stream_ok s"
  shows "returns (\<lambda>((code, l3, len), s', w'). stream_ok s' \<and> 0 \<le> len \<and> len < 2 ^ 24) (read_header (s, w))"
proof -
  show ?thesis unfolding read_header_def
    by (rule returns_bindI [OF cse_read_byte_safe [OF assms]], clarify,
        rule returns_bindI, erule cse_read_byte_safe, clarify,
        rule returns_bindI, erule cse_read_byte_safe, clarify,
        rule returns_bindI, erule cse_read_byte_safe, clarify) (simp add: packet_length_bound)
qed

lemma cse_read_limit_safe:
  assumes "stream_ok s" "0 < buflen" "buflen \<le> int (length buf)" "0 \<le> readlen"
  shows "returns (\<lambda>(r, buf', s', w'). stream_ok s' \<and> length buf' = length buf)
    (cse_read_limit buf buflen readlen (s, w))"
proof (cases "buflen > readlen")
  case True
  have "returns (\<lambda>(r, buf', s', w'). stream_ok s' \<and> length buf' = length buf \<and> (r = readlen \<or> r = -1))
      (cse_read_all buf readlen (s, w))"
    by (rule cse_read_all_safe) (use assms True in auto)
  then show ?thesis using True assms
    by (auto simp: cse_read_limit_def returns_bindR store_def elim!: returns_mono)
next
  case False
  have "returns (\<lambda>(r, buf', s', w'). stream_ok s' \<and> length buf' = length buf \<and> (r = buflen \<or> r = -1))
      (cse_read_all buf buflen (s, w))"
    by (rule cse_read_all_safe) (use assms in auto)
  then show ?thesis using False assms
    by (auto simp: cse_read_limit_def returns_bindR store_def elim!: returns_mono
        split: prod.split intro: cse_skip_safe)
qed

lemma cse_read_string_safe:
  assumes "stream_ok s" "2 \<le> len" "len \<le> int (length buf)"
  shows "returns (\<lambda>(r, buf', s', w'). stream_ok s' \<and> length buf' = length buf)
    (cse_read_string buf len (s, w))"
  unfolding cse_read_string_def Let_def
  by (rule returns_bindI [OF read_header_safe [OF assms(1)]])
    (use assms in \<open>auto intro!: cse_read_limit_safe\<close>)


subsection \<open>Relations that every read keeps\<close>

text \<open>
  The contract between the reading routines and what is claimed of a stream from before to
  after: a preorder that refilling, advancing and closing respect is respected by every routine
  that reads.
\<close>

locale reading =
  fixes R :: "io \<Rightarrow> io \<Rightarrow> bool"
  assumes R_refl: "R x x"
    and R_trans: "R x y \<Longrightarrow> R y z \<Longrightarrow> R x z"
    and R_ensure: "ensure_data (s, w) = (fl, s', w') \<Longrightarrow> R (s, w) (s', w')"
    and R_advance: "0 \<le> n \<Longrightarrow> s_read_offset s + n \<le> s_read_length s \<Longrightarrow> R (s, w) (advance n s, w)"
    and R_close: "R (s, w) (cse_close (s, w))"
begin

lemma R_read_byte:
  assumes "cse_read_byte x = Inr (c, y)"
  shows "R x y"
proof -
  obtain s w where x: "x = (s, w)" by (rule prod.exhaust)
  obtain fl s1 w1 where e: "ensure_data (s, w) = (fl, s1, w1)" by (rule prod_cases3)
  have "y = (s1, w1) \<or> \<not> fl < 0 \<and> y = (advance 1 s1, w1)"
    using assms e x by (cases "fl < 0") (auto simp: cse_read_byte_def bindR_Inr_iff)
  moreover have "\<not> fl < 0 \<Longrightarrow> R (s1, w1) (advance 1 s1, w1)"
    by (rule R_advance) (use ensure_data_progress [OF e] in auto)
  ultimately show ?thesis using R_ensure [OF e] R_trans x by blast
qed

lemma R_read_header:
  assumes "read_header x = Inr (h, y)"
  shows "R x y"
proof -
  obtain c1 c2 c3 c4 x1 x2 x3 where "cse_read_byte x = Inr (c1, x1)" "cse_read_byte x1 = Inr (c2, x2)"
    "cse_read_byte x2 = Inr (c3, x3)" "cse_read_byte x3 = Inr (c4, y)"
    using assms by (auto simp: read_header_def bindR_Inr_iff)
  then show ?thesis using R_read_byte R_trans by blast
qed

lemma R_read_all_loop:
  "read_all_loop buf off len (s, w) = Inr (ok, buf', y) \<Longrightarrow> R (s, w) y"
proof (induction "nat len" arbitrary: buf off len s w rule: less_induct)
  case less
  obtain fl s1 w1 where e: "ensure_data (s, w) = (fl, s1, w1)" by (rule prod_cases3)
  note c = R_ensure [OF e]
  consider "len \<le> 0" | "0 < len" "fl < 0" | "0 < len" "\<not> fl < 0" by linarith
  then show ?case
  proof cases
    case 1
    then show ?thesis using less.prems R_refl by simp
  next
    case 2
    then show ?thesis using less.prems e c by (simp add: read_all_loop.simps)
  next
    case 3
    define n where "n = (if len < s_read_length s1 - s_read_offset s1 then len else s_read_length s1 - s_read_offset s1)"
    have n: "0 < n" using 3 ensure_data_progress [OF e 3(2)] by (simp add: n_def)
    obtain buf1 where r: "read_all_loop buf1 (off + n) (len - n) (advance n s1, w1) = Inr (ok, buf', y)"
      using less.prems [unfolded read_all_loop.simps [of buf off len s w]] 3 e
      by (auto simp: Let_def n_def [symmetric] bindR_Inr_iff)
    have "nat (len - n) < nat len" using n 3 by simp
    from less.hyps [OF this r] have "R (advance n s1, w1) y" .
    moreover have "R (s1, w1) (advance n s1, w1)" by (rule R_advance) (use n in \<open>auto simp: n_def\<close>)
    ultimately show ?thesis by (blast intro: R_trans [OF c] R_trans)
  qed
qed

lemma R_read_all: "cse_read_all buf len x = Inr (r, buf', y) \<Longrightarrow> R x y"
  by (cases x) (auto simp: cse_read_all_def bindR_Inr_iff dest: R_read_all_loop)

lemma R_skip: "cse_skip len (s, w) = (r, y) \<Longrightarrow> R (s, w) y"
proof (induction "nat len" arbitrary: len s w rule: less_induct)
  case less
  obtain fl s1 w1 where e: "ensure_data (s, w) = (fl, s1, w1)" by (rule prod_cases3)
  note c = R_ensure [OF e]
  consider "len \<le> 0" | "0 < len" "fl < 0" | "0 < len" "\<not> fl < 0" by linarith
  then show ?case
  proof cases
    case 1
    then show ?thesis using less.prems R_refl by simp
  next
    case 2
    then show ?thesis using less.prems e c by (simp add: cse_skip.simps)
  next
    case 3
    define n where "n = (if len < s_read_length s1 - s_read_offset s1 then len else s_read_length s1 - s_read_offset s1)"
    have n: "0 < n" using 3 ensure_data_progress [OF e 3(2)] by (simp add: n_def)
    have r: "cse_skip (len - n) (advance n s1, w1) = (r, y)"
      using less.prems [unfolded cse_skip.simps [of len s w]] 3 e by (simp add: Let_def n_def [symmetric])
    have "nat (len - n) < nat len" using n 3 by simp
    from less.hyps [OF this r] have "R (advance n s1, w1) y" .
    moreover have "R (s1, w1) (advance n s1, w1)" by (rule R_advance) (use n in \<open>auto simp: n_def\<close>)
    ultimately show ?thesis by (blast intro: R_trans [OF c] R_trans)
  qed
qed

lemma R_read_limit:
  assumes "cse_read_limit buf n m x = Inr (r, buf', y)"
  shows "R x y"
proof (cases "n > m")
  case True
  then show ?thesis using assms by (auto simp: cse_read_limit_def bindR_Inr_iff dest: R_read_all)
next
  case False
  then have e: "bindR (cse_read_all buf n x) (\<lambda>(result, buf, x). bindR (store buf (n - 1) [NUL]) (\<lambda>buf.
      let (_, x) = cse_skip (m - n) x in Inr (result, buf, x))) = Inr (r, buf', y)"
    using assms by (simp add: cse_read_limit_def)
  then obtain r1 b1 s1 w1 where 1: "cse_read_all buf n x = Inr (r1, b1, s1, w1)"
    by (cases "cse_read_all buf n x") auto
  obtain q z where 2: "cse_skip (m - n) (s1, w1) = (q, z)" by (rule prod.exhaust)
  have "z = y" using e 1 2 by (auto simp: bindR_Inr_iff)
  then show ?thesis using R_read_all [OF 1] R_skip [OF 2] R_trans by blast
qed

lemma R_read_string:
  assumes "cse_read_string buf n x = Inr (r, buf', y)"
  shows "R x y"
proof -
  obtain code l3 len s w where h: "read_header x = Inr ((code, l3, len), s, w)"
    "(if s_socket s < 0 \<or> l3 < 0 then Inr (-1, buf, s, w) else cse_read_limit buf (n - 1) len (s, w)) = Inr (r, buf', y)"
    using assms by (auto simp: cse_read_string_def Let_def bindR_Inr_iff)
  have "R (s, w) y" using h(2) R_read_limit R_refl by (auto split: if_splits)
  then show ?thesis using R_read_header [OF h(1)] R_trans by blast
qed

end

text \<open>
  The bytes the stream can still deliver, over errors too: no reading adds any, and a
  successful \<open>cse_read_byte\<close> takes one.
\<close>

definition chunk_len :: "string option \<Rightarrow> nat" where
  "chunk_len c = (case c of None \<Rightarrow> 0 | Some bs \<Rightarrow> length bs)"

definition bytes_left :: "io \<Rightarrow> nat" where
  "bytes_left = (\<lambda>(s, w). length (unread s) +
     (if s_socket s < 0 then 0 else sum_list (map chunk_len (rx w (s_socket s)))))"

text \<open>Reading keeps the connection as it is, or closes it; nothing else is opened or closed.\<close>

definition keeps_conn :: "io \<Rightarrow> io \<Rightarrow> bool" where
  "keeps_conn = (\<lambda>(s, w) (s', w'). s_srun s' = s_srun s \<and> s_pool s' = s_pool s \<and> s_update_count s' = s_update_count s \<and>
     (s_socket s' = s_socket s \<and> set (open_fds w') = set (open_fds w) \<or>
      s_socket s' = -1 \<and> s_socket s \<notin> set (open_fds w') \<and> set (open_fds w') \<subseteq> set (open_fds w) \<and>
      set (open_fds w) - {s_socket s, -1} \<subseteq> set (open_fds w')))"

lemma keeps_conn_close: "keeps_conn (s, w) (cse_close (s, w))"
  by (subst cse_close_pair) (auto simp: keeps_conn_def)

lemma bytes_left_close: "bytes_left (cse_close (s, w)) \<le> bytes_left (s, w)"
  by (simp add: cse_close_def Let_def bytes_left_def unread_def)

lemma cse_flush_frame:
  assumes "cse_flush (s, w) = (r, s', w')"
  shows "rx w' = rx w" "s_socket s' = s_socket s" "unread s' = unread s" "s_read_length s' = s_read_length s"
    "s_read_offset s' = s_read_offset s" "keeps_conn (s, w) (s', w')"
proof -
  obtain len v where e: "sys_send (s_socket s) (s_write_buf s) w = (len, v)" by (rule prod.exhaust)
  have "rx v = rx w" "open_fds v = open_fds w"
    using sys_send_frame(1,2) [of "s_socket s" "s_write_buf s" w] e by simp_all
  then show "rx w' = rx w" "s_socket s' = s_socket s" "unread s' = unread s" "s_read_length s' = s_read_length s"
    "s_read_offset s' = s_read_offset s" "keeps_conn (s, w) (s', w')"
    using assms e by (auto simp: cse_flush_def unread_def keeps_conn_def split: if_splits)
qed

lemma sys_recv_left:
  assumes "sys_recv fd n w = (r, bs, w')"
  shows "0 < r \<Longrightarrow> r = int (length bs) \<and>
      length bs + sum_list (map chunk_len (rx w' fd)) \<le> sum_list (map chunk_len (rx w fd))"
    and "sum_list (map chunk_len (rx w' fd)) \<le> sum_list (map chunk_len (rx w fd))"
  using assms by (auto simp: sys_recv_def chunk_len_def split: if_splits list.splits option.splits)

lemma keeps_conn_trans: "keeps_conn x y \<Longrightarrow> keeps_conn y z \<Longrightarrow> keeps_conn x z"
  by (auto simp: keeps_conn_def split: prod.splits)

lemma ensure_data_relations:
  assumes "ensure_data (s, w) = (fl, s', w')"
  shows "bytes_left (s', w') \<le> bytes_left (s, w) \<and> keeps_conn (s, w) (s', w')"
proof (cases "s_read_offset s \<ge> s_read_length s \<and> 0 \<le> s_socket s")
  case False
  then show ?thesis using assms
    by (auto simp: ensure_data_def cse_fill_buffer_def bytes_left_def keeps_conn_def split: if_splits)
next
  case True
  obtain f s1 w1 where fl: "cse_flush (s, w) = (f, s1, w1)" by (rule prod_cases3)
  obtain len bs w2 where rv: "sys_recv (s_socket s1) BUF_LENGTH w1 = (len, bs, w2)" by (rule prod_cases3)
  note frame = cse_flush_frame [OF fl]
  have un: "unread s = []" using True by (simp add: unread_def)
  let ?s2 = "s1\<lparr>s_read_offset := 0, s_read_length := len, s_read_buf := (if 0 < len then bs else s_read_buf s1)\<rparr>"
  have e: "(fl, s', w') = (if f < 0 then (-1, s1, w1)
      else if len \<le> 0 then (-1, cse_close (?s2, w2)) else (len, ?s2, w2))"
    using assms True fl rv by (cases "f < 0") (auto simp: ensure_data_def cse_fill_buffer_def Let_def)
  have "open_fds w2 = open_fds w1" using sys_recv_frame(1) [of "s_socket s1" BUF_LENGTH w1] rv by simp
  then have "keeps_conn (s1, w1) (?s2, w2)" by (simp add: keeps_conn_def)
  then have 2: "keeps_conn (s, w) (?s2, w2)" "keeps_conn (s, w) (cse_close (?s2, w2))"
    using frame(6) keeps_conn_trans keeps_conn_close by blast+
  consider "f < 0" | "0 \<le> f" "len \<le> 0" | "0 \<le> f" "0 < len" by linarith
  then show ?thesis
  proof cases
    case 1
    then show ?thesis using e frame by (simp add: bytes_left_def)
  next
    case 2
    then have "(s', w') = cse_close (?s2, w2)" using e by simp
    moreover have "bytes_left (cse_close (?s2, w2)) = 0" using 2 by (simp add: cse_close_def Let_def bytes_left_def unread_def)
    ultimately show ?thesis using \<open>keeps_conn (s, w) (cse_close (?s2, w2))\<close> by simp
  next
    case 3
    then show ?thesis using e sys_recv_left [OF rv] frame True un \<open>keeps_conn (s, w) (?s2, w2)\<close>
      by (auto simp: bytes_left_def unread_def)
  qed
qed

interpretation left: reading "\<lambda>x y. bytes_left y \<le> bytes_left x"
proof (unfold_locales, goal_cases)
  case (3 s w fl s' w')
  then show ?case using ensure_data_relations by blast
next
  case (4 n s w)
  then show ?case by (auto simp: bytes_left_def unread_def nat_mono diff_le_mono2)
next
  case (5 s w)
  then show ?case by (rule bytes_left_close)
qed auto

interpretation safe: reading "\<lambda>x y. stream_ok (fst x) \<longrightarrow> stream_ok (fst y)"
proof (unfold_locales, goal_cases)
  case (3 s w fl s' w')
  then show ?case using stream_ok_ensure by auto
next
  case (4 n s w)
  then show ?case using stream_ok_advance by simp
next
  case (5 s w)
  then show ?case by simp
qed auto

interpretation conn: reading keeps_conn
proof (unfold_locales, goal_cases)
  case (1 x)
  then show ?case by (auto simp: keeps_conn_def)
next
  case (2 x y z)
  then show ?case by (rule keeps_conn_trans)
next
  case (3 s w fl s' w')
  then show ?case using ensure_data_relations by blast
next
  case (4 n s w)
  then show ?case by (simp add: keeps_conn_def)
next
  case (5 s w)
  then show ?case by (rule keeps_conn_close)
qed

lemma read_byte_takes_one:
  assumes "cse_read_byte x = Inr (c, y)" "0 \<le> c"
  shows "bytes_left y < bytes_left x"
proof -
  obtain s w where x: "x = (s, w)" by (rule prod.exhaust)
  obtain fl s1 w1 where e: "ensure_data (s, w) = (fl, s1, w1)" by (rule prod_cases3)
  have nn: "\<not> fl < 0" using assms e x by (auto simp: cse_read_byte_def)
  obtain bs where r: "read_mem (s_read_buf s1) (s_read_offset s1) 1 = Inr bs" "y = (advance 1 s1, w1)"
    using assms(1) e nn x by (auto simp: cse_read_byte_def bindR_Inr_iff)
  have "0 \<le> s_read_offset s1" "s_read_offset s1 + 1 \<le> int (length (s_read_buf s1))"
    using r(1) by (auto simp: read_mem_def split: if_splits)
  then have "nat (s_read_offset s1 + 1) = Suc (nat (s_read_offset s1))" "nat (s_read_offset s1) < length (s_read_buf s1)" by auto
  then have "bytes_left (advance 1 s1, w1) < bytes_left (s1, w1)"
    using ensure_data_progress [OF e nn] by (auto simp: bytes_left_def unread_def)
  then show ?thesis using ensure_data_relations [OF e] r(2) x by simp
qed

lemma read_header_takes_one:
  assumes "read_header x = Inr ((code, l3, len), y)" "0 \<le> code"
  shows "bytes_left y < bytes_left x"
proof -
  obtain c2 c3 c4 x1 x2 x3 where h: "cse_read_byte x = Inr (code, x1)" "cse_read_byte x1 = Inr (c2, x2)"
    "cse_read_byte x2 = Inr (c3, x3)" "cse_read_byte x3 = Inr (c4, y)"
    using assms(1) by (auto simp: read_header_def bindR_Inr_iff)
  show ?thesis
    using left.R_read_byte [OF h(2)] left.R_read_byte [OF h(3)] left.R_read_byte [OF h(4)]
      read_byte_takes_one [OF h(1) assms(2)] by simp
qed

end
