(* ===== verification/Cse_Framing.thy ===== *)
theory Cse_Framing
  imports Cse_Stream
begin

text \<open>
  What the stream routines do to the two byte sequences they stand between: the bytes the
  peer will deliver (\<open>pending\<close>: the unread part of the buffer, then what the descriptor still
  holds) and the bytes the peer is given (\<open>wire\<close>: what was sent, then what is queued).  The
  segmentation of the input and the moments of flushing do not show in them.
\<close>

subsection \<open>The unread input\<close>

definition pending :: "io \<Rightarrow> string" where
  "pending = (\<lambda>(s, w). unread s @
     (if s_socket s < 0 then [] else deliverable (rx w (s_socket s))))"

text \<open>The stream is open on a live descriptor, and a flush before a refill goes through.\<close>

definition usable :: "io \<Rightarrow> bool" where
  "usable = (\<lambda>(s, w). stream_ok s \<and> (0 \<le> s_socket s \<longrightarrow>
     s_socket s \<in> set (open_fds w) \<and> (s_write_buf s = [] \<or> tx_takes BUF_LENGTH w)))"

lemma BUF_LENGTH_pos [simp]: "0 < BUF_LENGTH" by (simp add: BUF_LENGTH_def)

lemma cse_flush_takes:
  assumes "stream_ok s" "s_socket s \<in> set (open_fds w)" "s_write_buf s = [] \<or> tx_takes BUF_LENGTH w"
  obtains w1 where "cse_flush (s, w) = (0, s\<lparr>s_write_buf := []\<rparr>, w1)"
    "open_fds w1 = open_fds w" "rx w1 = rx w" "tx_takes BUF_LENGTH w \<Longrightarrow> tx_takes BUF_LENGTH w1"
    "\<forall>fd. sent_on fd (log w1) = sent_on fd (log w) @ (if fd = s_socket s then s_write_buf s else [])"
proof (cases "s_write_buf s = []")
  case True
  then show thesis by (intro that [of w]) (simp_all add: cse_flush_def s_write_length_def)
next
  case False
  then have tx: "tx_takes BUF_LENGTH w" and len: "length (s_write_buf s) \<le> BUF_LENGTH"
    using assms by (auto simp: stream_ok_def)
  note whole = sys_send_whole [OF assms(2) tx len]
  show thesis
    by (rule that [of "snd (sys_send (s_socket s) (s_write_buf s) w)"])
      (use False whole in \<open>auto simp: cse_flush_def s_write_length_def frame_simps
        split: prod.splits\<close>)
qed

lemma ensure_data_cases:
  assumes "usable (s, w)" "ensure_data (s, w) = (fl, s', w')"
  shows "usable (s', w') \<and> pending (s', w') = pending (s, w) \<and>
    (if pending (s, w) = [] then fl < 0 \<and> s_socket s' < 0
     else \<not> fl < 0 \<and> s_socket s' = s_socket s)"
proof -
  have ok: "stream_ok s" using assms by (simp add: usable_def)
  consider (buf) "s_read_offset s < s_read_length s" | (closed) "s_read_length s \<le> s_read_offset s" "s_socket s < 0"
    | (fill) "s_read_length s \<le> s_read_offset s" "0 \<le> s_socket s" by linarith
  then show ?thesis
  proof cases
    case buf
    then show ?thesis using assms ok
      by (auto simp: ensure_data_def pending_def unread_def stream_ok_def)
  next
    case closed
    then show ?thesis using assms
      by (auto simp: ensure_data_def cse_fill_buffer_def pending_def unread_def)
  next
    case fill
    have op: "s_socket s \<in> set (open_fds w)" "s_write_buf s = [] \<or> tx_takes BUF_LENGTH w"
      using assms fill by (auto simp: usable_def)
    obtain w1 where w1: "cse_flush (s, w) = (0, s\<lparr>s_write_buf := []\<rparr>, w1)"
      "open_fds w1 = open_fds w" "rx w1 = rx w" by (rule cse_flush_takes [OF ok op])
    obtain len bytes w2 where rv: "sys_recv (s_socket s) BUF_LENGTH w1 = (len, bytes, w2)"
      by (metis prod_cases3)
    have op2: "open_fds w2 = open_fds w" using sys_recv_frame(1) [of "s_socket s" BUF_LENGTH w1] rv w1 by simp
    have ok': "stream_ok s'" using ok assms(2) by (rule stream_ok_ensure)
    have un: "unread s = []" using fill by (simp add: unread_def)
    show ?thesis
    proof (cases "deliverable (rx w (s_socket s)) = []")
      case True
      then have "len \<le> 0" using sys_recv_end [OF rv] w1 by simp
      then have "fl = -1" "s' = s\<lparr>s_write_buf := [], s_read_offset := 0, s_read_length := len, s_socket := -1\<rparr>"
        using assms(2) fill w1 rv
        by (auto simp: ensure_data_def cse_fill_buffer_def cse_close_def Let_def)
      then show ?thesis using ok' True un \<open>len \<le> 0\<close> by (simp add: usable_def pending_def unread_def)
    next
      case False
      note data = sys_recv_data [OF rv _ BUF_LENGTH_pos]
      have d: "0 < len" "len = int (length bytes)"
          "bytes @ deliverable (rx w2 (s_socket s)) = deliverable (rx w (s_socket s))"
        using data op(1) w1 False by simp_all
      then have "fl = len" "w' = w2" "s' = s\<lparr>s_write_buf := [], s_read_offset := 0,
          s_read_length := len, s_read_buf := bytes\<rparr>"
        using assms(2) fill w1 rv
        by (auto simp: ensure_data_def cse_fill_buffer_def Let_def)
      then show ?thesis using ok' op op2 d un fill False
        by (simp add: usable_def pending_def unread_def)
    qed
  qed
qed

lemma usable_advance:
  assumes "usable (s, w)" "stream_ok (advance n s)" "unread s = bs @ unread (advance n s)"
  shows "usable (advance n s, w)" "pending (s, w) = bs @ pending (advance n s, w)"
  using assms by (auto simp: usable_def pending_def)

subsection \<open>A source of bytes\<close>

text \<open>
  The contract between the stream and the code that decodes packets from it: reading one
  byte takes the first byte of the content and keeps the descriptor, and yields -1 for ever
  once there is none.
\<close>

locale byte_source =
  fixes getb :: "'s \<Rightarrow> (int \<times> 's) res"
    and content :: "'s \<Rightarrow> string"
    and inv :: "'s \<Rightarrow> bool"
    and fd :: "'s \<Rightarrow> int"
  assumes getb_Cons: "inv x \<Longrightarrow> content x = b # bs \<Longrightarrow>
      returns (\<lambda>(r, x'). r = of_char b \<and> inv x' \<and> content x' = bs \<and> fd x' = fd x) (getb x)"
    and getb_Nil: "inv x \<Longrightarrow> content x = [] \<Longrightarrow>
      returns (\<lambda>(r, x'). r = -1 \<and> inv x' \<and> content x' = []) (getb x)"
begin

lemma getb_total:
  assumes "inv x"
  shows "returns (\<lambda>(r, x'). inv x' \<and> content x' = drop 1 (content x) \<and>
    (if length (content x) \<le> 0 then r = -1
     else r = of_char (content x ! 0) \<and> fd x' = fd x)) (getb x)"
  using getb_Cons [OF assms] getb_Nil [OF assms]
  by (cases "content x") (auto elim!: returns_mono)

lemma getb_four:
  assumes "inv x"
  shows "returns (\<lambda>((c0, c1, c2, c3), x'). inv x' \<and> content x' = drop 4 (content x) \<and>
      (if length (content x) < 4 then c3 = -1
       else fd x' = fd x \<and> c0 = of_char (content x ! 0) \<and> c1 = of_char (content x ! 1) \<and>
            c2 = of_char (content x ! 2) \<and> c3 = of_char (content x ! 3)))
    (bindR (getb x) (\<lambda>(c0, x). bindR (getb x) (\<lambda>(c1, x). bindR (getb x) (\<lambda>(c2, x).
       bindR (getb x) (\<lambda>(c3, x). Inr ((c0, c1, c2, c3), x))))))"
  by (rule returns_bindI [OF getb_total [OF assms]], clarify, rule returns_bindI, erule getb_total,
      clarify, rule returns_bindI, erule getb_total, clarify, rule returns_bindI, erule getb_total,
      clarify) (simp add: numeral_eq_Suc split: if_splits)

end

lemma cse_read_byte_pending:
  assumes "usable (s, w)"
  shows "returns (\<lambda>(r, x'). usable x' \<and> pending x' = tl (pending (s, w)) \<and>
    (if pending (s, w) = [] then r = -1
     else r = of_char (hd (pending (s, w))) \<and> s_socket (fst x') = s_socket s)) (cse_read_byte (s, w))"
proof -
  have ok: "stream_ok s" using assms by (simp add: usable_def)
  obtain fl s1 w1 where e: "ensure_data (s, w) = (fl, s1, w1)" by (metis prod_cases3)
  note c = ensure_data_cases [OF assms e]
  show ?thesis
  proof (cases "pending (s, w) = []")
    case True
    with c e show ?thesis by (simp add: cse_read_byte_def)
  next
    case False
    then have fl: "\<not> fl < 0" using c by simp
    obtain b where b: "cse_read_byte (s, w) = Inr (of_char b, advance 1 s1, w1)"
      "unread s1 = b # unread (advance 1 s1)" "stream_ok (advance 1 s1)"
      by (rule cse_read_byte_step [OF ok e fl])
    have "usable (advance 1 s1, w1)" "pending (s1, w1) = [b] @ pending (advance 1 s1, w1)"
      using usable_advance [of s1 w1 1 "[b]"] c b by simp_all
    then show ?thesis using b(1) c by (auto simp: neq_Nil_conv)
  qed
qed

interpretation stream_bytes: byte_source cse_read_byte pending usable "\<lambda>x. s_socket (fst x)"
proof
  fix x b bs assume "usable x" "pending x = b # bs"
  then show "returns (\<lambda>(r, x'). r = of_char b \<and> usable x' \<and> pending x' = bs \<and>
    s_socket (fst x') = s_socket (fst x)) (cse_read_byte x)"
    using cse_read_byte_pending [of "fst x" "snd x"] by (auto elim!: returns_mono)
next
  fix x assume "usable x" "pending x = []"
  then show "returns (\<lambda>(r, x'). r = -1 \<and> usable x' \<and> pending x' = []) (cse_read_byte x)"
    using cse_read_byte_pending [of "fst x" "snd x"] by (auto elim!: returns_mono)
qed

subsection \<open>Reading blocks and packet headers\<close>

lemma usable_stream_ok: "usable (s, w) \<Longrightarrow> stream_ok s"
  by (simp add: usable_def)

text \<open>What a finished block read has put in the array, for a read that fits it.\<close>

lemma read_all_loop_content:
  assumes "usable (s, w)" "0 \<le> off" "0 \<le> len"
    and "off + min len (int (length (pending (s, w)))) \<le> int (length buf)"
  shows "returns (\<lambda>(ok, buf', x'). usable x' \<and> pending x' = drop (nat len) (pending (s, w)) \<and>
      ok = (len \<le> int (length (pending (s, w)))) \<and> (\<not> ok \<longrightarrow> s_socket (fst x') < 0) \<and>
      buf' = take (nat off) buf @ take (nat len) (pending (s, w)) @
             drop (nat off + min (nat len) (length (pending (s, w)))) buf)
    (read_all_loop buf off len (s, w))"
  using assms
proof (induction "nat len" arbitrary: buf off len s w rule: less_induct)
  case less
  let ?p = "pending (s, w)"
  obtain fl s1 w1 where e: "ensure_data (s, w) = (fl, s1, w1)" by (metis prod_cases3)
  note c = ensure_data_cases [OF less.prems(1) e]
  consider "len = 0" | "0 < len" "?p = []" | "0 < len" "?p \<noteq> []" using less.prems(3) by linarith
  then show ?case
  proof cases
    case 1
    with less.prems show ?thesis by simp
  next
    case 2
    with c block_end(1) [OF 2(1) e] less.prems show ?thesis by simp
  next
    case 3
    have fl: "\<not> fl < 0" using c 3 by simp
    obtain n bs where n: "0 < n" "n \<le> len" "int (length bs) = n"
      "unread s1 = bs @ unread (advance n s1)" "stream_ok (advance n s1)"
      and step: "\<forall>buf off. read_all_loop buf off len (s, w) = bindR (store buf off bs)
        (\<lambda>buf. read_all_loop buf (off + n) (len - n) (advance n s1, w1))"
        "cse_skip len (s, w) = cse_skip (len - n) (advance n s1, w1)"
      by (rule block_step [OF usable_stream_ok [OF less.prems(1)] 3(1) e fl])
    define y where "y = pending (advance n s1, w1)"
    have u: "usable (advance n s1, w1)" and p: "?p = bs @ y"
      using usable_advance [of s1 w1 n bs] c n by (simp_all add: y_def)
    have room: "off + int (length bs) \<le> int (length buf)"
      using less.prems(4) n by (simp add: p)
    obtain b where b: "store buf off bs = Inr b" "length b = length buf"
      "b = take (nat off) buf @ bs @ drop (nat off + length bs) buf"
      by (rule store_obtain [OF less.prems(2) room])
    have k: "nat (off + n) = nat off + length bs" "nat (len - n) = nat len - length bs"
      "length bs \<le> nat len" "nat off \<le> length buf"
      using n less.prems room by (simp_all add: nat_add_distrib nat_diff_distrib)
    have "returns (\<lambda>(ok, buf', x'). usable x' \<and> pending x' = drop (nat (len - n)) y \<and>
        ok = (len - n \<le> int (length y)) \<and> (\<not> ok \<longrightarrow> s_socket (fst x') < 0) \<and>
        buf' = take (nat (off + n)) b @ take (nat (len - n)) y @
               drop (nat (off + n) + min (nat (len - n)) (length y)) b)
      (read_all_loop b (off + n) (len - n) (advance n s1, w1))"
      unfolding y_def
      by (rule less.hyps) (use n 3 u less.prems p b in \<open>auto simp: y_def [symmetric]\<close>)
    then show ?thesis
      using n k by (auto simp: step(1) b p elim!: returns_mono) (auto simp: min_def ac_simps)
  qed
qed

lemma cse_skip_content:
  assumes "usable (s, w)" "0 \<le> len" "cse_skip len (s, w) = (r, x')"
  shows "usable x' \<and> pending x' = drop (nat len) (pending (s, w)) \<and>
    r = (if len \<le> int (length (pending (s, w))) then 1 else -1)"
  using assms
proof (induction "nat len" arbitrary: len s w rule: less_induct)
  case less
  let ?p = "pending (s, w)"
  obtain fl s1 w1 where e: "ensure_data (s, w) = (fl, s1, w1)" by (metis prod_cases3)
  note c = ensure_data_cases [OF less.prems(1) e]
  consider "len = 0" | "0 < len" "?p = []" | "0 < len" "?p \<noteq> []" using less.prems(2) by linarith
  then show ?case
  proof cases
    case 1
    with less.prems show ?thesis by auto
  next
    case 2
    with c block_end(2) [OF 2(1) e] less.prems show ?thesis by auto
  next
    case 3
    have fl: "\<not> fl < 0" using c 3 by simp
    obtain n bs where n: "0 < n" "n \<le> len" "int (length bs) = n"
      "unread s1 = bs @ unread (advance n s1)" "stream_ok (advance n s1)"
      and step: "\<forall>buf off. read_all_loop buf off len (s, w) = bindR (store buf off bs)
        (\<lambda>buf. read_all_loop buf (off + n) (len - n) (advance n s1, w1))"
        "cse_skip len (s, w) = cse_skip (len - n) (advance n s1, w1)"
      by (rule block_step [OF usable_stream_ok [OF less.prems(1)] 3(1) e fl])
    have u: "usable (advance n s1, w1)" and p: "?p = bs @ pending (advance n s1, w1)"
      using usable_advance [of s1 w1 n bs] c n by simp_all
    have r: "cse_skip (len - n) (advance n s1, w1) = (r, x')" using step(2) less.prems(3) by simp
    have "nat (len - n) = nat len - length bs" "length bs \<le> nat len"
      using n by (simp_all add: nat_diff_distrib)
    then show ?thesis using less.hyps [OF _ u _ r] n 3 by (simp add: p)
  qed
qed

lemma cse_read_all_content:
  assumes "usable x" "0 \<le> len" "len \<le> int (length (pending x))" "len \<le> int (length buf)"
  shows "returns (\<lambda>(r, buf', x'). r = len \<and> usable x' \<and> pending x' = drop (nat len) (pending x) \<and>
      buf' = take (nat len) (pending x) @ drop (nat len) buf) (cse_read_all buf len x)"
  using read_all_loop_content [of "fst x" "snd x" 0 len buf] assms
  by (auto simp: cse_read_all_def returns_bindR min_def elim!: returns_mono split: if_splits)

lemma cse_read_all_short:
  assumes "usable x" "int (length (pending x)) < len" "length (pending x) \<le> length buf"
  shows "returns (\<lambda>(r, buf', x'). r = -1 \<and> s_socket (fst x') < 0 \<and> usable x' \<and> pending x' = [] \<and>
      buf' = pending x @ drop (length (pending x)) buf) (cse_read_all buf len x)"
  using read_all_loop_content [of "fst x" "snd x" 0 len buf] assms
  by (auto simp: cse_read_all_def returns_bindR min_def elim!: returns_mono split: if_splits)

text \<open>A block longer than the array, delivered, leaves the array.\<close>

lemma read_all_loop_overflow:
  assumes "usable (s, w)" "0 \<le> off" "int (length buf) < off + len"
    and "int (length buf) < off + int (length (pending (s, w)))" "off \<le> int (length buf)"
  shows "read_all_loop buf off len (s, w) = Inl OutOfBounds"
  using assms
proof (induction "nat len" arbitrary: buf off len s w rule: less_induct)
  case less
  let ?p = "pending (s, w)"
  obtain fl s1 w1 where e: "ensure_data (s, w) = (fl, s1, w1)" by (metis prod_cases3)
  note c = ensure_data_cases [OF less.prems(1) e]
  have len: "0 < len" using less.prems by linarith
  have "0 < int (length ?p)" using less.prems(4,5) by linarith
  then have fl: "\<not> fl < 0" using c by (simp split: if_splits)
  obtain n bs where n: "0 < n" "n \<le> len" "int (length bs) = n"
    "unread s1 = bs @ unread (advance n s1)" "stream_ok (advance n s1)"
    and step: "\<forall>buf off. read_all_loop buf off len (s, w) = bindR (store buf off bs)
      (\<lambda>buf. read_all_loop buf (off + n) (len - n) (advance n s1, w1))"
      "cse_skip len (s, w) = cse_skip (len - n) (advance n s1, w1)"
    by (rule block_step [OF usable_stream_ok [OF less.prems(1)] len e fl])
  have u: "usable (advance n s1, w1)" and p: "?p = bs @ pending (advance n s1, w1)"
    using usable_advance [of s1 w1 n bs] c n by simp_all
  show ?case
  proof (cases "off + int (length bs) \<le> int (length buf)")
    case False
    then show ?thesis by (simp add: step(1) store_def)
  next
    case True
    obtain b where b: "store buf off bs = Inr b" "length b = length buf"
      by (rule store_obtain [OF less.prems(2) True])
    have "read_all_loop b (off + n) (len - n) (advance n s1, w1) = Inl OutOfBounds"
      by (rule less.hyps) (use n len u less.prems p b True in auto)
    then show ?thesis using b by (simp add: step(1))
  qed
qed

lemma cse_read_all_overflow:
  assumes "usable x" "int (length buf) < len" "length buf < length (pending x)"
  shows "cse_read_all buf len x = Inl OutOfBounds"
  using read_all_loop_overflow [of "fst x" "snd x" 0 buf len] assms
  by (simp add: cse_read_all_def)

subsection \<open>The bytes given to the peer\<close>

definition wire :: "io \<Rightarrow> string" where
  "wire = (\<lambda>(s, w). sent_on (s_socket s) (log w) @ s_write_buf s)"

definition writable :: "io \<Rightarrow> bool" where
  "writable = (\<lambda>(s, w). stream_ok s \<and> 0 \<le> s_socket s \<and>
     s_socket s \<in> set (open_fds w) \<and> tx_takes BUF_LENGTH w)"

text \<open>What an operation on the output leaves alone: the socket and everything about input.\<close>

definition same_input :: "io \<Rightarrow> io \<Rightarrow> bool" where
  "same_input = (\<lambda>(s, w) (s', w'). s_socket s' = s_socket s \<and> unread s' = unread s \<and>
     s_srun s' = s_srun s \<and> open_fds w' = open_fds w \<and> rx w' = rx w)"

lemma same_input_refl [simp]: "same_input x x"
  by (auto simp: same_input_def)

lemma same_input_trans: "same_input x y \<Longrightarrow> same_input y z \<Longrightarrow> same_input x z"
  by (auto simp: same_input_def)

lemma same_input_pending: "same_input x y \<Longrightarrow> pending y = pending x"
  by (auto simp: same_input_def pending_def)

lemma writable_usable: "writable x \<Longrightarrow> usable x"
  by (auto simp: writable_def usable_def)

lemma write_append:
  assumes "stream_ok s" "0 \<le> len" "len \<le> int (length buf)"
    and "s_write_length s + len \<le> int BUF_LENGTH"
  shows "cse_write buf len (s, w) = Inr (s\<lparr>s_write_buf := s_write_buf s @ take (nat len) buf\<rparr>, w)"
    and "stream_ok (s\<lparr>s_write_buf := s_write_buf s @ take (nat len) buf\<rparr>)"
  using assms by (auto simp: cse_write_def read_mem_def s_write_length_def stream_ok_def)

lemma write_after_flush:
  assumes "writable (s, w)" "s_write_length s + len > int BUF_LENGTH" "len \<le> int BUF_LENGTH"
  shows "cse_write buf len (s, w) =
    cse_write buf len (s\<lparr>s_write_buf := []\<rparr>, snd (sys_send (s_socket s) (s_write_buf s) w))"
    and "writable (s\<lparr>s_write_buf := []\<rparr>, snd (sys_send (s_socket s) (s_write_buf s) w))"
    and "wire (s\<lparr>s_write_buf := []\<rparr>, snd (sys_send (s_socket s) (s_write_buf s) w)) = wire (s, w)"
    and "same_input (s, w) (s\<lparr>s_write_buf := []\<rparr>, snd (sys_send (s_socket s) (s_write_buf s) w))"
proof -
  have fd: "s_socket s \<in> set (open_fds w)" and tx: "tx_takes BUF_LENGTH w"
    and len: "length (s_write_buf s) \<le> BUF_LENGTH"
    using assms(1) by (auto simp: writable_def stream_ok_def)
  note whole = sys_send_whole [OF fd tx len]
  have pos: "0 < s_write_length s" using assms(2,3) by linarith
  show "cse_write buf len (s, w) =
    cse_write buf len (s\<lparr>s_write_buf := []\<rparr>, snd (sys_send (s_socket s) (s_write_buf s) w))"
    using assms pos whole(1) by (auto simp: cse_write_def s_write_length_def split: prod.splits)
  show "writable (s\<lparr>s_write_buf := []\<rparr>, snd (sys_send (s_socket s) (s_write_buf s) w))"
    using assms(1) whole(3) by (simp add: writable_def stream_ok_def frame_simps)
  show "wire (s\<lparr>s_write_buf := []\<rparr>, snd (sys_send (s_socket s) (s_write_buf s) w)) = wire (s, w)"
    using whole(2) by (simp add: wire_def)
  show "same_input (s, w) (s\<lparr>s_write_buf := []\<rparr>, snd (sys_send (s_socket s) (s_write_buf s) w))"
    by (simp add: same_input_def unread_def frame_simps)
qed

lemma cse_write_content:
  assumes "writable x" "0 \<le> len" "len \<le> int (length buf)" "len \<le> int BUF_LENGTH"
  shows "returns (\<lambda>x'. writable x' \<and> same_input x x' \<and> wire x' = wire x @ take (nat len) buf)
    (cse_write buf len x)"
proof -
  have room: "returns (\<lambda>x'. writable x' \<and> same_input y x' \<and> wire x' = wire y @ take (nat len) buf)
      (cse_write buf len y)"
    if "writable y" "s_write_length (fst y) + len \<le> int BUF_LENGTH" for y
    using that write_append(1) [of "fst y" len buf "snd y"] write_append(2) [of "fst y" len buf] assms
    by (cases y) (auto simp: writable_def wire_def same_input_def unread_def stream_ok_def)
  show ?thesis
  proof (cases "s_write_length (fst x) + len \<le> int BUF_LENGTH")
    case True
    with room assms show ?thesis by blast
  next
    case False
    obtain s w where x: "x = (s, w)" by (cases x)
    have f: "writable (s, w)" "s_write_length s + len > int BUF_LENGTH" using False assms x by auto
    note fl = write_after_flush [OF f assms(4)]
    show ?thesis unfolding x fl(1)
      by (rule returns_mono [OF room [OF fl(2)]])
        (use assms fl(3,4) same_input_trans in \<open>auto simp: s_write_length_def\<close>)
  qed
qed

text \<open>A block longer than the buffer is never sent: only what was queued goes out.\<close>

lemma cse_write_too_long:
  assumes "writable x" "int BUF_LENGTH < len"
  shows "returns (\<lambda>x'. writable x' \<and> same_input x x' \<and> wire x' = wire x) (cse_write buf len x)"
proof -
  obtain s w where x: "x = (s, w)" by (cases x)
  have fd: "s_socket s \<in> set (open_fds w)" and tx: "tx_takes BUF_LENGTH w"
    and len: "length (s_write_buf s) \<le> BUF_LENGTH"
    using assms(1) x by (auto simp: writable_def stream_ok_def)
  define w1 where "w1 = (if s_write_buf s = [] then w else snd (sys_send (s_socket s) (s_write_buf s) w))"
  have w1: "s_socket s \<in> set (open_fds w1)" "tx_takes BUF_LENGTH w1" "open_fds w1 = open_fds w"
    "rx w1 = rx w" "sent_on (s_socket s) (log w1) = sent_on (s_socket s) (log w) @ s_write_buf s"
    using sys_send_whole [OF fd tx len] fd tx by (auto simp: w1_def frame_simps)
  note whole = sys_send_whole [OF w1(1,2), of "[]"]
  have "cse_write buf len x = Inr (s\<lparr>s_write_buf := []\<rparr>, snd (sys_send (s_socket s) [] w1))"
    using assms x whole(1) sys_send_whole(1) [OF fd tx len]
    by (auto simp: cse_write_def s_write_length_def w1_def split: prod.splits)
  then show ?thesis using assms x w1 whole
    by (auto simp: writable_def wire_def same_input_def unread_def stream_ok_def frame_simps)
qed

text \<open>
  \<open>cse_write\<close> only looks whether \<open>send\<close> failed: when the kernel takes a part of the queued
  bytes, the rest is dropped.
\<close>

lemma cse_write_partial_send:
  assumes "s_socket s \<in> set (open_fds w)" "stream_ok s" "tx w = k # ks"
    and "0 \<le> k" "k \<le> int (length (s_write_buf s))"
    and "0 \<le> len" "len \<le> int (length buf)" "len \<le> int BUF_LENGTH" "s_write_length s + len > int BUF_LENGTH"
  shows "returns (\<lambda>x'. wire x' = sent_on (s_socket s) (log w) @ take (nat k) (s_write_buf s) @ take (nat len) buf)
    (cse_write buf len (s, w))"
  using assms by (auto simp: cse_write_def sys_send_def s_write_length_def read_mem_def wire_def)

subsection \<open>Packets\<close>

definition packet_header :: "char \<Rightarrow> int \<Rightarrow> string" where
  "packet_header code len = [code, char_of (drop_bit 16 len AND 255),
     char_of (drop_bit 8 len AND 255), char_of (len AND 255)]"

definition packet :: "char \<Rightarrow> string \<Rightarrow> string" where
  "packet code body = packet_header code (int (length body)) @ body"

lemma packet_header_length [simp]: "length (packet_header code len) = 4"
  by (simp add: packet_header_def)

lemma packet_length_decode:
  assumes "0 \<le> len" "len < 16777216"
  shows "packet_length (of_char (char_of (drop_bit 16 len AND 255)))
    (of_char (char_of (drop_bit 8 len AND 255))) (of_char (char_of (len AND 255))) = len"
proof -
  have "len div 65536 < 256" using assms by simp
  then have hi: "(len div 65536) mod 256 = len div 65536" using assms by simp
  have split: "l = 256 * q + r2 \<Longrightarrow> q = 256 * p + r1 \<Longrightarrow> 65536 * p + 256 * r1 + r2 = l" for l q p r1 r2 :: int
    by simp
  have "len div 65536 = len div 256 div 256" using zdiv_zmult2_eq [of 256 len 256] by simp
  then have "65536 * (len div 65536) + 256 * ((len div 256) mod 256) + len mod 256 = len"
    by (simp only:) (rule split, rule mult_div_mod_eq [symmetric], rule mult_div_mod_eq [symmetric])
  note sum = this
  have byte: "(of_char (char_of (n mod 256) :: char) :: int) mod 256 = n mod 256" for n :: int by simp
  have div: "drop_bit 16 len = len div 65536" "drop_bit 8 len = len div 256"
    by (simp_all add: drop_bit_eq_div)
  show ?thesis unfolding packet_length_mod and_255_mod div byte unfolding hi by (rule sum)
qed

lemma cse_write_packet_content:
  assumes "writable x" "length body \<le> BUF_LENGTH"
  shows "returns (\<lambda>x'. writable x' \<and> same_input x x' \<and> wire x' = wire x @ packet code body)
    (cse_write_packet code body (int (length body)) x)"
proof -
  let ?n = "int (length body)"
  have "returns (\<lambda>x'. writable x' \<and> same_input x x' \<and> wire x' = wire x @ packet_header code ?n)
      (cse_write (packet_header code ?n) 4 x)"
    by (rule returns_mono [OF cse_write_content [OF assms(1)]]) (auto simp: BUF_LENGTH_def)
  then show ?thesis
    unfolding cse_write_packet_def packet_header_def [symmetric] Let_def
  proof (rule returns_bindI)
    fix y assume y: "writable y \<and> same_input x y \<and> wire y = wire x @ packet_header code ?n"
    then have "returns (\<lambda>x'. writable x' \<and> same_input y x' \<and> wire x' = wire y @ take (nat ?n) body)
        (cse_write body ?n y)"
      using assms(2) by (intro cse_write_content) auto
    then show "returns (\<lambda>x'. writable x' \<and> same_input x x' \<and> wire x' = wire x @ packet code body)
        (if 0 \<le> ?n then cse_write body ?n y else Inr y)"
      using y by (auto simp: packet_def elim!: returns_mono intro: same_input_trans)
  qed
qed

lemma read_header_four:
  "read_header x = bindR (bindR (cse_read_byte x) (\<lambda>(c0, x). bindR (cse_read_byte x) (\<lambda>(c1, x).
      bindR (cse_read_byte x) (\<lambda>(c2, x). bindR (cse_read_byte x) (\<lambda>(c3, x). Inr ((c0, c1, c2, c3), x))))))
      (\<lambda>((code, b1, b2, l3), x). Inr ((code, l3, packet_length b1 b2 l3), x))"
  by (simp add: read_header_def bindR_assoc case_prod_beta')

lemma read_header_content:
  assumes "usable x" "4 \<le> length (pending x)"
  shows "returns (\<lambda>((code, l3, len), x'). usable x' \<and> pending x' = drop 4 (pending x) \<and>
      s_socket (fst x') = s_socket (fst x) \<and> code = of_char (pending x ! 0) \<and> l3 = of_char (pending x ! 3) \<and>
      len = packet_length (of_char (pending x ! 1)) (of_char (pending x ! 2)) (of_char (pending x ! 3)))
    (read_header x)"
  unfolding read_header_four
  by (rule returns_bindI [OF stream_bytes.getb_four [OF assms(1)]]) (use assms(2) in auto)

text \<open>The end of the input inside a header shows as a third length byte of -1.\<close>

lemma read_header_short:
  assumes "usable x" "length (pending x) < 4"
  shows "returns (\<lambda>((c, l3, len), x'). l3 = -1 \<and> usable x' \<and> pending x' = []) (read_header x)"
  unfolding read_header_four
  by (rule returns_bindI [OF stream_bytes.getb_four [OF assms(1)]]) (use assms(2) in auto)

lemma read_header_packet:
  assumes "usable x" "pending x = packet code body @ rest" "length body < 16777216"
  shows "returns (\<lambda>((c, l3, len), x'). c = of_char code \<and> 0 \<le> l3 \<and> len = int (length body) \<and>
      usable x' \<and> pending x' = body @ rest \<and> s_socket (fst x') = s_socket (fst x)) (read_header x)"
proof -
  have "4 \<le> length (pending x)" by (simp add: assms(2) packet_def)
  note h = read_header_content [OF assms(1) this]
  show ?thesis
    by (rule returns_mono [OF h])
      (use assms(3) packet_length_decode [of "int (length body)"] of_char_less in
        \<open>auto simp: assms(2) packet_def packet_header_def numeral_3_eq_3 numeral_2_eq_2\<close>)
qed

subsection \<open>Strings\<close>

lemma cse_read_limit_content:
  assumes "usable x" "0 < buflen" "buflen \<le> int (length buf)" "0 \<le> readlen"
    and "readlen \<le> int (length (pending x))"
  shows "returns (\<lambda>(r, buf', x'). r = min readlen buflen \<and> usable x' \<and>
      pending x' = drop (nat readlen) (pending x) \<and>
      (\<exists>rest. buf' = take (nat (min readlen (buflen - 1))) (pending x) @ NUL # rest))
    (cse_read_limit buf buflen readlen x)"
proof (cases "buflen > readlen")
  case True
  note all = cse_read_all_content [OF assms(1,4,5), of buf]
  show ?thesis
    unfolding cse_read_limit_def
    using True assms all
    by (auto simp: returns_bindR store_def elim!: returns_mono)
next
  case False
  have len: "buflen \<le> int (length (pending x))" "0 \<le> buflen" using False assms by auto
  note all = cse_read_all_content [OF assms(1) len(2,1) assms(3)]
  have cut: "take (nat (buflen - 1)) (take (nat buflen) (pending x) @ zs) = take (nat (buflen - 1)) (pending x)"
    for zs by (rule take_take_append) (use len in linarith)+
  have m: "min readlen (buflen - 1) = buflen - 1" using False by simp
  have end_buf: "returns (\<lambda>b'. \<exists>rest. b' = take (nat (min readlen (buflen - 1))) (pending x) @ NUL # rest)
      (store (take (nat buflen) (pending x) @ drop (nat buflen) buf) (buflen - 1) [NUL])"
    unfolding m store_def cut using assms len by simp
  show ?thesis
  proof -
    have "returns (\<lambda>(result, buf', x'). returns (\<lambda>(r, buf', x'). r = min readlen buflen \<and> usable x' \<and>
        pending x' = drop (nat readlen) (pending x) \<and>
        (\<exists>rest. buf' = take (nat (min readlen (buflen - 1))) (pending x) @ NUL # rest))
        (bindR (store buf' (buflen - 1) [NUL]) (\<lambda>buf'. let (_, x') = cse_skip (readlen - buflen) x'
           in Inr (result, buf', x')))) (cse_read_all buf buflen x)"
    proof (rule returns_mono [OF all], clarify)
      fix s w assume u: "usable (s, w)" and p: "pending (s, w) = drop (nat buflen) (pending x)"
      obtain r x' where sk: "cse_skip (readlen - buflen) (s, w) = (r, x')" by (metis prod.exhaust)
      have "usable x' \<and> pending x' = drop (nat (readlen - buflen)) (pending (s, w))"
        using cse_skip_content [OF u _ sk] False by simp
      moreover have "nat (readlen - buflen) + nat buflen = nat readlen" using False len by simp
      ultimately show "returns (\<lambda>(r, buf', x'). r = min readlen buflen \<and> usable x' \<and>
        pending x' = drop (nat readlen) (pending x) \<and>
        (\<exists>rest. buf' = take (nat (min readlen (buflen - 1))) (pending x) @ NUL # rest))
        (bindR (store (take (nat buflen) (pending x) @ drop (nat buflen) buf) (buflen - 1) [NUL])
          (\<lambda>buf'. let (_, x') = cse_skip (readlen - buflen) (s, w) in Inr (buflen, buf', x')))"
        using False end_buf by (auto simp: sk p returns_bindR elim!: returns_mono)
    qed
    then show ?thesis using False
      by (simp add: cse_read_limit_def returns_bindR case_prod_beta')
  qed
qed

lemma cse_read_string_packet:
  assumes "usable x" "0 \<le> s_socket (fst x)" "pending x = packet code body @ rest"
    and "length body < 16777216" "2 \<le> n" "n \<le> int (length buf)"
  shows "returns (\<lambda>(r, buf', x'). usable x' \<and> r = min (int (length body)) (n - 1) \<and>
      pending x' = rest \<and> (\<exists>tl. buf' = take (nat (n - 2)) body @ NUL # tl))
    (cse_read_string buf n x)"
  unfolding cse_read_string_def Let_def
proof (rule returns_bindI [OF read_header_packet [OF assms(1,3,4)]], clarify)
  fix l3 :: int and s w
  assume h: "0 \<le> l3" "usable (s, w)" "pending (s, w) = body @ rest"
    "s_socket (fst (s, w)) = s_socket (fst x)"
  have cut: "take (nat (min (int (length body)) (n - 2))) (body @ rest) = take (nat (n - 2)) body"
    "take (nat (min (int (length body)) (n - 2))) body = take (nat (n - 2)) body"
    "\<not> l3 < 0" "\<not> s_socket s < 0"
    using assms(2,5) h(1,4) by (auto simp: min_def)
  note lim = cse_read_limit_content [OF h(2), of "n - 1" buf "int (length body)", unfolded h(3)]
  show "returns (\<lambda>(r, buf', x'). usable x' \<and> r = min (int (length body)) (n - 1) \<and>
      pending x' = rest \<and> (\<exists>tl. buf' = take (nat (n - 2)) body @ NUL # tl))
    (if s_socket s < 0 \<or> l3 < 0 then Inr (-1, buf, s, w)
     else cse_read_limit buf (n - 1) (int (length body)) (s, w))"
    using h assms lim by (auto simp: cut elim!: returns_mono)
qed

text \<open>
  The end of the stream inside a header: -1 and an untouched array.
\<close>

lemma cse_read_string_short:
  assumes "usable x" "length (pending x) < 4"
  shows "returns (\<lambda>(r, buf', x'). r = -1 \<and> buf' = buf \<and> usable x' \<and> pending x' = [])
    (cse_read_string buf n x)"
  unfolding cse_read_string_def Let_def
  by (rule returns_bindI [OF read_header_short [OF assms]]) auto

lemma cse_write_string_content:
  assumes "writable x" "length str \<le> BUF_LENGTH"
  shows "returns (\<lambda>x'. writable x' \<and> same_input x x' \<and> wire x' = wire x @ packet code str)
    (cse_write_string code (Some str) x)"
  unfolding cse_write_string_def using cse_write_packet_content [OF assms] by simp

lemma cse_write_string_None [simp]: "cse_write_string code None x = Inr x"
  by (simp add: cse_write_string_def)

text \<open>Whatever the network does, writing a string faults only if the stream was broken before.\<close>

lemma cse_write_safe:
  assumes "stream_ok s" "0 \<le> len" "len \<le> int (length buf)"
  shows "returns (\<lambda>(s', w'). stream_ok s') (cse_write buf len (s, w))"
proof -
  have app: "stream_ok (s\<lparr>s_write_buf := bs\<rparr>)" if "length bs \<le> BUF_LENGTH" for bs
    using assms(1) that by (simp add: stream_ok_def)
  show ?thesis
    using assms app [of "[]"] app [of "s_write_buf s @ take (nat len) buf"] app [of "take (nat len) buf"]
    by (auto simp: cse_write_def read_mem_def s_write_length_def cse_close_def Let_def split: prod.splits)
qed

lemma cse_write_packet_safe:
  assumes "stream_ok s" "len = int (length buf)"
  shows "returns (\<lambda>(s', w'). stream_ok s') (cse_write_packet code buf len (s, w))"
  unfolding cse_write_packet_def Let_def
  by (rule returns_bindI [OF cse_write_safe [OF assms(1)]])
    (use assms(2) in \<open>auto intro: cse_write_safe\<close>)

lemma cse_write_string_safe:
  "stream_ok s \<Longrightarrow> returns (\<lambda>(s', w'). stream_ok s') (cse_write_string code str (s, w))"
  by (auto simp: cse_write_string_def split: option.split intro: cse_write_packet_safe)


subsection \<open>Properties\<close>


text \<open>A connected stream with nothing buffered, and a peer that sends in pieces.\<close>

definition sample_stream :: stream where
  "sample_stream = \<lparr>s_srun = Some 0, s_pool = 1, s_update_count = 0, s_socket = 5, s_read_buf = [],
     s_read_offset = 0, s_read_length = 0, s_write_buf = []\<rparr>"

definition sample_world :: "string option list \<Rightarrow> world" where
  "sample_world chunks = \<lparr>open_fds = [5], nonblock = (\<lambda>_. False), rx = (\<lambda>_. chunks), tx = [], conns = [], log = []\<rparr>"

lemma sample_io:
  "stream_ok sample_stream" "usable (sample_stream, sample_world chunks)" "writable (sample_stream, sample_world chunks)"
  "pending (sample_stream, sample_world chunks) = deliverable chunks" "wire (sample_stream, sample_world chunks) = []"
  "s_socket sample_stream = 5"
  by (simp_all add: sample_stream_def sample_world_def stream_ok_def usable_def writable_def pending_def unread_def
      wire_def tx_takes_def)


text \<open>
  C19: \<open>cse_read_all\<close> delivers exactly the requested bytes of what the peer sends, in whatever
  pieces \<open>recv\<close> returns them, and leaves the rest for the next read; if the peer ends or fails
  before, it returns -1 and the stream is closed.
\<close>

theorem read_all_delivers:
  assumes "usable x" "0 \<le> len" "len \<le> int (length buf)"
  shows "returns (\<lambda>(r, buf', x'). usable x' \<and> pending x' = drop (nat len) (pending x) \<and>
      (if len \<le> int (length (pending x))
       then r = len \<and> buf' = take (nat len) (pending x) @ drop (nat len) buf
       else r = -1 \<and> s_socket (fst x') < 0))
    (cse_read_all buf len x)"
proof (cases "len \<le> int (length (pending x))")
  case True
  from cse_read_all_content [OF assms(1,2) True assms(3)] show ?thesis
    by (rule returns_mono) (use True in auto)
next
  case False
  then have "int (length (pending x)) < len" "length (pending x) \<le> length buf" using assms(3) by auto
  from cse_read_all_short [OF assms(1) this] show ?thesis
    by (rule returns_mono) (use False in auto)
qed

theorem read_all_delivers_witness:
  "returns (\<lambda>(r, buf', x'). r = 3 \<and> buf' = ''abc'' \<and> pending x' = ''d'')
    (cse_read_all ''???'' 3 (sample_stream, sample_world [Some ''a'', Some ''bcd'']))"
  by (rule returns_mono [OF read_all_delivers [OF sample_io(2)]]) (auto simp: sample_io numeral_eq_Suc)

text \<open>
  C21: on a connection that takes what it is given, the bytes of a write of at most 8192 bytes
  follow what was written before, in order and once, with buffering and flushes invisible; a
  longer write is dropped without a trace, although the caller has announced its length.
\<close>

theorem write_appends_or_drops:
  assumes "writable x" "0 \<le> len" "len \<le> int (length buf)"
  shows "returns (\<lambda>x'. writable x' \<and> same_input x x' \<and>
      wire x' = (if len \<le> 8192 then wire x @ take (nat len) buf else wire x)) (cse_write buf len x)"
proof (cases "len \<le> int BUF_LENGTH")
  case True
  from cse_write_content [OF assms True] show ?thesis
    by (rule returns_mono) (use True in \<open>simp add: BUF_LENGTH_def\<close>)
next
  case False
  then have "int BUF_LENGTH < len" by simp
  from cse_write_too_long [OF assms(1) this] show ?thesis
    by (rule returns_mono) (use False in \<open>simp add: BUF_LENGTH_def\<close>)
qed

theorem write_appends_or_drops_witness:
  "returns (\<lambda>x'. wire x' = []) (cse_write (replicate 8193 (CHR ''a'')) 8193 (sample_stream, sample_world []))"
  by (rule returns_mono [OF write_appends_or_drops [OF sample_io(3)]]) (simp_all add: sample_io)

text \<open>
  C20: a string packet written with \<open>cse_write_string\<close> is read back by \<open>cse_read_string\<close>: a peer
  that receives the bytes put on the wire, in any pieces, gets the string, terminated, and its
  input then stands at the next packet.
\<close>

theorem string_packet_roundtrip:
  assumes "writable x" "is_cstring str" "length str \<le> 8192" "int (length str) + 2 \<le> n" "n \<le> int (length buf)"
  shows "returns (\<lambda>x'. \<exists>sent. wire x' = wire x @ sent \<and>
      (\<forall>y rest. usable y \<and> 0 \<le> s_socket (fst y) \<and> pending y = sent @ rest \<longrightarrow>
         returns (\<lambda>(r, buf', y'). r = int (length str) \<and> cstr_of buf' = str \<and> usable y' \<and> pending y' = rest)
           (cse_read_string buf n y)))
    (cse_write_string code (Some str) x)"
proof (rule returns_mono [OF cse_write_string_content [OF assms(1)]])
  show "length str \<le> BUF_LENGTH" using assms(3) by (simp add: BUF_LENGTH_def)
  fix x' assume "writable x' \<and> same_input x x' \<and> wire x' = wire x @ packet code str"
  moreover have "returns (\<lambda>(r, buf', y'). r = int (length str) \<and> cstr_of buf' = str \<and> usable y' \<and> pending y' = rest)
      (cse_read_string buf n y)" if y: "usable y" "0 \<le> s_socket (fst y)" "pending y = packet code str @ rest" for y rest
  proof -
    have len: "length str < 16777216" "2 \<le> n" using assms(3,4) by auto
    have "take (nat (n - 2)) str = str" "min (int (length str)) (n - 1) = int (length str)" using assms(4) by auto
    with cse_read_string_packet [OF y len assms(5)] show ?thesis
      by (elim returns_mono) (auto simp: cstr_of_terminated [OF assms(2)])
  qed
  ultimately show "\<exists>sent. wire x' = wire x @ sent \<and>
      (\<forall>y rest. usable y \<and> 0 \<le> s_socket (fst y) \<and> pending y = sent @ rest \<longrightarrow>
         returns (\<lambda>(r, buf', y'). r = int (length str) \<and> cstr_of buf' = str \<and> usable y' \<and> pending y' = rest)
           (cse_read_string buf n y))" by blast
qed

theorem string_packet_roundtrip_witness:
  "returns (\<lambda>x'. \<exists>sent. wire x' = sent \<and> (\<forall>y. usable y \<and> 0 \<le> s_socket (fst y) \<and> pending y = sent \<longrightarrow>
         returns (\<lambda>(r, buf', y'). cstr_of buf' = ''GET'') (cse_read_string (replicate 16 NUL) 16 y)))
    (cse_write_string (CHR ''m'') (Some ''GET'') (sample_stream, sample_world []))"
proof -
  have "is_cstring ''GET''" by (simp add: is_cstring_def)
  note r = string_packet_roundtrip [OF sample_io(3) this, where n = 16 and buf = "replicate 16 NUL"]
  show ?thesis
    by (rule returns_mono [OF r]) (simp_all add: sample_io, fastforce elim: returns_mono)
qed

text \<open>
  C22: whatever length a packet announces, \<open>cse_read_string\<close> stores at most \<open>n\<close> bytes, terminates
  what it stores and consumes the packet to its end, so the next packet is read in step; a
  string that does not fit loses its end, and the last byte that would fit too.
\<close>

theorem read_string_bounded:
  assumes "usable x" "0 \<le> s_socket (fst x)" "pending x = packet code body @ rest"
    and "length body < 16777216" "2 \<le> n" "n \<le> int (length buf)"
  shows "returns (\<lambda>(r, buf', x'). usable x' \<and> r = min (int (length body)) (n - 1) \<and> pending x' = rest \<and>
      (\<exists>tl. buf' = take (nat (n - 2)) body @ NUL # tl)) (cse_read_string buf n x)"
  by (rule cse_read_string_packet [OF assms])

theorem read_string_bounded_witness:
  "returns (\<lambda>(r, buf', x'). r = 3 \<and> pending x' = ''Z'')
    (cse_read_string ''????'' 4 (sample_stream, sample_world [Some (packet (CHR ''s'') ''hello''), Some ''Z'']))"
proof -
  have "packet (CHR ''s'') ''hello'' \<noteq> []" by (simp add: packet_def packet_header_def)
  then have p: "pending (sample_stream, sample_world [Some (packet (CHR ''s'') ''hello''), Some ''Z'']) =
      packet (CHR ''s'') ''hello'' @ ''Z''" by (simp add: sample_io)
  have s: "0 \<le> s_socket (fst (sample_stream, sample_world [Some (packet (CHR ''s'') ''hello''), Some ''Z'']))"
    by (simp add: sample_io)
  show ?thesis
    by (rule returns_mono [OF read_string_bounded [OF sample_io(2) s p]]) auto
qed

end
