(* ===== verification/Cse_Pool.thy ===== *)
theory Cse_Pool
  imports Cse_Framing Cse_State "HOL-Library.Signed_Division"
begin

text \<open>
  The pools of idle connections and the choice of a servlet runner (stream.c from
  \<open>cse_add_host_int\<close> on, \<open>cse_open\<close>, and the child hooks of mod_caucho.c): each runner keeps a
  stack of idle sockets; a request reuses one, opens one, or fails over to another runner.
  \<^item> A pointer to a runner is its index in \<open>srun_list\<close>; an index outside the array faults.
  \<^item> \<open>get_socket\<close> and the stores into \<open>sr_sockets\<close> check the bounds of the array of 1024.
  \<^item> \<open>g_count\<close>, the static counter of stream.c, is passed and returned; \<open>int\<close> arithmetic that can
    wrap is on 32-bit words.
  \<^item> The locks do nothing in the gcc build, where a process has one thread; Cse_Threads has the
    threads of Windows.
\<close>

subsection \<open>Access to the runners and their sockets\<close>

definition get_srun :: "config \<Rightarrow> int \<Rightarrow> srun res" where
  "get_srun config k =
     (if 0 \<le> k \<and> k < int (length (srun_list config)) then Inr (srun_list config ! nat k)
      else Inl OutOfBounds)"

definition put_srun :: "int \<Rightarrow> srun \<Rightarrow> config \<Rightarrow> config" where
  "put_srun k srun config = config\<lparr>srun_list := (srun_list config)[nat k := srun]\<rparr>"

definition get_socket :: "srun \<Rightarrow> int \<Rightarrow> int res" where
  "get_socket srun j =
     (if 0 \<le> j \<and> j < SOCKETS_LENGTH then Inr (sr_sockets srun j) else Inl OutOfBounds)"

text \<open>\<open>srun->sockets[--srun->n_sockets]\<close> and \<open>srun->sockets[srun->n_sockets++] = socket\<close>.\<close>

definition pop_socket :: "srun \<Rightarrow> (int \<times> srun) res" where
  "pop_socket srun =
     (let n = sr_n_sockets srun - 1 in
      bindR (get_socket srun n) (\<lambda>d. Inr (d, srun\<lparr>sr_n_sockets := n\<rparr>)))"

definition push_socket :: "int \<Rightarrow> srun \<Rightarrow> srun res" where
  "push_socket socket srun =
     (let n = sr_n_sockets srun in
      if 0 \<le> n \<and> n < SOCKETS_LENGTH
      then Inr (srun\<lparr>sr_sockets := (sr_sockets srun)(n := socket), sr_n_sockets := n + 1\<rparr>)
      else Inl OutOfBounds)"

text \<open>The farewell written to an idle socket, straight to the descriptor.\<close>

definition CLOSE_PACKET :: string where "CLOSE_PACKET = [CHR ''X'', NUL, NUL, NUL]"

definition send_close :: "int \<Rightarrow> world \<Rightarrow> world" where
  "send_close socket w = sys_close socket (snd (sys_send socket CLOSE_PACKET w))"

function drain_sockets :: "srun \<Rightarrow> world \<Rightarrow> (srun \<times> world) res" where
  "drain_sockets srun w =
     (if sr_n_sockets srun > 0
      then bindR (pop_socket srun) (\<lambda>(socket, srun). drain_sockets srun (send_close socket w))
      else Inr (srun, w))"
  by pat_completeness auto
termination
  by (relation "measure (\<lambda>(srun, w). nat (sr_n_sockets srun))")
    (auto simp: pop_socket_def bindR_Inr_iff Let_def)

subsection \<open>Opening, reusing and recycling one connection\<close>

definition INADDR_LOOPBACK :: "32 word" where "INADDR_LOOPBACK = 0x7F000001"

definition reset_stream :: "nat \<Rightarrow> stream \<Rightarrow> stream" where
  "reset_stream pool s = s\<lparr>s_socket := -1, s_update_count := 0, s_pool := pool, s_write_buf := [],
     s_read_length := 0, s_read_offset := 0\<rparr>"

definition cse_open :: "int \<Rightarrow> nat \<Rightarrow> bool \<Rightarrow> config \<times> io \<Rightarrow> (bool \<times> config \<times> io) res" where
  "cse_open k pool wait = (\<lambda>(config, s, w).
     bindR (get_srun config k) (\<lambda>srun.
       let s = (reset_stream pool s)\<lparr>s_srun := Some (nat k)\<rparr>;
           addr = (case sr_host srun of Some host \<Rightarrow> host | None \<Rightarrow> INADDR_LOOPBACK);
           srun = (if sr_port srun \<le> 0 then srun\<lparr>sr_port := DEFAULT_PORT\<rparr> else srun);
           port = sr_port srun mod 65536;
           (socket, w) = (if wait \<or> sr_connect_timeout srun \<le> 0
                          then cse_connect_wait addr port w else cse_connect addr port w);
           s = s\<lparr>s_socket := socket\<rparr>
       in Inr (s_socket s \<ge> 0, put_srun k srun config, s, w)))"

definition cse_reuse :: "int \<Rightarrow> 32 word \<Rightarrow> nat \<Rightarrow> config \<times> io \<Rightarrow> (config \<times> io) res" where
  "cse_reuse k request_time pool = (\<lambda>(config, s, w).
     bindR (get_srun config k) (\<lambda>srun.
     bindR (pop_socket srun) (\<lambda>(socket, srun).
       let s = s\<lparr>s_pool := pool, s_write_buf := [], s_read_length := 0, s_read_offset := 0,
                 s_socket := socket, s_update_count := update_count config, s_srun := Some (nat k)\<rparr>;
           srun = srun\<lparr>sr_is_dead := False, sr_last_time := request_time\<rparr>
       in Inr (put_srun k srun config, s, w))))"

definition cse_reuse_socket :: "int \<Rightarrow> 32 word \<Rightarrow> nat \<Rightarrow> config \<times> io \<Rightarrow> (bool \<times> config \<times> io) res" where
  "cse_reuse_socket k request_time pool = (\<lambda>(config, s, w).
     bindR (get_srun config k) (\<lambda>srun.
       let srun = (if request_time < sr_last_time srun then srun\<lparr>sr_last_time := request_time\<rparr> else srun);
           config = put_srun k srun config
       in if sr_n_sockets srun > 0 \<and> sr_last_time srun + word_of_int (sr_live_time srun) \<ge> request_time
          then bindR (cse_reuse k request_time pool (config, s, w)) (\<lambda>x. Inr (True, x))
          else bindR (drain_sockets srun w) (\<lambda>(srun, w). Inr (False, put_srun k srun config, s, w))))"

definition cse_recycle :: "config \<times> io \<Rightarrow> (config \<times> io) res" where
  "cse_recycle = (\<lambda>(config, s, w).
     let socket = s_socket s;
         close = bindR (cse_write_packet (CHR ''X'') [] 0 (s, w)) (\<lambda>x. Inr (config, cse_close x))
     in case s_srun s of
          None \<Rightarrow> close
        | Some k \<Rightarrow> bindR (get_srun config (int k)) (\<lambda>srun.
            if socket \<ge> 0 \<and> update_count config = s_update_count s \<and>
               sr_n_sockets srun < sr_max_sockets srun
            then let s = s\<lparr>s_socket := -1\<rparr>;
                     w = cse_kill_socket_cleanup socket (s_pool s) w
                 in bindR (push_socket socket srun) (\<lambda>srun. Inr (put_srun (int k) srun config, s, w))
            else close))"

subsection \<open>Closing the pools\<close>

text \<open>The inner loop of \<open>cse_close_sockets\<close>: from \<open>j\<close> to \<open>n_sockets - 1\<close>.\<close>

function close_socket_loop :: "srun \<Rightarrow> int \<Rightarrow> world \<Rightarrow> world res" where
  "close_socket_loop srun j w =
     (if j < sr_n_sockets srun then
        bindR (get_socket srun j) (\<lambda>socket.
          close_socket_loop srun (j + 1) (if socket \<ge> 0 then send_close socket w else w))
      else Inr w)"
  by pat_completeness auto
termination
  by (relation "measure (\<lambda>(srun, j, w). nat (sr_n_sockets srun - j))") auto

text \<open>A loop over the runners \<open>i = 0, 1, ...\<close> below \<open>srun_size\<close>; the body updates one runner.\<close>

fun for_sruns :: "(srun \<Rightarrow> world \<Rightarrow> (srun \<times> world) res) \<Rightarrow> nat list \<Rightarrow> config \<Rightarrow> world \<Rightarrow> (config \<times> world) res" where
  "for_sruns body [] config w = Inr (config, w)"
| "for_sruns body (i # is) config w =
     bindR (get_srun config (int i)) (\<lambda>srun.
     bindR (body srun w) (\<lambda>(srun, w). for_sruns body is (put_srun (int i) srun config) w))"

definition all_sruns :: "config \<Rightarrow> nat list" where
  "all_sruns config = [0..<nat (srun_size config)]"

definition cse_close_sockets :: "config \<Rightarrow> world \<Rightarrow> (config \<times> world) res" where
  "cse_close_sockets config w =
     bindR (for_sruns (\<lambda>srun w. bindR (close_socket_loop srun 0 w) (\<lambda>w. Inr (srun\<lparr>sr_n_sockets := 0\<rparr>, w)))
              (all_sruns config) config w)
       (\<lambda>(config, w). Inr (config\<lparr>srun_size := 0\<rparr>, w))"

definition cse_open_child :: "config \<Rightarrow> world \<Rightarrow> (config \<times> world) res" where
  "cse_open_child config w =
     for_sruns (\<lambda>srun w. Inr (srun\<lparr>sr_n_sockets := 0, sr_max_sockets := 32, sr_is_dead := False,
                                    sr_last_time := 0\<rparr>, w)) (all_sruns config) config w"

definition cse_close_child :: "config \<Rightarrow> world \<Rightarrow> (config \<times> world) res" where
  "cse_close_child config w =
     for_sruns (\<lambda>srun w. bindR (drain_sockets srun w) (\<lambda>(srun, w). Inr (srun\<lparr>sr_n_sockets := 0\<rparr>, w)))
       (all_sruns config) config w"

subsection \<open>Adding a runner\<close>

definition DEAD_TIME :: int where "DEAD_TIME = 120"
definition LIVE_TIME :: int where "LIVE_TIME = 10"
definition CONNECT_TIMEOUT :: int where "CONNECT_TIMEOUT = 2"

text \<open>
  \<open>gethostbyname\<close> is the parameter \<open>resolve\<close>.  \<open>srun_capacity\<close> is the length of the array; an
  enlarged array is zeroed behind the copied runners.
\<close>

definition drop_default_srun :: "config \<Rightarrow> config res" where
  "drop_default_srun config =
     (if srun_size config = 1 then
        bindR (get_srun config 0) (\<lambda>first.
          Inr (if sr_is_default first \<or> sr_host first = None then config\<lparr>srun_size := 0\<rparr> else config))
      else Inr config)"

definition grow_srun_list :: "config \<Rightarrow> config" where
  "grow_srun_list config =
     (if srun_size config \<ge> srun_capacity config then
        let capacity = srun_capacity config;
            capacity = (if capacity = 0 then 4 else capacity);
            kept = (if srun_list config = [] then replicate (nat capacity) zero_srun
                    else take (nat capacity) (srun_list config))
        in config\<lparr>srun_list := kept @ replicate (nat capacity) zero_srun, srun_capacity := 2 * capacity\<rparr>
      else config)"

definition cse_add_host_int ::
    "(string \<Rightarrow> 32 word option) \<Rightarrow> string \<Rightarrow> int \<Rightarrow> bool \<Rightarrow> bool \<Rightarrow> config \<Rightarrow> (int option \<times> config) res" where
  "cse_add_host_int resolve hostname port is_backup is_default config =
     bindR (drop_default_srun config) (\<lambda>config.
       let config = grow_srun_list config in
       case resolve hostname of
         Some h_addr \<Rightarrow>
           bindR (get_srun config (srun_size config)) (\<lambda>srun.
             let srun = srun\<lparr>sr_hostname := Some hostname, sr_host := Some h_addr, sr_port := port,
                   sr_is_backup := is_backup, sr_n_sockets := 0, sr_max_sockets := 32,
                   sr_is_default := is_default \<and> srun_size config = 0,
                   sr_connect_timeout := CONNECT_TIMEOUT, sr_live_time := LIVE_TIME,
                   sr_dead_time := DEAD_TIME, sr_session := srun_size config\<rparr>;
                 k = srun_size config
             in Inr (Some k, (put_srun k srun config)\<lparr>srun_size := k + 1\<rparr>))
       | None \<Rightarrow>
           bindR (cse_error (''CSE cannot find host '' @ hostname @ [CHR 0x0A]) config) (\<lambda>config.
             Inr (None, config)))"

definition cse_add_host :: "(string \<Rightarrow> 32 word option) \<Rightarrow> string \<Rightarrow> int \<Rightarrow> config \<Rightarrow> (int option \<times> config) res" where
  "cse_add_host resolve hostname port config = cse_add_host_int resolve hostname port False False config"

definition cse_add_backup :: "(string \<Rightarrow> 32 word option) \<Rightarrow> string \<Rightarrow> int \<Rightarrow> config \<Rightarrow> (int option \<times> config) res" where
  "cse_add_backup resolve hostname port config = cse_add_host_int resolve hostname port True False config"

subsection \<open>Choosing a runner\<close>

text \<open>\<open>random_host\<close>: a hash of the time, a counter, a random number and the client's address.\<close>

definition random_host :: "string \<Rightarrow> 32 word \<Rightarrow> 32 word \<Rightarrow> 32 word \<Rightarrow> int \<times> 32 word" where
  "random_host ip requestTime rand g_count =
     (let host = requestTime * 23 + g_count;
          g_count = g_count + 1;
          host = 23 * host + rand;
          host = foldl (\<lambda>host c. 23 * host + word_of_int (schar c)) host ip
      in (if sint host < 0 then sint (- host) else sint host, g_count))"

text \<open>The loop that looks for the runner of a session; the result \<open>sz\<close> means there is none.\<close>

function session_host :: "config \<Rightarrow> int \<Rightarrow> int \<Rightarrow> int \<Rightarrow> int res" where
  "session_host config session_index sz host =
     (if host < sz then
        bindR (get_srun config host) (\<lambda>srun.
          if sr_session srun = session_index then Inr host
          else session_host config session_index sz (host + 1))
      else Inr host)"
  by pat_completeness auto
termination
  by (relation "measure (\<lambda>(config, session_index, sz, host). nat (sz - host))") auto

definition c_int :: "int \<Rightarrow> int" where
  "c_int n = sint (word_of_int n :: 32 word)"

definition choose_host :: "config \<Rightarrow> int \<Rightarrow> int \<Rightarrow> string \<Rightarrow> 32 word \<Rightarrow> 32 word \<Rightarrow> 32 word \<Rightarrow> (int \<times> 32 word) res" where
  "choose_host config sz session_index ip request_time rand g_count =
     (let random = (let (h, g_count) = random_host ip request_time rand g_count in (h smod sz, g_count)) in
      bindR (if session_index < 0 then Inr random
             else bindR (session_host config session_index sz 0) (\<lambda>host.
                    Inr (if host = sz then random else (host, g_count)))) (\<lambda>(host, g_count).
        Inr (if host < 0 then - host else host, g_count)))"

text \<open>The runners in the order of a loop: \<open>(host + i * (incr + sz)) % sz\<close> for \<open>i = 0, 1, ...\<close>\<close>

definition host_at :: "int \<Rightarrow> int \<Rightarrow> nat \<Rightarrow> int" where
  "host_at host sz i =
     (let incr = 2 * (host AND 1) - 1 in c_int (host + int i * (incr + sz)) smod sz)"

definition host_order :: "int \<Rightarrow> int \<Rightarrow> int list" where
  "host_order host sz = map (host_at host sz) [0..<nat sz]"

text \<open>The three loops of \<open>open_connection\<close>, over the order of the runners.\<close>

fun reuse_loop :: "32 word \<Rightarrow> nat \<Rightarrow> int list \<Rightarrow> config \<times> io \<Rightarrow> (bool \<times> config \<times> io) res" where
  "reuse_loop request_time pool [] x = Inr (False, x)"
| "reuse_loop request_time pool (k # ks) x =
     bindR (get_srun (fst x) k) (\<lambda>srun.
       if sr_is_backup srun then reuse_loop request_time pool ks x
       else bindR (cse_reuse_socket k request_time pool x) (\<lambda>(ok, x).
         if ok then Inr (True, x) else reuse_loop request_time pool ks x))"

text \<open>What follows a successful \<open>cse_open\<close>.\<close>

definition opened :: "int \<Rightarrow> 32 word \<Rightarrow> config \<times> io \<Rightarrow> (config \<times> io) res" where
  "opened k request_time = (\<lambda>(config, s, w).
     bindR (get_srun config k) (\<lambda>srun.
       Inr (put_srun k (srun\<lparr>sr_is_dead := False, sr_last_time := request_time\<rparr>) config,
            s\<lparr>s_srun := Some (nat k)\<rparr>, w)))"

fun primary_loop :: "int \<Rightarrow> 32 word \<Rightarrow> nat \<Rightarrow> int list \<Rightarrow> config \<times> io \<Rightarrow> (bool \<times> config \<times> io) res" where
  "primary_loop session_index request_time pool [] x = Inr (False, x)"
| "primary_loop session_index request_time pool (k # ks) x =
     bindR (get_srun (fst x) k) (\<lambda>srun.
       if session_index < 0 \<and> sr_is_backup srun then primary_loop session_index request_time pool ks x
       else bindR (cse_reuse_socket k request_time pool x) (\<lambda>(ok, x).
         if ok then Inr (True, x)
         else bindR (get_srun (fst x) k) (\<lambda>srun.
           if sr_is_dead srun \<and> sr_last_time srun + word_of_int (sr_dead_time srun) \<ge> request_time
           then primary_loop session_index request_time pool ks x
           else bindR (cse_open k pool False x) (\<lambda>(ok, x).
             if ok then bindR (opened k request_time x) (\<lambda>x. Inr (True, x))
             else primary_loop session_index request_time pool ks x))))"

fun last_resort_loop :: "32 word \<Rightarrow> nat \<Rightarrow> int list \<Rightarrow> config \<times> io \<Rightarrow> (bool \<times> config \<times> io) res" where
  "last_resort_loop request_time pool [] x = Inr (False, x)"
| "last_resort_loop request_time pool (k # ks) x =
     bindR (cse_reuse_socket k request_time pool x) (\<lambda>(ok, x).
       if ok then Inr (True, x)
       else bindR (cse_open k pool True x) (\<lambda>(ok, x).
         if ok then bindR (opened k request_time x) (\<lambda>x. Inr (True, x))
         else bindR (get_srun (fst x) k) (\<lambda>srun.
           last_resort_loop request_time pool ks
             (put_srun k (srun\<lparr>sr_is_dead := True, sr_last_time := request_time\<rparr>) (fst x), snd x))))"

definition open_connection ::
    "int \<Rightarrow> string \<Rightarrow> 32 word \<Rightarrow> 32 word \<Rightarrow> nat \<Rightarrow> 32 word \<Rightarrow> config \<times> io \<Rightarrow>
     (bool \<times> 32 word \<times> config \<times> io) res" where
  "open_connection session_index ip request_time rand pool g_count x =
     (let sz = srun_size (fst x);
          sz = (if sz < 1 then 1 else sz)
      in bindR (choose_host (fst x) sz session_index ip request_time rand g_count) (\<lambda>(host, g_count).
         let ks = host_order host sz in
         bindR (if session_index < 0 then reuse_loop request_time pool ks x else Inr (False, x)) (\<lambda>(ok, x).
         bindR (if ok then Inr (True, x)
                else primary_loop session_index request_time pool ks x) (\<lambda>(ok, x).
         bindR (if ok then Inr (True, x)
                else last_resort_loop request_time pool ks x) (\<lambda>(ok, x). Inr (ok, g_count, x))))))"

definition cse_open_connection ::
    "int \<Rightarrow> string \<Rightarrow> 32 word \<Rightarrow> 32 word \<Rightarrow> nat \<Rightarrow> 32 word \<Rightarrow> config \<times> io \<Rightarrow>
     (bool \<times> 32 word \<times> config \<times> io) res" where
  "cse_open_connection session_index ip request_time rand pool g_count = (\<lambda>(config, s, w).
     let s = (reset_stream pool s)\<lparr>s_srun := None\<rparr> in
     bindR (open_connection session_index ip request_time rand pool g_count (config, s, w))
       (\<lambda>(ok, g_count, config, s, w).
          Inr (ok, g_count, config, s, if ok then cse_set_socket_cleanup (s_socket s) pool w else w)))"

subsection \<open>The sockets of a runner as a stack\<close>

declare drain_sockets.simps [simp del] close_socket_loop.simps [simp del] session_host.simps [simp del]

definition sockets_of :: "srun \<Rightarrow> int list" where
  "sockets_of srun = map (\<lambda>j. sr_sockets srun (int j)) [0..<nat (sr_n_sockets srun)]"

definition srun_ok :: "srun \<Rightarrow> bool" where
  "srun_ok srun \<longleftrightarrow> 0 \<le> sr_n_sockets srun \<and> sr_n_sockets srun \<le> sr_max_sockets srun \<and>
     sr_max_sockets srun \<le> SOCKETS_LENGTH"

lemma sockets_of_cong:
  "sr_sockets a = sr_sockets b \<Longrightarrow> sr_n_sockets a = sr_n_sockets b \<Longrightarrow> sockets_of a = sockets_of b"
  by (simp add: sockets_of_def)

lemma sockets_of_empty [simp]: "sockets_of (srun\<lparr>sr_n_sockets := 0\<rparr>) = []"
  by (simp add: sockets_of_def)

lemma length_sockets_of: "length (sockets_of srun) = nat (sr_n_sockets srun)"
  by (simp add: sockets_of_def)

locale socket_stack =
  fixes push :: "int \<Rightarrow> 's \<Rightarrow> 's res"
    and pop :: "'s \<Rightarrow> (int \<times> 's) res"
    and stack :: "'s \<Rightarrow> int list"
    and inv :: "'s \<Rightarrow> bool"
    and room :: "'s \<Rightarrow> nat"
  assumes push_top: "inv x \<Longrightarrow> length (stack x) < room x \<Longrightarrow>
      returns (\<lambda>x'. inv x' \<and> stack x' = stack x @ [d] \<and> room x' = room x) (push d x)"
    and pop_top: "inv x \<Longrightarrow> stack x \<noteq> [] \<Longrightarrow>
      returns (\<lambda>(d, x'). d = last (stack x) \<and> inv x' \<and> stack x' = butlast (stack x) \<and> room x' = room x) (pop x)"
begin

lemma pop_after_push:
  assumes "inv x" "length (stack x) < room x"
  shows "returns (\<lambda>(d', x'). d' = d \<and> inv x' \<and> stack x' = stack x) (bindR (push d x) pop)"
  by (rule returns_bindI [OF push_top [OF assms]], rule returns_mono, rule pop_top) auto

end

lemma sockets_of_snoc:
  assumes "0 < sr_n_sockets srun"
  shows "sockets_of srun = sockets_of (srun\<lparr>sr_n_sockets := sr_n_sockets srun - 1\<rparr>) @
    [sr_sockets srun (sr_n_sockets srun - 1)]"
proof -
  have "nat (sr_n_sockets srun) = Suc (nat (sr_n_sockets srun - 1))" using assms by simp
  then show ?thesis using assms by (simp add: sockets_of_def)
qed

lemma pop_socket_eq:
  assumes "0 < sr_n_sockets srun" "srun_ok srun"
  shows "pop_socket srun = Inr (last (sockets_of srun), srun\<lparr>sr_n_sockets := sr_n_sockets srun - 1\<rparr>)"
    and "sockets_of (srun\<lparr>sr_n_sockets := sr_n_sockets srun - 1\<rparr>) = butlast (sockets_of srun)"
    and "srun_ok (srun\<lparr>sr_n_sockets := sr_n_sockets srun - 1\<rparr>)"
  using assms sockets_of_snoc [OF assms(1)]
  by (simp_all add: pop_socket_def get_socket_def srun_ok_def Let_def)

lemma push_socket_eq:
  assumes "srun_ok srun" "sr_n_sockets srun < sr_max_sockets srun"
  obtains srun' where "push_socket d srun = Inr srun'" "sockets_of srun' = sockets_of srun @ [d]" "srun_ok srun'"
    "srun' = srun\<lparr>sr_sockets := (sr_sockets srun)(sr_n_sockets srun := d), sr_n_sockets := sr_n_sockets srun + 1\<rparr>"
proof
  let ?s = "srun\<lparr>sr_sockets := (sr_sockets srun)(sr_n_sockets srun := d), sr_n_sockets := sr_n_sockets srun + 1\<rparr>"
  show "push_socket d srun = Inr ?s" "srun_ok ?s"
    using assms by (simp_all add: push_socket_def srun_ok_def Let_def)
  have n: "nat (sr_n_sockets srun + 1) = Suc (nat (sr_n_sockets srun))" using assms(1) by (simp add: srun_ok_def nat_add_distrib)
  show "sockets_of ?s = sockets_of srun @ [d]"
    using assms(1) by (auto simp: sockets_of_def n srun_ok_def)
qed rule

interpretation pool: socket_stack push_socket pop_socket sockets_of srun_ok "\<lambda>srun. nat (sr_max_sockets srun)"
proof (unfold_locales, goal_cases)
  case (1 x d)
  then have "sr_n_sockets x < sr_max_sockets x" by (simp add: length_sockets_of srun_ok_def)
  show ?case by (rule push_socket_eq [OF 1(1) \<open>sr_n_sockets x < sr_max_sockets x\<close>, of d]) simp
next
  case (2 x)
  then have "0 < sr_n_sockets x" by (cases "sr_n_sockets x > 0") (auto simp: sockets_of_def)
  from pop_socket_eq [OF this 2(1)] show ?case by simp
qed

text \<open>Draining a pool closes its sockets, the last one first.\<close>

definition close_all :: "int list \<Rightarrow> world \<Rightarrow> world" where
  "close_all ds w = fold send_close ds w"

lemma drain_sockets_eq:
  assumes "srun_ok srun"
  shows "drain_sockets srun w = Inr (srun\<lparr>sr_n_sockets := 0\<rparr>, close_all (rev (sockets_of srun)) w)"
  using assms
proof (induction "nat (sr_n_sockets srun)" arbitrary: srun w)
  case 0
  then have "sr_n_sockets srun = 0" by (simp add: srun_ok_def)
  then show ?case by (subst drain_sockets.simps) (simp add: close_all_def sockets_of_def)
next
  case (Suc n)
  then have pos: "0 < sr_n_sockets srun" by simp
  note pop = pop_socket_eq [OF pos Suc.prems]
  have "n = nat (sr_n_sockets (srun\<lparr>sr_n_sockets := sr_n_sockets srun - 1\<rparr>))" using Suc.hyps(2) by simp
  note ih = Suc.hyps(1) [OF this pop(3)]
  have "sockets_of srun = butlast (sockets_of srun) @ [last (sockets_of srun)]"
    using sockets_of_snoc [OF pos] by simp
  then have rev: "rev (sockets_of srun) = last (sockets_of srun) # rev (butlast (sockets_of srun))"
    by (metis rev.simps(2) rev_rev_ident rev_append rev_singleton_conv append_Cons append_Nil)
  show ?case using pos pop(1)
    by (subst drain_sockets.simps) (simp add: ih pop(2) rev close_all_def)
qed

lemma close_socket_loop_eq:
  assumes "srun_ok srun" "0 \<le> j" "\<forall>d \<in> set (sockets_of srun). 0 \<le> d"
  shows "close_socket_loop srun j w = Inr (close_all (drop (nat j) (sockets_of srun)) w)"
  using assms(2)
proof (induction "nat (sr_n_sockets srun - j)" arbitrary: j w)
  case 0
  then show ?case by (subst close_socket_loop.simps) (simp add: close_all_def length_sockets_of)
next
  case (Suc n)
  then have j: "j < sr_n_sockets srun" by simp
  then have get: "get_socket srun j = Inr (sockets_of srun ! nat j)"
    using assms(1) Suc.prems by (simp add: get_socket_def sockets_of_def srun_ok_def)
  have nj: "nat j < length (sockets_of srun)" using j Suc.prems by (simp add: length_sockets_of)
  then have "0 \<le> sockets_of srun ! nat j" using assms(3) by simp
  moreover have "drop (nat j) (sockets_of srun) = sockets_of srun ! nat j # drop (nat (j + 1)) (sockets_of srun)"
    using Cons_nth_drop_Suc [OF nj] Suc.prems by (simp add: nat_add_distrib)
  ultimately show ?case using j get Suc
    by (subst close_socket_loop.simps) (simp add: close_all_def)
qed

subsection \<open>The pools and the open descriptors\<close>

lemma sys_send_open [simp]: "open_fds (snd (sys_send fd bs w)) = open_fds w" by (rule sys_send_frame)

lemma send_close_frame [simp]:
  "set (open_fds (send_close d w)) = set (open_fds w) - {d}"
  "rx (send_close d w) = rx w" "conns (send_close d w) = conns w" "nonblock (send_close d w) = nonblock w"
  by (simp_all add: send_close_def frame_simps)

lemma close_all_frame [simp]:
  "set (open_fds (close_all ds w)) = set (open_fds w) - set ds"
  "rx (close_all ds w) = rx w" "conns (close_all ds w) = conns w" "nonblock (close_all ds w) = nonblock w"
  by (induction ds arbitrary: w) (auto simp: close_all_def)

lemma close_all_Nil [simp]: "close_all [] w = w" by (simp add: close_all_def)

lemma sys_send_sent_other: "d \<noteq> fd \<Longrightarrow> sent_on d (log (snd (sys_send fd bs w))) = sent_on d (log w)"
  by (auto simp: sys_send_def Let_def split: list.split)

text \<open>Every idle socket that is open gets the farewell whole, if the kernel takes four bytes.\<close>

lemma close_all_sent:
  assumes "tx_takes 4 w" "distinct ds" "set ds \<subseteq> set (open_fds w)"
  shows "sent_on d (log (close_all ds w)) = sent_on d (log w) @ (if d \<in> set ds then CLOSE_PACKET else [])"
  using assms
proof (induction ds arbitrary: w)
  case (Cons a ds)
  have fd: "a \<in> set (open_fds w)" and len: "length CLOSE_PACKET \<le> 4"
    using Cons.prems by (simp_all add: CLOSE_PACKET_def)
  note whole = sys_send_whole [OF fd Cons.prems(1) len]
  have "tx_takes 4 (send_close a w)" using whole(3) by (simp add: send_close_def tx_takes_def)
  moreover have "set ds \<subseteq> set (open_fds (send_close a w))" using Cons.prems by auto
  ultimately have "sent_on d (log (close_all ds (send_close a w))) =
      sent_on d (log (send_close a w)) @ (if d \<in> set ds then CLOSE_PACKET else [])"
    using Cons by simp
  moreover have "sent_on d (log (send_close a w)) = sent_on d (log w) @ (if d = a then CLOSE_PACKET else [])"
    using whole(2) by (simp add: send_close_def)
  ultimately show ?case using Cons.prems(2) by (auto simp: close_all_def)
qed (simp add: close_all_def)

text \<open>
  Ownership: each runner's pool is well formed, its sockets are open, and no descriptor is in
  the pools twice.
\<close>

definition pools_ok :: "srun list \<Rightarrow> int set \<Rightarrow> bool" where
  "pools_ok l fds \<longleftrightarrow>
     (\<forall>i < length l. srun_ok (l ! i) \<and> distinct (sockets_of (l ! i)) \<and>
        (\<forall>d \<in> set (sockets_of (l ! i)). 0 \<le> d \<and> d \<in> fds)) \<and>
     (\<forall>i < length l. \<forall>j < length l. i \<noteq> j \<longrightarrow> set (sockets_of (l ! i)) \<inter> set (sockets_of (l ! j)) = {})"

definition idle :: "srun list \<Rightarrow> int set" where
  "idle l = (\<Union>srun \<in> set l. set (sockets_of srun))"

lemma idle_nth: "k < length l \<Longrightarrow> set (sockets_of (l ! k)) \<subseteq> idle l"
  using nth_mem [of k l] by (fastforce simp: idle_def)

lemma in_idle: "d \<in> idle l \<longleftrightarrow> (\<exists>i < length l. d \<in> set (sockets_of (l ! i)))"
  unfolding idle_def set_conv_nth [of l] by blast

lemma pools_okD:
  assumes "pools_ok l fds" "k < length l"
  shows "srun_ok (l ! k)" "distinct (sockets_of (l ! k))"
    "d \<in> set (sockets_of (l ! k)) \<Longrightarrow> 0 \<le> d" "set (sockets_of (l ! k)) \<subseteq> fds"
  using assms by (auto simp: pools_ok_def)

lemma pools_ok_idle: "pools_ok l fds \<Longrightarrow> idle l \<subseteq> fds"
  by (fastforce simp: pools_ok_def idle_def in_set_conv_nth)

lemma pools_ok_mono: "pools_ok l fds \<Longrightarrow> fds \<subseteq> fds' \<Longrightarrow> pools_ok l fds'"
  by (auto simp: pools_ok_def)

text \<open>Replacing one runner whose sockets belong to no other.\<close>

lemma pools_ok_update:
  assumes "pools_ok l fds" "srun_ok srun" "distinct (sockets_of srun)"
    and "\<forall>d \<in> set (sockets_of srun). 0 \<le> d \<and> d \<in> fds'"
    and "\<forall>i < length l. i \<noteq> k \<longrightarrow> set (sockets_of (l ! i)) \<inter> set (sockets_of srun) = {} \<and> set (sockets_of (l ! i)) \<subseteq> fds'"
  shows "pools_ok (l[k := srun]) fds'"
proof -
  have cell: "i < length l \<Longrightarrow> l[k := srun] ! i = (if i = k then srun else l ! i)" for i
    by (simp add: nth_list_update)
  have ok: "srun_ok (l ! i) \<and> distinct (sockets_of (l ! i)) \<and> (\<forall>d \<in> set (sockets_of (l ! i)). 0 \<le> d)"
    if "i < length l" for i using assms(1) that by (simp add: pools_ok_def)
  have sub: "set (sockets_of (l ! i)) \<subseteq> fds'" "set (sockets_of (l ! i)) \<inter> set (sockets_of srun) = {}"
    if "i < length l" "i \<noteq> k" for i using assms(5) that by blast+
  have disj: "set (sockets_of (l ! i)) \<inter> set (sockets_of (l ! j)) = {}" if "i < length l" "j < length l" "i \<noteq> j" for i j
    using assms(1) that unfolding pools_ok_def by blast
  have 1: "srun_ok (l[k := srun] ! i) \<and> distinct (sockets_of (l[k := srun] ! i)) \<and>
      (\<forall>d \<in> set (sockets_of (l[k := srun] ! i)). 0 \<le> d \<and> d \<in> fds')" if "i < length l" for i
    using ok [OF that] sub(1) [OF that] assms(2-4) by (auto simp: cell [OF that])
  have 2: "set (sockets_of (l[k := srun] ! i)) \<inter> set (sockets_of (l[k := srun] ! j)) = {}"
    if "i < length l" "j < length l" "i \<noteq> j" for i j
    using sub(2) [OF that(1)] sub(2) [OF that(2)] disj [OF that] that(3)
    by (auto simp: cell [OF that(1)] cell [OF that(2)] Int_commute)
  show ?thesis using 1 2 by (simp add: pools_ok_def)
qed

text \<open>A runner keeps only some of its sockets: the pools stay well formed.\<close>

lemma pools_ok_shrink:
  assumes "pools_ok l fds" "k < length l" "srun_ok srun" "distinct (sockets_of srun)"
    and "set (sockets_of srun) \<subseteq> set (sockets_of (l ! k))" "fds - set (sockets_of (l ! k)) \<union> set (sockets_of srun) \<subseteq> fds'"
  shows "pools_ok (l[k := srun]) fds'"
proof (rule pools_ok_update [OF assms(1,3,4)])
  show "\<forall>d \<in> set (sockets_of srun). 0 \<le> d \<and> d \<in> fds'"
    using assms(5,6) pools_okD(3) [OF assms(1,2)] by auto
  show "\<forall>i < length l. i \<noteq> k \<longrightarrow> set (sockets_of (l ! i)) \<inter> set (sockets_of srun) = {} \<and> set (sockets_of (l ! i)) \<subseteq> fds'"
  proof (intro allI impI)
    fix i assume i: "i < length l" "i \<noteq> k"
    have "set (sockets_of (l ! i)) \<inter> set (sockets_of (l ! k)) = {}"
      using assms(1,2) i unfolding pools_ok_def by blast
    then show "set (sockets_of (l ! i)) \<inter> set (sockets_of srun) = {} \<and> set (sockets_of (l ! i)) \<subseteq> fds'"
      using assms(5,6) pools_okD(4) [OF assms(1) i(1)] by blast
  qed
qed

lemma idle_update: "idle (l[k := srun]) \<subseteq> set (sockets_of srun) \<union> idle l"
  using set_update_subset_insert [of l k srun] by (auto simp: idle_def)

text \<open>A descriptor that leaves a runner's pool is in no pool any more.\<close>

lemma idle_removed:
  assumes "pools_ok l fds" "k < length l" "d \<in> set (sockets_of (l ! k))" "d \<notin> set (sockets_of srun)"
  shows "d \<notin> idle (l[k := srun])"
proof
  assume "d \<in> idle (l[k := srun])"
  then obtain i where i: "i < length l" "d \<in> set (sockets_of (l[k := srun] ! i))"
    by (auto simp: in_idle)
  then have "i \<noteq> k" using assms(2,4) by auto
  then have "d \<in> set (sockets_of (l ! i)) \<inter> set (sockets_of (l ! k))" using i assms(3) by simp
  moreover have "set (sockets_of (l ! i)) \<inter> set (sockets_of (l ! k)) = {}"
    using assms(1,2) i(1) \<open>i \<noteq> k\<close> unfolding pools_ok_def by blast
  ultimately show False by simp
qed

subsection \<open>What each operation does\<close>

lemma get_srun_eq [simp]:
  "k < length (srun_list config) \<Longrightarrow> get_srun config (int k) = Inr (srun_list config ! k)"
  by (simp add: get_srun_def)

lemma put_srun_simps [simp]:
  "srun_list (put_srun (int k) srun config) = (srun_list config)[k := srun]"
  "srun_size (put_srun (int k) srun config) = srun_size config"
  "srun_capacity (put_srun (int k) srun config) = srun_capacity config"
  "locations (put_srun (int k) srun config) = locations config"
  "update_count (put_srun (int k) srun config) = update_count config"
  by (simp_all add: put_srun_def)

text \<open>What a runner is configured to, which serving requests does not change.\<close>

definition srun_conf :: "srun \<Rightarrow> string option \<times> 32 word option \<times> bool \<times> int \<times> int \<times> int \<times> int \<times> int" where
  "srun_conf srun = (sr_hostname srun, sr_host srun, sr_is_backup srun, sr_session srun, sr_max_sockets srun,
     sr_connect_timeout srun, sr_live_time srun, sr_dead_time srun)"

definition same_runners :: "config \<Rightarrow> config \<Rightarrow> bool" where
  "same_runners c c' \<longleftrightarrow> map srun_conf (srun_list c') = map srun_conf (srun_list c) \<and>
     srun_size c' = srun_size c \<and> srun_capacity c' = srun_capacity c \<and> locations c' = locations c \<and>
     update_count c' = update_count c"

lemma same_runners_refl [simp]: "same_runners c c" by (simp add: same_runners_def)

lemma same_runners_trans: "same_runners a b \<Longrightarrow> same_runners b c \<Longrightarrow> same_runners a c"
  by (simp add: same_runners_def)

lemma same_runners_length: "same_runners c c' \<Longrightarrow> length (srun_list c') = length (srun_list c)"
  unfolding same_runners_def by (metis length_map)

lemma same_runners_nth:
  assumes "same_runners c c'" "k < length (srun_list c)"
  shows "srun_conf (srun_list c' ! k) = srun_conf (srun_list c ! k)"
  using assms same_runners_length [OF assms(1)] unfolding same_runners_def by (metis nth_map)

lemma same_runners_put:
  assumes "k < length (srun_list c)" "srun_conf srun = srun_conf (srun_list c ! k)"
  shows "same_runners c (put_srun (int k) srun c)"
  using assms by (simp add: same_runners_def map_update list_update_same_conv)

text \<open>
  The runner as the clock check leaves it, and whether one of its idle sockets may be reused:
  the last use is at most \<open>sr_live_time\<close> seconds ago (in unsigned arithmetic).
\<close>

definition clamp_time :: "32 word \<Rightarrow> srun \<Rightarrow> srun" where
  "clamp_time t srun = (if t < sr_last_time srun then srun\<lparr>sr_last_time := t\<rparr> else srun)"

definition reusable :: "32 word \<Rightarrow> srun \<Rightarrow> bool" where
  "reusable t srun \<longleftrightarrow> sr_n_sockets srun > 0 \<and>
     sr_last_time (clamp_time t srun) + word_of_int (sr_live_time srun) \<ge> t"

lemma clamp_time_simps [simp]:
  "sr_n_sockets (clamp_time t srun) = sr_n_sockets srun" "sr_sockets (clamp_time t srun) = sr_sockets srun"
  "sr_live_time (clamp_time t srun) = sr_live_time srun" "srun_conf (clamp_time t srun) = srun_conf srun"
  "sockets_of (clamp_time t srun) = sockets_of srun" "srun_ok (clamp_time t srun) = srun_ok srun"
  "sr_is_dead (clamp_time t srun) = sr_is_dead srun"
  by (simp_all add: clamp_time_def srun_conf_def sockets_of_def srun_ok_def)

definition reuse_stream :: "nat \<Rightarrow> nat \<Rightarrow> int \<Rightarrow> config \<Rightarrow> stream \<Rightarrow> stream" where
  "reuse_stream k pool socket config s = s\<lparr>s_pool := pool, s_write_buf := [], s_read_length := 0,
     s_read_offset := 0, s_socket := socket, s_update_count := update_count config, s_srun := Some k\<rparr>"

lemma cse_reuse_socket_hit:
  assumes "k < length (srun_list config)" "srun_ok (srun_list config ! k)" "reusable t (srun_list config ! k)"
  shows "cse_reuse_socket (int k) t pool (config, s, w) = Inr (True,
    put_srun (int k) ((srun_list config ! k)\<lparr>sr_n_sockets := sr_n_sockets (srun_list config ! k) - 1,
      sr_is_dead := False, sr_last_time := t\<rparr>) config,
    reuse_stream k pool (last (sockets_of (srun_list config ! k))) config s, w)"
proof -
  let ?r = "srun_list config ! k"
  have pos: "0 < sr_n_sockets (clamp_time t ?r)" "srun_ok (clamp_time t ?r)"
    using assms by (simp_all add: reusable_def)
  have upd: "(clamp_time t ?r)\<lparr>sr_n_sockets := n, sr_is_dead := False, sr_last_time := t\<rparr> =
      ?r\<lparr>sr_n_sockets := n, sr_is_dead := False, sr_last_time := t\<rparr>" for n
    by (simp add: clamp_time_def)
  have put: "put_srun (int k) a (put_srun (int k) b config) = put_srun (int k) a config" for a b
    by (simp add: put_srun_def)
  show ?thesis
    using assms pop_socket_eq(1) [OF pos]
    by (simp add: cse_reuse_socket_def cse_reuse_def Let_def reusable_def clamp_time_def [symmetric]
        reuse_stream_def upd put)
qed

lemma cse_reuse_socket_miss:
  assumes "k < length (srun_list config)" "srun_ok (srun_list config ! k)" "\<not> reusable t (srun_list config ! k)"
  shows "cse_reuse_socket (int k) t pool (config, s, w) = Inr (False,
    put_srun (int k) ((clamp_time t (srun_list config ! k))\<lparr>sr_n_sockets := 0\<rparr>) config, s,
    close_all (rev (sockets_of (srun_list config ! k))) w)"
proof -
  let ?r = "srun_list config ! k"
  have put: "put_srun (int k) a (put_srun (int k) b config) = put_srun (int k) a config" for a b
    by (simp add: put_srun_def)
  have "drain_sockets (clamp_time t ?r) w =
      Inr ((clamp_time t ?r)\<lparr>sr_n_sockets := 0\<rparr>, close_all (rev (sockets_of ?r)) w)"
    using drain_sockets_eq [of "clamp_time t ?r" w] assms by simp
  then show ?thesis
    using assms
    by (auto simp: cse_reuse_socket_def Let_def reusable_def clamp_time_def [symmetric] put)
qed

definition fix_port :: "srun \<Rightarrow> srun" where
  "fix_port srun = (if sr_port srun \<le> 0 then srun\<lparr>sr_port := DEFAULT_PORT\<rparr> else srun)"

lemma fix_port_simps [simp]:
  "sockets_of (fix_port srun) = sockets_of srun" "srun_ok (fix_port srun) = srun_ok srun"
  "srun_conf (fix_port srun) = srun_conf srun" "sr_is_dead (fix_port srun) = sr_is_dead srun"
  "sr_last_time (fix_port srun) = sr_last_time srun" "sr_n_sockets (fix_port srun) = sr_n_sockets srun"
  by (simp_all add: fix_port_def sockets_of_def srun_ok_def srun_conf_def)

definition open_stream :: "nat \<Rightarrow> nat \<Rightarrow> int \<Rightarrow> stream \<Rightarrow> stream" where
  "open_stream k pool socket s = (reset_stream pool s)\<lparr>s_srun := Some k, s_socket := socket\<rparr>"

lemma cse_open_spec:
  assumes "k < length (srun_list config)" "pools_ok l (set (open_fds w))"
  obtains d w' where "cse_open (int k) pool wait (config, s, w) =
      Inr (0 \<le> d, put_srun (int k) (fix_port (srun_list config ! k)) config, open_stream k pool d s, w')"
    "pools_ok l (set (open_fds w'))" "0 \<le> d \<longrightarrow> d \<in> set (open_fds w') \<and> d \<notin> idle l \<and> \<not> nonblock w' d"
    "d < 0 \<longrightarrow> d = -1 \<and> set (open_fds w') = set (open_fds w)"
proof -
  let ?r = "srun_list config ! k"
  let ?addr = "case sr_host ?r of Some host \<Rightarrow> host | None \<Rightarrow> INADDR_LOOPBACK"
  let ?port = "sr_port (fix_port ?r) mod 65536"
  have tmo: "sr_connect_timeout (fix_port ?r) = sr_connect_timeout ?r" by (simp add: fix_port_def)
  obtain d w' where e: "(if wait \<or> sr_connect_timeout ?r \<le> 0 then cse_connect_wait ?addr ?port w
      else cse_connect ?addr ?port w) = (d, w')" by (metis surj_pair)
  have eq: "cse_open (int k) pool wait (config, s, w) =
      Inr (0 \<le> d, put_srun (int k) (fix_port ?r) config, open_stream k pool d s, w')"
    using assms(1) e tmo
    by (simp add: cse_open_def Let_def fix_port_def [symmetric] open_stream_def)
  have "set (open_fds w) \<subseteq> set (open_fds w') \<and>
    (if 0 \<le> d then d \<in> set (open_fds w') \<and> d \<notin> set (open_fds w) \<and> \<not> nonblock w' d
     else d = -1 \<and> set (open_fds w') = set (open_fds w))"
    using e blocking.connect_result timed.connect_result by (auto split: if_splits)
  then show thesis
    using pools_ok_mono [OF assms(2)] pools_ok_idle [OF assms(2)] by (intro that [OF eq]) (auto split: if_splits)
qed

end
