(* ===== verification/Cse_Failover.thy ===== *)
theory Cse_Failover
  imports Cse_Pool
begin

text \<open>
  The search for a connection (\<open>open_connection\<close> of stream.c) proved as a whole: what each loop
  leaves behind, the order of the runners, that a failed search has tried every runner, and
  that a search ends with a connection whenever the network gives one.
\<close>

subsection \<open>The loops over the runners\<close>

text \<open>
  \<open>ready\<close>: a state of the search for a connection, started with configuration \<open>c0\<close>;
  \<open>connected\<close>: its successful end, a blocking, open descriptor that no pool holds, given to a
  stream with empty buffers on runner \<open>k\<close>, which is alive and was used just now.
\<close>

definition ready :: "config \<Rightarrow> config \<times> io \<Rightarrow> bool" where
  "ready c0 = (\<lambda>(c, s, w). same_runners c0 c \<and> pools_ok (srun_list c) (set (open_fds w)) \<and>
     s_socket s < 0 \<and> stream_ok s)"

definition connected :: "config \<Rightarrow> 32 word \<Rightarrow> nat \<Rightarrow> nat \<Rightarrow> config \<times> io \<Rightarrow> bool" where
  "connected c0 t pool k = (\<lambda>(c, s, w). same_runners c0 c \<and> pools_ok (srun_list c) (set (open_fds w)) \<and>
     0 \<le> s_socket s \<and> s_socket s \<in> set (open_fds w) \<and> s_socket s \<notin> idle (srun_list c) \<and>
     stream_ok s \<and> s_write_buf s = [] \<and> unread s = [] \<and> s_pool s = pool \<and>
     s_srun s = Some k \<and> k < length (srun_list c) \<and>
     \<not> sr_is_dead (srun_list c ! k) \<and> sr_last_time (srun_list c ! k) = t)"

lemma srun_conf_simps [simp]:
  "srun_conf (srun\<lparr>sr_n_sockets := n\<rparr>) = srun_conf srun" "srun_conf (srun\<lparr>sr_is_dead := b\<rparr>) = srun_conf srun"
  "srun_conf (srun\<lparr>sr_last_time := t\<rparr>) = srun_conf srun" "srun_conf (srun\<lparr>sr_sockets := f\<rparr>) = srun_conf srun"
  by (simp_all add: srun_conf_def)

lemma srun_ok_simps [simp]:
  "srun_ok (srun\<lparr>sr_is_dead := b\<rparr>) = srun_ok srun" "srun_ok (srun\<lparr>sr_last_time := t\<rparr>) = srun_ok srun"
  "srun_ok srun \<Longrightarrow> srun_ok (srun\<lparr>sr_n_sockets := 0\<rparr>)"
  by (auto simp: srun_ok_def)

lemma sockets_of_simps [simp]:
  "sockets_of (srun\<lparr>sr_is_dead := b\<rparr>) = sockets_of srun" "sockets_of (srun\<lparr>sr_last_time := t\<rparr>) = sockets_of srun"
  by (simp_all add: sockets_of_def)

lemma pools_ok_same_sockets:
  assumes "pools_ok l fds" "k < length l" "srun_ok srun" "sockets_of srun = sockets_of (l ! k)"
  shows "pools_ok (l[k := srun]) fds" "idle (l[k := srun]) \<subseteq> idle l"
  using pools_ok_shrink [OF assms(1,2,3)] assms pools_okD [OF assms(1,2)] idle_update [of l k srun] idle_nth [OF assms(2)]
  by auto

lemma reuse_hit:
  assumes "ready c0 (c, s, w)" "k < length (srun_list c)" "reusable t (srun_list c ! k)"
  shows "returns (\<lambda>(ok, c', s', w'). ok \<and> connected c0 t pool k (c', s', w') \<and>
      s_socket s' = last (sockets_of (srun_list c ! k)) \<and> w' = w)
    (cse_reuse_socket (int k) t pool (c, s, w))"
proof -
  let ?r = "srun_list c ! k"
  let ?r' = "?r\<lparr>sr_n_sockets := sr_n_sockets ?r - 1, sr_is_dead := False, sr_last_time := t\<rparr>"
  have p: "pools_ok (srun_list c) (set (open_fds w))" using assms(1) by (simp add: ready_def)
  have ok: "srun_ok ?r" "distinct (sockets_of ?r)" using pools_okD [OF p assms(2)] by simp_all
  have pos: "0 < sr_n_sockets ?r" using assms(3) by (simp add: reusable_def)
  note pop = pop_socket_eq [OF pos ok(1)]
  have socks: "sockets_of ?r' = butlast (sockets_of ?r)" using pop(2) by simp
  have ne: "sockets_of ?r \<noteq> []" using sockets_of_snoc [OF pos] by simp
  then have last: "last (sockets_of ?r) \<in> set (sockets_of ?r)" "last (sockets_of ?r) \<notin> set (sockets_of ?r')"
    using last_not_in_butlast [OF ok(2)] socks by simp_all
  have "pools_ok ((srun_list c)[k := ?r']) (set (open_fds w))"
    using pools_ok_shrink [OF p assms(2), of ?r'] ok(2) socks pop(3) pools_okD(4) [OF p assms(2)]
    by (auto simp: distinct_butlast dest: in_set_butlastD)
  moreover have "same_runners c (put_srun (int k) ?r' c)" using assms(2) by (intro same_runners_put) simp_all
  ultimately show ?thesis
    using assms idle_removed [OF p assms(2) last] last(1) pools_okD(3,4) [OF p assms(2)]
    unfolding cse_reuse_socket_hit [OF assms(2) ok(1) assms(3)]
    by (auto simp: connected_def ready_def reuse_stream_def stream_ok_def unread_def elim: same_runners_trans)
qed

text \<open>A runner the search has left untouched, but for the clock check.\<close>

lemma reuse_miss:
  assumes "ready c0 (c, s, w)" "k < length (srun_list c)" "\<not> reusable t (srun_list c ! k)"
  shows "returns (\<lambda>(ok, c', s', w'). \<not> ok \<and> ready c0 (c', s', w') \<and>
      srun_list c' = (srun_list c)[k := (clamp_time t (srun_list c ! k))\<lparr>sr_n_sockets := 0\<rparr>] \<and>
      conns w' = conns w)
    (cse_reuse_socket (int k) t pool (c, s, w))"
proof -
  let ?r = "srun_list c ! k"
  let ?r' = "(clamp_time t ?r)\<lparr>sr_n_sockets := 0\<rparr>"
  have p: "pools_ok (srun_list c) (set (open_fds w))" using assms(1) by (simp add: ready_def)
  have ok: "srun_ok ?r" using pools_okD [OF p assms(2)] by simp
  have "pools_ok ((srun_list c)[k := ?r']) (set (open_fds (close_all (rev (sockets_of ?r)) w)))"
    using pools_ok_shrink [OF p assms(2), of ?r'] ok by simp
  moreover have "same_runners c (put_srun (int k) ?r' c)" using assms(2) by (intro same_runners_put) simp_all
  ultimately show ?thesis
    using assms unfolding cse_reuse_socket_miss [OF assms(2) ok assms(3)]
    by (auto simp: ready_def elim: same_runners_trans)
qed

lemma open_step:
  assumes "ready c0 (c, s, w)" "k < length (srun_list c)"
  shows "returns (\<lambda>(ok, c', s', w'). same_runners c0 c' \<and> pools_ok (srun_list c') (set (open_fds w')) \<and>
      stream_ok s' \<and> s_write_buf s' = [] \<and> unread s' = [] \<and> s_pool s' = pool \<and> s_srun s' = Some k \<and>
      srun_list c' = (srun_list c)[k := fix_port (srun_list c ! k)] \<and>
      (if ok then 0 \<le> s_socket s' \<and> s_socket s' \<in> set (open_fds w') \<and> s_socket s' \<notin> idle (srun_list c')
       else s_socket s' < 0))
    (cse_open (int k) pool wait (c, s, w))"
proof -
  let ?r = "fix_port (srun_list c ! k)"
  have p: "pools_ok (srun_list c) (set (open_fds w))" using assms(1) by (simp add: ready_def)
  have same: "pools_ok ((srun_list c)[k := ?r]) (set (open_fds w))"
    using pools_ok_same_sockets(1) [OF p assms(2)] pools_okD(1) [OF p assms(2)] by simp
  have "same_runners c (put_srun (int k) ?r c)" using assms(2) by (intro same_runners_put) simp_all
  then have runners: "same_runners c0 (put_srun (int k) ?r c)"
    using assms(1) by (auto simp: ready_def elim: same_runners_trans)
  obtain d w' where "cse_open (int k) pool wait (c, s, w) =
      Inr (0 \<le> d, put_srun (int k) ?r c, open_stream k pool d s, w')"
    "pools_ok ((srun_list c)[k := ?r]) (set (open_fds w'))"
    "0 \<le> d \<longrightarrow> d \<in> set (open_fds w') \<and> d \<notin> idle ((srun_list c)[k := ?r]) \<and> \<not> nonblock w' d"
    "d < 0 \<longrightarrow> d = -1 \<and> set (open_fds w') = set (open_fds w)"
    by (rule cse_open_spec [OF assms(2) same, of pool wait s])
  then show ?thesis
    using assms(1) runners
    by (auto simp: open_stream_def reset_stream_def ready_def stream_ok_def unread_def)
qed

text \<open>\<open>cse_open\<close> followed by what the loops do when it succeeds.\<close>

definition open_and_mark :: "int \<Rightarrow> 32 word \<Rightarrow> nat \<Rightarrow> bool \<Rightarrow> config \<times> io \<Rightarrow> (bool \<times> config \<times> io) res" where
  "open_and_mark k t pool wait x = bindR (cse_open k pool wait x) (\<lambda>(ok, x).
     if ok then bindR (opened k t x) (\<lambda>x. Inr (True, x)) else Inr (False, x))"

lemma open_and_mark:
  assumes "ready c0 (c, s, w)" "k < length (srun_list c)"
  shows "returns (\<lambda>(ok, c', s', w'). if ok then connected c0 t pool k (c', s', w')
      else ready c0 (c', s', w') \<and> srun_list c' = (srun_list c)[k := fix_port (srun_list c ! k)])
    (open_and_mark (int k) t pool wait (c, s, w))"
proof -
  obtain y where y: "cse_open (int k) pool wait (c, s, w) = Inr y" "case y of (ok, c', s', w') \<Rightarrow>
      same_runners c0 c' \<and> pools_ok (srun_list c') (set (open_fds w')) \<and>
      stream_ok s' \<and> s_write_buf s' = [] \<and> unread s' = [] \<and> s_pool s' = pool \<and> s_srun s' = Some k \<and>
      srun_list c' = (srun_list c)[k := fix_port (srun_list c ! k)] \<and>
      (if ok then 0 \<le> s_socket s' \<and> s_socket s' \<in> set (open_fds w') \<and> s_socket s' \<notin> idle (srun_list c')
       else s_socket s' < 0)"
    by (rule returnsE [OF open_step [OF assms]])
  obtain ok c' s' w' where e: "y = (ok, c', s', w')" by (rule prod_cases4)
  note h = y(2) [unfolded e prod.case]
  let ?r = "srun_list c' ! k"
  let ?r' = "?r\<lparr>sr_is_dead := False, sr_last_time := t\<rparr>"
  have len: "k < length (srun_list c')" using h assms(2) by simp
  have "same_runners c' (put_srun (int k) ?r' c')" using len by (intro same_runners_put) simp_all
  then have runners: "same_runners c0 (put_srun (int k) ?r' c')" using h same_runners_trans by blast
  have p: "pools_ok (srun_list c') (set (open_fds w'))" using h by (elim conjE)
  have pools: "pools_ok ((srun_list c')[k := ?r']) (set (open_fds w'))" "idle ((srun_list c')[k := ?r']) \<subseteq> idle (srun_list c')"
    using pools_ok_same_sockets [OF p len, of ?r'] pools_okD(1) [OF p len] by simp_all
  show ?thesis
  proof (cases ok)
    case True
    then show ?thesis using h runners pools len unfolding open_and_mark_def y(1) e
      by (auto simp: opened_def connected_def stream_ok_def unread_def)
  next
    case False
    then show ?thesis using h unfolding open_and_mark_def y(1) e by (auto simp: ready_def)
  qed
qed

lemma open_then_mark:
  "bindR (cse_open k pool wait x) (\<lambda>(ok, x). if ok then bindR (opened k t x) (\<lambda>x. Inr (True, x)) else f x) =
   bindR (open_and_mark k t pool wait x) (\<lambda>(ok, x). if ok then Inr (True, x) else f x)"
  by (auto simp: open_and_mark_def bindR_def split: sum.splits prod.splits)

text \<open>How a search ends: connected to one of the runners \<open>ks\<close>, or ready to go on.\<close>

definition found :: "(nat \<Rightarrow> bool) \<Rightarrow> config \<Rightarrow> 32 word \<Rightarrow> nat \<Rightarrow> bool \<times> config \<times> io \<Rightarrow> bool" where
  "found K c0 t pool = (\<lambda>(ok, x). if ok then \<exists>k. K k \<and> connected c0 t pool k x else ready c0 x)"

lemma found_mono: "found K c0 t pool r \<Longrightarrow> (\<And>k. K k \<Longrightarrow> L k) \<Longrightarrow> found L c0 t pool r"
  by (auto simp: found_def split: if_splits)

lemma found_bind:
  assumes "returns (\<lambda>(ok, x'). if ok then connected c0 t pool k x' else ready c0 x') m" "K k"
    and "\<And>x'. ready c0 x' \<Longrightarrow> returns (found K c0 t pool) (f x')"
  shows "returns (found K c0 t pool) (bindR m (\<lambda>(ok, x). if ok then Inr (True, x) else f x))"
proof -
  obtain ok x' where e: "m = Inr (ok, x')" "if ok then connected c0 t pool k x' else ready c0 x'"
    using assms(1) by (auto simp: returns_iff)
  show ?thesis
  proof (cases ok)
    case True
    then show ?thesis using e assms(2) by (auto simp: found_def)
  next
    case False
    then show ?thesis using e assms(3) [of x'] by simp
  qed
qed

lemma ready_length: "ready c0 x \<Longrightarrow> length (srun_list (fst x)) = length (srun_list c0)"
  by (auto simp: ready_def dest: same_runners_length)

lemma ready_conf:
  "ready c0 x \<Longrightarrow> k < length (srun_list c0) \<Longrightarrow> sr_is_backup (srun_list (fst x) ! k) = sr_is_backup (srun_list c0 ! k)"
  by (auto simp: ready_def srun_conf_def dest: same_runners_nth)

lemma reuse_found:
  assumes "ready c0 x" "k < length (srun_list c0)"
  shows "returns (\<lambda>(ok, x'). if ok then connected c0 t pool k x' else ready c0 x') (cse_reuse_socket (int k) t pool x)"
proof -
  obtain c s w where x: "x = (c, s, w)" by (rule prod_cases3)
  have len: "k < length (srun_list c)" using ready_length [OF assms(1)] assms(2) x by simp
  have r: "ready c0 (c, s, w)" using assms(1) x by simp
  show ?thesis
  proof (cases "reusable t (srun_list c ! k)")
    case True
    show ?thesis unfolding x by (rule returns_mono [OF reuse_hit [OF r len True]]) auto
  next
    case False
    show ?thesis unfolding x by (rule returns_mono [OF reuse_miss [OF r len False]]) auto
  qed
qed

lemma open_found:
  assumes "ready c0 x" "k < length (srun_list c0)"
  shows "returns (\<lambda>(ok, x'). if ok then connected c0 t pool k x' else ready c0 x') (open_and_mark (int k) t pool wait x)"
proof -
  obtain c s w where x: "x = (c, s, w)" by (rule prod_cases3)
  have len: "k < length (srun_list c)" using ready_length [OF assms(1)] assms(2) x by simp
  have r: "ready c0 (c, s, w)" using assms(1) x by simp
  show ?thesis unfolding x by (rule returns_mono [OF open_and_mark [OF r len]]) (auto split: if_splits)
qed

lemma get_srun_fst [simp]:
  "k < length (srun_list (fst x)) \<Longrightarrow> get_srun (fst x) (int k) = Inr (srun_list (fst x) ! k)"
  by (rule get_srun_eq)

lemma reuse_loop_found:
  assumes "ready c0 x" "set ks \<subseteq> {..<length (srun_list c0)}"
  shows "returns (found (\<lambda>k. k \<in> set ks \<and> \<not> sr_is_backup (srun_list c0 ! k)) c0 t pool)
    (reuse_loop t pool (map int ks) x)"
  using assms
proof (induction ks arbitrary: x)
  case (Cons k ks)
  have k: "k < length (srun_list c0)" using Cons.prems by simp
  note b = ready_conf [OF Cons.prems(1) k] and len = ready_length [OF Cons.prems(1)]
  have ih: "returns (found (\<lambda>j. j \<in> set (k # ks) \<and> \<not> sr_is_backup (srun_list c0 ! j)) c0 t pool)
      (reuse_loop t pool (map int ks) x')" if "ready c0 x'" for x'
    using Cons.IH [OF that] Cons.prems(2) by (auto elim!: returns_mono found_mono)
  show ?case
  proof (cases "sr_is_backup (srun_list c0 ! k)")
    case True
    then show ?thesis using b k len ih [OF Cons.prems(1)] by simp
  next
    case False
    have "returns (found (\<lambda>j. j \<in> set (k # ks) \<and> \<not> sr_is_backup (srun_list c0 ! j)) c0 t pool)
        (bindR (cse_reuse_socket (int k) t pool x)
          (\<lambda>(ok, x). if ok then Inr (True, x) else reuse_loop t pool (map int ks) x))"
      by (rule found_bind [OF reuse_found [OF Cons.prems(1) k]]) (use ih False in auto)
    then show ?thesis using False b k len by simp
  qed
qed (simp add: found_def)

lemma primary_loop_found:
  assumes "ready c0 x" "set ks \<subseteq> {..<length (srun_list c0)}"
  shows "returns (found (\<lambda>k. k \<in> set ks \<and> (session < 0 \<longrightarrow> \<not> sr_is_backup (srun_list c0 ! k))) c0 t pool)
    (primary_loop session t pool (map int ks) x)"
  using assms
proof (induction ks arbitrary: x)
  case (Cons k ks)
  have k: "k < length (srun_list c0)" using Cons.prems by simp
  note b = ready_conf [OF Cons.prems(1) k] and len = ready_length [OF Cons.prems(1)]
  have g: "get_srun (fst x) (int k) = Inr (srun_list (fst x) ! k)" using k len by simp
  let ?K = "\<lambda>j. j \<in> set (k # ks) \<and> (session < 0 \<longrightarrow> \<not> sr_is_backup (srun_list c0 ! j))"
  have ih: "returns (found ?K c0 t pool) (primary_loop session t pool (map int ks) x')" if "ready c0 x'" for x'
    using Cons.IH [OF that] Cons.prems(2) by (auto elim!: returns_mono found_mono)
  show ?case
  proof (cases "session < 0 \<and> sr_is_backup (srun_list c0 ! k)")
    case True
    then show ?thesis using b k len ih [OF Cons.prems(1)] by simp
  next
    case False
    have K: "?K k" using False by auto
    have open_it: "returns (found ?K c0 t pool) (bindR (open_and_mark (int k) t pool False x')
        (\<lambda>(ok, x). if ok then Inr (True, x) else primary_loop session t pool (map int ks) x))" if "ready c0 x'" for x'
      by (rule found_bind [OF open_found [OF that k], where K = ?K, OF K]) (rule ih)
    have "returns (found ?K c0 t pool) (bindR (cse_reuse_socket (int k) t pool x)
        (\<lambda>(ok, x). if ok then Inr (True, x)
         else bindR (get_srun (fst x) (int k)) (\<lambda>srun.
           if sr_is_dead srun \<and> t \<le> sr_last_time srun + word_of_int (sr_dead_time srun)
           then primary_loop session t pool (map int ks) x
           else bindR (open_and_mark (int k) t pool False x)
             (\<lambda>(ok, x). if ok then Inr (True, x) else primary_loop session t pool (map int ks) x))))"
      by (rule found_bind [OF reuse_found [OF Cons.prems(1) k], where K = ?K, OF K])
        (use ih open_it ready_length k in simp)
    then show ?thesis unfolding list.map primary_loop.simps g bindR_simps b if_not_P [OF False] open_then_mark .
  qed
qed (simp add: found_def)

subsection \<open>The choice and the order of the runners\<close>

text \<open>At most 32768 runners: then no index computation of the loops overflows an \<open>int\<close>.\<close>

definition config_ok :: "config \<Rightarrow> bool" where
  "config_ok config \<longleftrightarrow> 0 \<le> srun_size config \<and> srun_size config \<le> srun_capacity config \<and>
     1 \<le> srun_capacity config \<and> int (length (srun_list config)) = srun_capacity config \<and>
     srun_size config \<le> 32768"

definition used_size :: "config \<Rightarrow> nat" where
  "used_size config = nat (if srun_size config < 1 then 1 else srun_size config)"

lemma used_size_bounds:
  assumes "config_ok config"
  shows "0 < used_size config" "used_size config \<le> length (srun_list config)" "used_size config \<le> 32768"
  using assms by (auto simp: used_size_def config_ok_def)

lemma c_int_small: "- 2147483648 \<le> n \<Longrightarrow> n < 2147483648 \<Longrightarrow> c_int n = n"
  by (simp add: c_int_def sint_sbintrunc' signed_take_bit_int_eq_self)

lemma host_at_mod:
  assumes "0 \<le> host" "host < n" "n \<le> 32768" "int i < n"
  shows "host_at host n i = (host + int i * (2 * (host AND 1) - 1)) mod n"
proof -
  let ?incr = "2 * (host AND 1) - 1"
  have incr: "?incr = 1 \<or> ?incr = -1" by (auto simp: and_one_eq mod2_eq_if)
  have step: "0 \<le> ?incr + n" "?incr + n \<le> 32769" using incr assms by auto
  have "0 \<le> int i * (?incr + n)" using step(1) by simp
  moreover have "int i * (?incr + n) \<le> 32767 * 32769"
  proof (rule mult_mono)
    show "int i \<le> 32767" using assms by simp
  qed (use step in auto)
  ultimately have range: "0 \<le> host + int i * (?incr + n)" "host + int i * (?incr + n) < 2147483648" using assms by auto
  have "host_at host n i = (host + int i * (?incr + n)) mod n"
    using range assms by (simp add: host_at_def c_int_small smod_mod_positive)
  also have "host + int i * (?incr + n) = (host + int i * ?incr) + int i * n" by (simp add: algebra_simps)
  finally show ?thesis by simp
qed

lemma host_order_visits:
  assumes "0 \<le> host" "host < n" "n \<le> 32768"
  shows "distinct (host_order host n)" "set (host_order host n) = {0..<n}" "hd (host_order host n) = host"
    "host_order host n \<noteq> []"
proof -
  let ?incr = "2 * (host AND 1) - 1"
  have incr: "?incr = 1 \<or> ?incr = -1" by (auto simp: and_one_eq mod2_eq_if)
  have inj: "inj_on (host_at host n) {0..<nat n}"
  proof (rule inj_onI)
    fix i j assume "i \<in> {0..<nat n}" "j \<in> {0..<nat n}" and e: "host_at host n i = host_at host n j"
    then have b: "int i < n" "int j < n" by auto
    have "(host + int i * ?incr) mod n = (host + int j * ?incr) mod n"
      using e host_at_mod [OF assms b(1)] host_at_mod [OF assms b(2)] by simp
    then have "n dvd (host + int i * ?incr) - (host + int j * ?incr)" by (simp add: mod_eq_dvd_iff)
    then have "n dvd int i - int j" using incr by (auto simp: dvd_diff_commute algebra_simps)
    moreover have "\<bar>int i - int j\<bar> < n" using b assms by auto
    ultimately show "i = j" using dvd_imp_le_int [of "int i - int j" n] by force
  qed
  then show d: "distinct (host_order host n)" by (simp add: host_order_def distinct_map)
  have sub: "set (host_order host n) \<subseteq> {0..<n}"
    using assms host_at_mod [OF assms] by (auto simp: host_order_def)
  have "card (set (host_order host n)) = card {0..<n}"
    using distinct_card [OF d] by (simp add: host_order_def)
  then show "set (host_order host n) = {0..<n}" using card_subset_eq [OF _ sub] by simp
  have "0 < nat n" using assms by simp
  then have up: "[0..<nat n] = 0 # [1..<nat n]" using upt_conv_Cons by simp
  then show "hd (host_order host n) = host" using host_at_mod [OF assms, of 0] assms by (simp add: host_order_def)
  show "host_order host n \<noteq> []" using up by (simp add: host_order_def)
qed

lemma session_host_spec:
  assumes "0 \<le> h" "h \<le> n" "n \<le> int (length (srun_list config))"
  shows "returns (\<lambda>r. h \<le> r \<and> r \<le> n \<and> (r < n \<longrightarrow> sr_session (srun_list config ! nat r) = session) \<and>
      (\<forall>j. h \<le> j \<and> j < r \<longrightarrow> sr_session (srun_list config ! nat j) \<noteq> session)) (session_host config session n h)"
  using assms
proof (induction "nat (n - h)" arbitrary: h)
  case 0
  then show ?case by (subst session_host.simps) simp
next
  case (Suc m)
  then have h: "h < n" by simp
  have g: "get_srun config h = Inr (srun_list config ! nat h)" using h Suc.prems by (simp add: get_srun_def)
  show ?case
  proof (cases "sr_session (srun_list config ! nat h) = session")
    case True
    then show ?thesis using h g Suc.prems by (subst session_host.simps) simp
  next
    case False
    have "m = nat (n - (h + 1))" "0 \<le> h + 1" "h + 1 \<le> n" using Suc h by auto
    note ih = Suc.hyps(1) [OF this Suc.prems(3)]
    have "j = h \<or> h + 1 \<le> j" if "h \<le> j" for j using that by auto
    then show ?thesis using h g False
      by (subst session_host.simps) (auto intro!: returns_mono [OF ih])
  qed
qed

lemma random_choice_bounds:
  assumes "0 < n"
  shows "\<bar>x smod n\<bar> < (n::int)"
  using smod_int_range [of n x] assms by auto

lemma choose_host_spec:
  assumes "0 < n" "n \<le> int (length (srun_list config))"
  shows "returns (\<lambda>(h, g'). 0 \<le> h \<and> h < n \<and>
      (0 \<le> session \<longrightarrow> (\<exists>k. 0 \<le> k \<and> k < n \<and> sr_session (srun_list config ! nat k) = session) \<longrightarrow>
        sr_session (srun_list config ! nat h) = session \<and> g' = g \<and>
        (\<forall>j. 0 \<le> j \<and> j < h \<longrightarrow> sr_session (srun_list config ! nat j) \<noteq> session)))
    (choose_host config n session ip t rand g)"
proof -
  obtain r g1 where r: "random_host ip t rand g = (r, g1)" by (rule prod.exhaust)
  have b: "r smod n < n" "- (r smod n) < n" using random_choice_bounds [OF assms(1), of r] by auto
  show ?thesis
  proof (cases "session < 0")
    case True
    then show ?thesis using b r by (simp add: choose_host_def)
  next
    case False
    have "0 \<le> n" using assms(1) by simp
    note s = session_host_spec [OF order_refl this assms(2), of session]
    then obtain h where h: "session_host config session n 0 = Inr h" "0 \<le> h" "h \<le> n"
      "h < n \<longrightarrow> sr_session (srun_list config ! nat h) = session"
      "\<forall>j. 0 \<le> j \<and> j < h \<longrightarrow> sr_session (srun_list config ! nat j) \<noteq> session"
      by (auto simp: returns_iff)
    then show ?thesis using False b r by (auto simp: choose_host_def)
  qed
qed

lemma reuse_or_untouched:
  assumes "ready c0 x" "k < length (srun_list c0)"
  shows "returns (\<lambda>(ok, x'). if ok then connected c0 t pool k x' else ready c0 x' \<and>
      sr_n_sockets (srun_list (fst x') ! k) = 0 \<and> conns (snd (snd x')) = conns (snd (snd x)) \<and>
      (\<forall>j. j \<noteq> k \<longrightarrow> srun_list (fst x') ! j = srun_list (fst x) ! j))
    (cse_reuse_socket (int k) t pool x)"
proof -
  obtain c s w where x: "x = (c, s, w)" by (rule prod_cases3)
  have len: "k < length (srun_list c)" using ready_length [OF assms(1)] assms(2) x by simp
  have r: "ready c0 (c, s, w)" using assms(1) x by simp
  show ?thesis
  proof (cases "reusable t (srun_list c ! k)")
    case True
    show ?thesis unfolding x by (rule returns_mono [OF reuse_hit [OF r len True]]) auto
  next
    case False
    show ?thesis unfolding x by (rule returns_mono [OF reuse_miss [OF r len False]]) (use len in auto)
  qed
qed

lemma open_or_untouched:
  assumes "ready c0 x" "k < length (srun_list c0)"
  shows "returns (\<lambda>(ok, x'). if ok then connected c0 t pool k x' else ready c0 x' \<and>
      sr_n_sockets (srun_list (fst x') ! k) = sr_n_sockets (srun_list (fst x) ! k) \<and>
      (\<forall>j. j \<noteq> k \<longrightarrow> srun_list (fst x') ! j = srun_list (fst x) ! j))
    (open_and_mark (int k) t pool wait x)"
proof -
  obtain c s w where x: "x = (c, s, w)" by (rule prod_cases3)
  have len: "k < length (srun_list c)" using ready_length [OF assms(1)] assms(2) x by simp
  have r: "ready c0 (c, s, w)" using assms(1) x by simp
  show ?thesis unfolding x by (rule returns_mono [OF open_and_mark [OF r len]]) (use len in \<open>auto split: if_splits\<close>)
qed

text \<open>The last loop gives up only after it has marked every runner dead.\<close>

definition marked_dead :: "32 word \<Rightarrow> nat set \<Rightarrow> config \<times> io \<Rightarrow> bool" where
  "marked_dead t K = (\<lambda>(c, x). \<forall>k \<in> K. sr_is_dead (srun_list c ! k) \<and> sr_last_time (srun_list c ! k) = t \<and>
     sr_n_sockets (srun_list c ! k) = 0)"

lemma mark_dead:
  assumes "ready c0 x" "k < length (srun_list c0)" "sr_n_sockets (srun_list (fst x) ! k) = 0"
  shows "ready c0 (put_srun (int k) ((srun_list (fst x) ! k)\<lparr>sr_is_dead := True, sr_last_time := t\<rparr>) (fst x), snd x)"
proof -
  obtain c s w where x: "x = (c, s, w)" by (rule prod_cases3)
  let ?r = "srun_list c ! k"
  let ?r' = "?r\<lparr>sr_is_dead := True, sr_last_time := t\<rparr>"
  have len: "k < length (srun_list c)" using ready_length [OF assms(1)] assms(2) x by simp
  have p: "pools_ok (srun_list c) (set (open_fds w))" using assms(1) x by (simp add: ready_def)
  have "pools_ok ((srun_list c)[k := ?r']) (set (open_fds w))"
    using pools_ok_same_sockets(1) [OF p len] pools_okD(1) [OF p len] by simp
  moreover have "same_runners c (put_srun (int k) ?r' c)" using len by (intro same_runners_put) simp_all
  ultimately show ?thesis using assms(1) x by (auto simp: ready_def elim: same_runners_trans)
qed

lemma last_resort_loop_found:
  assumes "ready c0 x" "set ks \<subseteq> {..<length (srun_list c0)}" "distinct ks" "marked_dead t D x" "D \<inter> set ks = {}"
  shows "returns (\<lambda>(ok, x'). found (\<lambda>k. k \<in> set ks) c0 t pool (ok, x') \<and> (\<not> ok \<longrightarrow> marked_dead t (D \<union> set ks) x'))
    (last_resort_loop t pool (map int ks) x)"
  using assms
proof (induction ks arbitrary: x D)
  case (Cons k ks)
  have k: "k < length (srun_list c0)" and D: "k \<notin> D" and ks: "k \<notin> set ks"
    using Cons.prems by auto
  let ?P = "\<lambda>(ok, x'). found (\<lambda>j. j \<in> set (k # ks)) c0 t pool (ok, x') \<and> (\<not> ok \<longrightarrow> marked_dead t (D \<union> set (k # ks)) x')"
  have done_ok: "returns ?P (Inr (True, x'))" if "connected c0 t pool k x'" for x'
    using that by (auto simp: found_def)
  have rest: "returns ?P (last_resort_loop t pool (map int ks)
      (put_srun (int k) ((srun_list (fst x') ! k)\<lparr>sr_is_dead := True, sr_last_time := t\<rparr>) (fst x'), snd x'))"
    if h: "ready c0 x'" "sr_n_sockets (srun_list (fst x') ! k) = 0"
      "\<forall>j. j \<noteq> k \<longrightarrow> srun_list (fst x') ! j = srun_list (fst x) ! j" for x'
  proof -
    let ?x = "(put_srun (int k) ((srun_list (fst x') ! k)\<lparr>sr_is_dead := True, sr_last_time := t\<rparr>) (fst x'), snd x')"
    have r: "ready c0 ?x" by (rule mark_dead [OF h(1) k h(2)])
    have len: "k < length (srun_list (fst x'))" using ready_length [OF h(1)] k by simp
    have "marked_dead t (insert k D) ?x"
      using Cons.prems(4) h len D by (auto simp: marked_dead_def nth_list_update split: prod.splits)
    from Cons.IH [OF r _ _ this] show ?thesis
      using Cons.prems(2,3,5) ks by (auto elim!: returns_mono simp: found_def)
  qed
  have second: "returns ?P (bindR (open_and_mark (int k) t pool True x') (\<lambda>(ok, x). if ok then Inr (True, x)
      else bindR (get_srun (fst x) (int k)) (\<lambda>srun. last_resort_loop t pool (map int ks)
             (put_srun (int k) (srun\<lparr>sr_is_dead := True, sr_last_time := t\<rparr>) (fst x), snd x))))"
    if h: "ready c0 x'" "sr_n_sockets (srun_list (fst x') ! k) = 0"
      "\<forall>j. j \<noteq> k \<longrightarrow> srun_list (fst x') ! j = srun_list (fst x) ! j" for x'
  proof (rule returns_if [OF open_or_untouched [OF h(1) k]])
    fix x'' assume u: "ready c0 x'' \<and> sr_n_sockets (srun_list (fst x'') ! k) = sr_n_sockets (srun_list (fst x') ! k) \<and>
        (\<forall>j. j \<noteq> k \<longrightarrow> srun_list (fst x'') ! j = srun_list (fst x') ! j)"
    then have "k < length (srun_list (fst x''))" using ready_length [of c0 x''] k by simp
    then show "returns ?P (bindR (get_srun (fst x'') (int k)) (\<lambda>srun. last_resort_loop t pool (map int ks)
        (put_srun (int k) (srun\<lparr>sr_is_dead := True, sr_last_time := t\<rparr>) (fst x''), snd x'')))"
      using rest [of x''] h u by simp
  qed (rule done_ok)
  show ?case unfolding list.map last_resort_loop.simps open_then_mark
    by (rule returns_if [OF reuse_or_untouched [OF Cons.prems(1) k]]) (use done_ok second in blast)+
qed (simp add: found_def)

subsection \<open>A whole search\<close>

lemma host_order_nat:
  assumes "0 \<le> h" "h < int n" "n \<le> 32768"
  obtains ks where "host_order h (int n) = map int ks" "distinct ks" "set ks = {..<n}" "ks \<noteq> []" "int (hd ks) = h"
proof -
  have b: "int n \<le> 32768" using assms(3) by simp
  note v = host_order_visits [OF assms(1,2) b]
  let ?ks = "map nat (host_order h (int n))"
  have id: "map int ?ks = host_order h (int n)"
    by (simp only: map_map, rule map_idI) (use v(2) in auto)
  have "set ?ks = {..<n}" using v(2) by (auto simp: image_iff) (metis atLeastLessThan_iff nat_int of_nat_0_le_iff of_nat_less_iff)
  moreover have "distinct ?ks" using v(1,2) by (auto simp: distinct_map inj_on_def)
  moreover have "int (hd ?ks) = h" using v(3,4) assms(1) by (simp add: hd_map)
  ultimately show thesis using that [of ?ks] id v(4) by simp
qed

text \<open>The three loops over one order of the runners.\<close>

definition search :: "int \<Rightarrow> 32 word \<Rightarrow> nat \<Rightarrow> nat list \<Rightarrow> config \<times> io \<Rightarrow> (bool \<times> config \<times> io) res" where
  "search session t pool ks x =
     bindR (if session < 0 then reuse_loop t pool (map int ks) x else Inr (False, x)) (\<lambda>(ok, x).
     bindR (if ok then Inr (True, x) else primary_loop session t pool (map int ks) x) (\<lambda>(ok, x).
       if ok then Inr (True, x) else last_resort_loop t pool (map int ks) x))"

lemma open_connection_search:
  assumes "config_ok (fst x)"
  obtains ks g' where "open_connection session ip t rand pool g x = bindR (search session t pool ks x) (\<lambda>(ok, x). Inr (ok, g', x))"
    "distinct ks" "set ks = {..<used_size (fst x)}" "ks \<noteq> []" "set ks \<subseteq> {..<length (srun_list (fst x))}"
    "0 \<le> session \<longrightarrow> (\<exists>k < used_size (fst x). sr_session (srun_list (fst x) ! k) = session) \<longrightarrow>
       sr_session (srun_list (fst x) ! hd ks) = session"
proof -
  let ?c = "fst x"
  note u = used_size_bounds [OF assms(1)]
  have sz: "(if srun_size ?c < 1 then 1 else srun_size ?c) = int (used_size ?c)"
    using assms(1) by (simp add: used_size_def config_ok_def)
  have n: "0 < int (used_size ?c)" "int (used_size ?c) \<le> int (length (srun_list ?c))" using u by auto
  obtain h g' where h: "choose_host ?c (int (used_size ?c)) session ip t rand g = Inr (h, g')"
    "0 \<le> h" "h < int (used_size ?c)"
    "0 \<le> session \<longrightarrow> (\<exists>k. 0 \<le> k \<and> k < int (used_size ?c) \<and> sr_session (srun_list ?c ! nat k) = session) \<longrightarrow>
        sr_session (srun_list ?c ! nat h) = session"
    using choose_host_spec [OF n, where session = session and ip = ip and t = t and rand = rand and g = g]
    by (auto simp: returns_iff)
  obtain ks where ks: "host_order h (int (used_size ?c)) = map int ks" "distinct ks" "set ks = {..<used_size ?c}"
      "ks \<noteq> []" "int (hd ks) = h"
    by (rule host_order_nat [OF h(2,3) u(3)])
  show thesis
  proof (rule that [OF _ ks(2,3,4)])
    show "open_connection session ip t rand pool g x = bindR (search session t pool ks x) (\<lambda>(ok, x). Inr (ok, g', x))"
      unfolding open_connection_def Let_def sz h(1) bindR_simps prod.case ks(1) search_def bindR_assoc
      by (simp add: split_def bindR_assoc)
    show "set ks \<subseteq> {..<length (srun_list ?c)}" using ks(3) u(2) by auto
    show "0 \<le> session \<longrightarrow> (\<exists>k < used_size ?c. sr_session (srun_list ?c ! k) = session) \<longrightarrow>
        sr_session (srun_list ?c ! hd ks) = session"
      using h(4) ks(5) by (metis nat_int of_nat_0_le_iff of_nat_less_iff)
  qed
qed

lemma search_found:
  assumes "ready c x" "set ks \<subseteq> {..<length (srun_list c)}" "distinct ks"
  shows "returns (\<lambda>(ok, x'). found (\<lambda>k. k \<in> set ks) c t pool (ok, x') \<and> (\<not> ok \<longrightarrow> marked_dead t (set ks) x'))
    (search session t pool ks x)"
proof -
  let ?F = "found (\<lambda>k. k \<in> set ks) c t pool"
  let ?L = "\<lambda>(ok, x'). ?F (ok, x') \<and> (\<not> ok \<longrightarrow> marked_dead t (set ks) x')"
  have one: "returns ?F (if session < 0 then reuse_loop t pool (map int ks) x else Inr (False, x))"
  proof (cases "session < 0")
    case True
    show ?thesis unfolding if_P [OF True]
      by (rule returns_mono [OF reuse_loop_found [OF assms(1,2)]]) (erule found_mono, blast)
  qed (use assms(1) in \<open>simp add: found_def\<close>)
  have two: "returns ?F (if ok then Inr (True, x) else primary_loop session t pool (map int ks) x)" if "?F (ok, x)" for ok x
  proof (cases ok)
    case False
    then have "ready c x" using that by (simp add: found_def)
    from primary_loop_found [OF this assms(2)] show ?thesis unfolding if_not_P [OF False]
      by (rule returns_mono) (erule found_mono, blast)
  qed (use that in simp)
  have three: "returns ?L (if ok then Inr (True, x) else last_resort_loop t pool (map int ks) x)" if "?F (ok, x)" for ok x
  proof (cases ok)
    case False
    then have "ready c x" using that by (simp add: found_def)
    moreover have "marked_dead t {} x" "{} \<inter> set ks = {}" by (auto simp: marked_dead_def)
    ultimately show ?thesis unfolding if_not_P [OF False]
      using last_resort_loop_found [OF _ assms(2,3), of x t "{}" pool] by simp
  qed (use that in simp)
  show ?thesis unfolding search_def
    by (rule returns_seq [OF one], rule returns_seq [OF two], assumption, erule three)
qed

lemma open_connection_spec:
  assumes "config_ok c" "ready c (c, s, w)"
  shows "returns (\<lambda>(ok, g', x'). if ok then \<exists>k < used_size c. connected c t pool k x'
      else ready c x' \<and> marked_dead t {..<used_size c} x')
    (open_connection session ip t rand pool g (c, s, w))"
proof -
  have "config_ok (fst (c, s, w))" using assms(1) by simp
  then obtain ks g' where ks: "open_connection session ip t rand pool g (c, s, w) =
      bindR (search session t pool ks (c, s, w)) (\<lambda>(ok, x). Inr (ok, g', x))"
    "distinct ks" "set ks = {..<used_size c}" "set ks \<subseteq> {..<length (srun_list c)}"
    by (rule open_connection_search [where session = session and ip = ip and t = t and rand = rand and g = g and pool = pool]) simp
  show ?thesis unfolding ks(1)
    by (rule returns_seq [OF search_found [OF assms(2) ks(4,2)]]) (use ks(3) in \<open>auto simp: found_def split: if_splits\<close>)
qed

lemma ready_reset:
  assumes "pools_ok (srun_list c) (set (open_fds w))" "stream_ok s"
  shows "ready c (c, (reset_stream pool s)\<lparr>s_srun := None\<rparr>, w)"
  using assms by (auto simp: ready_def reset_stream_def stream_ok_def)

lemma connected_cleanup:
  "connected c t pool k (c', s, cse_set_socket_cleanup d p w) = connected c t pool k (c', s, w)"
  by (simp add: connected_def)

lemma cse_open_connection_spec:
  assumes "config_ok c" "pools_ok (srun_list c) (set (open_fds w))" "stream_ok s"
  shows "returns (\<lambda>(ok, g', x'). if ok then \<exists>k < used_size c. connected c t pool k x'
      else ready c x' \<and> marked_dead t {..<used_size c} x')
    (cse_open_connection session ip t rand pool g (c, s, w))"
proof -
  obtain ok g' c' s' w' where "open_connection session ip t rand pool g (c, (reset_stream pool s)\<lparr>s_srun := None\<rparr>, w) =
      Inr (ok, g', c', s', w')"
    "if ok then \<exists>k < used_size c. connected c t pool k (c', s', w')
     else ready c (c', s', w') \<and> marked_dead t {..<used_size c} (c', s', w')"
    using open_connection_spec [OF assms(1) ready_reset [OF assms(2,3), of pool], where session = session and ip = ip
      and t = t and rand = rand and pool = pool and g = g] by (auto simp: returns_iff)
  then show ?thesis by (cases ok) (auto simp: cse_open_connection_def Let_def connected_cleanup)
qed

text \<open>A network that answers: the next connection attempt succeeds.\<close>

definition next_succeeds :: "world \<Rightarrow> bool" where
  "next_succeeds w \<longleftrightarrow> (case conns w of [] \<Rightarrow> False | c # cs \<Rightarrow> c_socket_ok c \<and> c_connect c = ConnectOk)"

lemma connect_succeeds:
  assumes "next_succeeds w"
  shows "0 \<le> fst (cse_connect addr port w)" "0 \<le> fst (cse_connect_wait addr port w)"
  using assms
  by (auto simp: next_succeeds_def cse_connect_def cse_connect_wait_def connect_unfold split: list.splits)

lemma open_succeeds:
  assumes "k < length (srun_list c)" "next_succeeds w"
  shows "returns (\<lambda>(ok, x). ok) (open_and_mark (int k) t pool wait (c, s, w))"
proof -
  let ?r = "srun_list c ! k"
  let ?addr = "case sr_host ?r of Some host \<Rightarrow> host | None \<Rightarrow> INADDR_LOOPBACK"
  let ?port = "sr_port (fix_port ?r) mod 65536"
  have tmo: "sr_connect_timeout (fix_port ?r) = sr_connect_timeout ?r" by (simp add: fix_port_def)
  obtain d w' where e: "(if wait \<or> sr_connect_timeout ?r \<le> 0 then cse_connect_wait ?addr ?port w
      else cse_connect ?addr ?port w) = (d, w')" by (metis surj_pair)
  have "0 \<le> fst (if wait \<or> sr_connect_timeout ?r \<le> 0 then cse_connect_wait ?addr ?port w
      else cse_connect ?addr ?port w)" using connect_succeeds [OF assms(2)] by simp
  then have "0 \<le> d" unfolding e by simp
  then have "cse_open (int k) pool wait (c, s, w) =
      Inr (True, put_srun (int k) (fix_port ?r) c, open_stream k pool d s, w')"
    using assms(1) e tmo by (simp add: cse_open_def Let_def fix_port_def [symmetric] open_stream_def)
  then show ?thesis using assms(1) by (simp add: open_and_mark_def opened_def)
qed

lemma last_resort_succeeds:
  assumes "ready c0 x" "k < length (srun_list c0)" "next_succeeds (snd (snd x))"
  shows "returns (\<lambda>(ok, x). ok) (last_resort_loop t pool (map int (k # ks)) x)"
  unfolding list.map last_resort_loop.simps open_then_mark
proof (rule returns_if [OF reuse_or_untouched [OF assms(1,2)]])
  fix x' assume h: "ready c0 x' \<and> sr_n_sockets (srun_list (fst x') ! k) = 0 \<and> conns (snd (snd x')) = conns (snd (snd x)) \<and>
      (\<forall>j. j \<noteq> k \<longrightarrow> srun_list (fst x') ! j = srun_list (fst x) ! j)"
  obtain c s w where x': "x' = (c, s, w)" by (rule prod_cases3)
  have "k < length (srun_list c)" "next_succeeds w" using h ready_length [of c0 x'] assms(2,3)
    by (simp_all add: x' next_succeeds_def)
  from open_succeeds [OF this, of t pool True s]
  show "returns (\<lambda>(ok, x). ok) (bindR (open_and_mark (int k) t pool True x') (\<lambda>(ok, x). if ok then Inr (True, x)
      else bindR (get_srun (fst x) (int k)) (\<lambda>srun. last_resort_loop t pool (map int ks)
             (put_srun (int k) (srun\<lparr>sr_is_dead := True, sr_last_time := t\<rparr>) (fst x), snd x))))"
    unfolding x' by (auto simp: returns_iff)
qed simp

lemma reuse_loop_conns:
  assumes "ready c0 x" "set ks \<subseteq> {..<length (srun_list c0)}"
  shows "returns (\<lambda>(ok, x'). if ok then True else ready c0 x' \<and> conns (snd (snd x')) = conns (snd (snd x)))
    (reuse_loop t pool (map int ks) x)"
  using assms
proof (induction ks arbitrary: x)
  case (Cons k ks)
  have k: "k < length (srun_list c0)" using Cons.prems by simp
  have g: "get_srun (fst x) (int k) = Inr (srun_list (fst x) ! k)" using k ready_length [OF Cons.prems(1)] by simp
  let ?P = "\<lambda>(ok, x'). if ok then True else ready c0 x' \<and> conns (snd (snd x')) = conns (snd (snd x))"
  have ih: "returns ?P (reuse_loop t pool (map int ks) x')"
    if "ready c0 x'" "conns (snd (snd x')) = conns (snd (snd x))" for x'
    by (rule returns_mono [OF Cons.IH [OF that(1)]]) (use Cons.prems(2) that(2) in auto)
  have "returns ?P (bindR (cse_reuse_socket (int k) t pool x)
      (\<lambda>(ok, x). if ok then Inr (True, x) else reuse_loop t pool (map int ks) x))"
    by (rule returns_if [OF reuse_or_untouched [OF Cons.prems(1) k]]) (simp, rule ih, simp_all)
  then show ?case using g ih [OF Cons.prems(1) refl] by simp
qed simp

lemma primary_loop_succeeds:
  assumes "ready c0 x" "set ks \<subseteq> {..<length (srun_list c0)}" "next_succeeds (snd (snd x))"
  shows "returns (\<lambda>(ok, x'). if ok then True else ready c0 x' \<and> next_succeeds (snd (snd x')))
    (primary_loop session t pool (map int ks) x)"
  using assms
proof (induction ks arbitrary: x)
  case (Cons k ks)
  have k: "k < length (srun_list c0)" using Cons.prems by simp
  have g: "get_srun (fst x) (int k) = Inr (srun_list (fst x) ! k)" using k ready_length [OF Cons.prems(1)] by simp
  let ?P = "\<lambda>(ok, x'). if ok then True else ready c0 x' \<and> next_succeeds (snd (snd x'))"
  have ih: "returns ?P (primary_loop session t pool (map int ks) x')"
    if "ready c0 x'" "next_succeeds (snd (snd x'))" for x'
    using Cons.IH [OF that(1)] Cons.prems(2) that(2) by simp
  have open_it: "returns ?P (bindR (open_and_mark (int k) t pool False x')
      (\<lambda>(ok, x). if ok then Inr (True, x) else primary_loop session t pool (map int ks) x))"
    if "ready c0 x'" "next_succeeds (snd (snd x'))" for x'
  proof -
    obtain c s w where x': "x' = (c, s, w)" by (rule prod_cases3)
    have "k < length (srun_list c)" "next_succeeds w" using that ready_length [OF that(1)] k by (simp_all add: x')
    from open_succeeds [OF this, of t pool False s] show ?thesis unfolding x' by (auto simp: returns_iff)
  qed
  have "returns ?P (bindR (cse_reuse_socket (int k) t pool x) (\<lambda>(ok, x). if ok then Inr (True, x)
       else bindR (get_srun (fst x) (int k)) (\<lambda>srun.
           if sr_is_dead srun \<and> t \<le> sr_last_time srun + word_of_int (sr_dead_time srun)
           then primary_loop session t pool (map int ks) x
           else bindR (open_and_mark (int k) t pool False x)
             (\<lambda>(ok, x). if ok then Inr (True, x) else primary_loop session t pool (map int ks) x))))"
  proof (rule returns_if [OF reuse_or_untouched [OF Cons.prems(1) k]])
    fix x' assume h: "ready c0 x' \<and> sr_n_sockets (srun_list (fst x') ! k) = 0 \<and> conns (snd (snd x')) = conns (snd (snd x)) \<and>
      (\<forall>j. j \<noteq> k \<longrightarrow> srun_list (fst x') ! j = srun_list (fst x) ! j)"
    then have r: "ready c0 x'" "next_succeeds (snd (snd x'))" using Cons.prems(3) by (simp_all add: next_succeeds_def)
    then show "returns ?P (bindR (get_srun (fst x') (int k)) (\<lambda>srun.
           if sr_is_dead srun \<and> t \<le> sr_last_time srun + word_of_int (sr_dead_time srun)
           then primary_loop session t pool (map int ks) x'
           else bindR (open_and_mark (int k) t pool False x')
             (\<lambda>(ok, x). if ok then Inr (True, x) else primary_loop session t pool (map int ks) x)))"
      using ih [OF r] open_it [OF r] ready_length [OF r(1)] k by simp
  qed simp
  then show ?case unfolding list.map primary_loop.simps g bindR_simps open_then_mark
    using ih [OF Cons.prems(1,3)] by simp
qed simp

lemma search_succeeds:
  assumes "ready c x" "set ks \<subseteq> {..<length (srun_list c)}" "ks \<noteq> []" "next_succeeds (snd (snd x))"
  shows "returns (\<lambda>(ok, x). ok) (search session t pool ks x)"
proof -
  let ?P = "\<lambda>(ok, x'). if ok then True else ready c x' \<and> next_succeeds (snd (snd x'))"
  have one: "returns ?P (if session < 0 then reuse_loop t pool (map int ks) x else Inr (False, x))"
  proof (cases "session < 0")
    case True
    show ?thesis unfolding if_P [OF True]
      by (rule returns_mono [OF reuse_loop_conns [OF assms(1,2)]]) (use assms(4) in \<open>auto simp: next_succeeds_def\<close>)
  qed (use assms in simp)
  have two: "returns ?P (if ok then Inr (True, x) else primary_loop session t pool (map int ks) x)" if "?P (ok, x)" for ok x
  proof (cases ok)
    case False
    then have "ready c x" "next_succeeds (snd (snd x))" using that by simp_all
    from primary_loop_succeeds [OF this(1) assms(2) this(2)] False show ?thesis by simp
  qed simp
  have three: "returns (\<lambda>(ok, x). ok) (if ok then Inr (True, x) else last_resort_loop t pool (map int ks) x)" if "?P (ok, x)" for ok x
  proof (cases ok)
    case False
    then have r: "ready c x" "next_succeeds (snd (snd x))" using that by simp_all
    obtain k ks' where k: "ks = k # ks'" using assms(3) by (cases ks) auto
    then have "k < length (srun_list c)" using assms(2) by simp
    from last_resort_succeeds [OF r(1) this r(2)] False show ?thesis by (simp add: k)
  qed simp
  show ?thesis unfolding search_def
    by (rule returns_seq [OF one], rule returns_seq [OF two], assumption, erule three)
qed

lemma reuse_loop_hits:
  assumes "ready c0 x" "set ks \<subseteq> {..<length (srun_list c0)}" "k \<in> set ks"
    and "\<not> sr_is_backup (srun_list c0 ! k)" "reusable t (srun_list (fst x) ! k)"
  shows "returns (\<lambda>(ok, x'). ok) (reuse_loop t pool (map int ks) x)"
  using assms
proof (induction ks arbitrary: x)
  case (Cons j ks)
  have j: "j < length (srun_list c0)" using Cons.prems by simp
  obtain c s w where x: "x = (c, s, w)" by (rule prod_cases3)
  have len: "j < length (srun_list c)" using ready_length [OF Cons.prems(1)] j x by simp
  have g: "get_srun (fst x) (int j) = Inr (srun_list (fst x) ! j)" using len x by simp
  note b = ready_conf [OF Cons.prems(1) j]
  have r: "ready c0 (c, s, w)" using Cons.prems(1) x by simp
  show ?case
  proof (cases "sr_is_backup (srun_list c0 ! j)")
    case True
    then have "k \<in> set ks" using Cons.prems by auto
    from Cons.IH [OF Cons.prems(1) _ this Cons.prems(4,5)] show ?thesis using True b g Cons.prems(2) by simp
  next
    case False
    show ?thesis
    proof (cases "reusable t (srun_list c ! j)")
      case True
      from reuse_hit [OF r len True, of pool] False b g show ?thesis by (auto simp: x returns_iff)
    next
      case miss: False
      then have k: "k \<in> set ks" "k \<noteq> j" using Cons.prems(3,5) x by auto
      obtain c' s' w' where "cse_reuse_socket (int j) t pool x = Inr (False, c', s', w')" "ready c0 (c', s', w')"
        "srun_list c' ! k = srun_list c ! k"
        using reuse_miss [OF r len miss, of pool] k(2) by (auto simp: x returns_iff)
      with Cons.IH [of "(c', s', w')"] Cons.prems(2,4,5) k(1) False b g show ?thesis by (simp add: x)
    qed
  qed
qed simp


text \<open>A request of a session starts with the session's runner.\<close>

lemma primary_loop_first_reuse:
  assumes "ready c0 (c, s, w)" "k < length (srun_list c)" "0 \<le> session" "reusable t (srun_list c ! k)"
  shows "returns (\<lambda>(ok, c', s', w'). ok \<and> connected c0 t pool k (c', s', w') \<and>
      s_socket s' = last (sockets_of (srun_list c ! k)) \<and> w' = w)
    (primary_loop session t pool (map int (k # ks)) (c, s, w))"
proof -
  obtain c' s' where "cse_reuse_socket (int k) t pool (c, s, w) = Inr (True, c', s', w)"
    "connected c0 t pool k (c', s', w)" "s_socket s' = last (sockets_of (srun_list c ! k))"
    using reuse_hit [OF assms(1,2,4), of pool] by (auto simp: returns_iff)
  then show ?thesis using assms(2,3) by simp
qed

text \<open>Whether the dead-time check of the second loop skips a runner.\<close>

definition skipped :: "32 word \<Rightarrow> srun \<Rightarrow> bool" where
  "skipped t srun \<longleftrightarrow> sr_is_dead srun \<and>
     sr_last_time (clamp_time t srun) + word_of_int (sr_dead_time srun) \<ge> t"

lemma primary_loop_first_open:
  assumes "ready c0 (c, s, w)" "k < length (srun_list c)" "session < 0 \<longrightarrow> \<not> sr_is_backup (srun_list c ! k)"
    and "\<not> skipped t (srun_list c ! k)" "next_succeeds w"
  shows "returns (\<lambda>(ok, x'). ok \<and> connected c0 t pool k x') (primary_loop session t pool (map int (k # ks)) (c, s, w))"
proof -
  let ?r = "srun_list c ! k"
  have len: "k < length (srun_list c0)" using ready_length [OF assms(1)] assms(2) by simp
  have g: "get_srun (fst (c, s, w)) (int k) = Inr ?r" using assms(2) by simp
  have cond: "\<not> (session < 0 \<and> sr_is_backup ?r)" using assms(3) by auto
  show ?thesis
  proof (cases "reusable t ?r")
    case True
    obtain c' s' w' where "cse_reuse_socket (int k) t pool (c, s, w) = Inr (True, c', s', w')" "connected c0 t pool k (c', s', w')"
      using reuse_hit [OF assms(1,2) True, of pool] by (auto simp: returns_iff)
    then show ?thesis unfolding list.map primary_loop.simps g bindR_simps if_not_P [OF cond] by simp
  next
    case False
    obtain c' s' w' where m: "cse_reuse_socket (int k) t pool (c, s, w) = Inr (False, c', s', w')" "ready c0 (c', s', w')"
      "srun_list c' = (srun_list c)[k := (clamp_time t ?r)\<lparr>sr_n_sockets := 0\<rparr>]" "conns w' = conns w"
      using reuse_miss [OF assms(1,2) False, of pool] by (auto simp: returns_iff)
    have len': "k < length (srun_list c')" using m(3) assms(2) by simp
    have nd: "\<not> (sr_is_dead (srun_list c' ! k) \<and>
        t \<le> sr_last_time (srun_list c' ! k) + word_of_int (sr_dead_time (srun_list c' ! k)))"
      using assms(4) m(3) assms(2) by (simp add: skipped_def clamp_time_def split: if_splits)
    have "next_succeeds w'" using assms(5) m(4) by (simp add: next_succeeds_def)
    from open_succeeds [OF len' this, of t pool False s'] open_found [OF m(2) len, of t pool False]
    obtain x' where "open_and_mark (int k) t pool False (c', s', w') = Inr (True, x')" "connected c0 t pool k x'"
      by (auto simp: returns_iff)
    then show ?thesis
      unfolding list.map primary_loop.simps g bindR_simps if_not_P [OF cond] open_then_mark m(1)
      using len' nd by auto
  qed
qed

text \<open>A primary that is not skipped serves a request without a session, if the network answers.\<close>

lemma primary_loop_alive:
  assumes "ready c0 x" "set ks \<subseteq> {..<length (srun_list c0)}" "k \<in> set ks"
    and "\<not> sr_is_backup (srun_list c0 ! k)" "\<not> skipped t (srun_list (fst x) ! k)" "next_succeeds (snd (snd x))"
  shows "returns (\<lambda>(ok, x'). ok) (primary_loop session t pool (map int ks) x)"
  using assms
proof (induction ks arbitrary: x)
  case (Cons j ks)
  have j: "j < length (srun_list c0)" using Cons.prems by simp
  obtain c s w where x: "x = (c, s, w)" by (rule prod_cases3)
  have len: "j < length (srun_list c)" using ready_length [OF Cons.prems(1)] j x by simp
  have g: "get_srun (fst (c, s, w)) (int j) = Inr (srun_list c ! j)" using len by simp
  have b: "sr_is_backup (srun_list c ! j) = sr_is_backup (srun_list c0 ! j)" using ready_conf [OF Cons.prems(1) j] x by simp
  have r: "ready c0 (c, s, w)" using Cons.prems(1) x by simp
  have ns: "next_succeeds w" using Cons.prems(6) x by simp
  show ?case
  proof (cases "session < 0 \<and> sr_is_backup (srun_list c ! j)")
    case True
    then have "k \<in> set ks" using Cons.prems(3,4) b by auto
    from Cons.IH [OF Cons.prems(1) _ this Cons.prems(4-6)] Cons.prems(2) show ?thesis
      unfolding x list.map primary_loop.simps g bindR_simps if_P [OF True] by simp
  next
    case cond: False
    show ?thesis
    proof (cases "skipped t (srun_list c ! j)")
      case False
      have "session < 0 \<longrightarrow> \<not> sr_is_backup (srun_list c ! j)" using cond by auto
      from primary_loop_first_open [OF r len this False ns, of pool ks] show ?thesis
        unfolding x by (auto elim: returns_mono)
    next
      case True
      then have k: "k \<in> set ks" "k \<noteq> j" using Cons.prems(3,5) x by auto
      show ?thesis
      proof (cases "reusable t (srun_list c ! j)")
        case True
        from reuse_hit [OF r len True, of pool] show ?thesis
          unfolding x list.map primary_loop.simps g bindR_simps if_not_P [OF cond] by (auto simp: returns_iff)
      next
        case miss: False
        obtain c' s' w' where m: "cse_reuse_socket (int j) t pool (c, s, w) = Inr (False, c', s', w')" "ready c0 (c', s', w')"
          "srun_list c' = (srun_list c)[j := (clamp_time t (srun_list c ! j))\<lparr>sr_n_sockets := 0\<rparr>]" "conns w' = conns w"
          using reuse_miss [OF r len miss, of pool] by (auto simp: returns_iff)
        have dead: "sr_is_dead (srun_list c' ! j) \<and>
            t \<le> sr_last_time (srun_list c' ! j) + word_of_int (sr_dead_time (srun_list c' ! j))"
          using True m(3) len by (simp add: skipped_def clamp_time_def split: if_splits)
        have len': "j < length (srun_list c')" using m(3) len by simp
        have "\<not> skipped t (srun_list c' ! k)" "next_succeeds w'" using Cons.prems(5) x m(3,4) k(2) ns
          by (simp_all add: next_succeeds_def)
        with Cons.IH [OF m(2) _ k(1) Cons.prems(4)] Cons.prems(2)
        have "returns (\<lambda>(ok, x'). ok) (primary_loop session t pool (map int ks) (c', s', w'))" by simp
        then show ?thesis
          unfolding x list.map primary_loop.simps g bindR_simps if_not_P [OF cond] m(1)
          using len' dead by simp
      qed
    qed
  qed
qed simp

lemma cse_open_connection_search:
  assumes "config_ok c" "pools_ok (srun_list c) (set (open_fds w))" "stream_ok s"
  obtains ks g' s0 where "cse_open_connection session ip t rand pool g (c, s, w) =
      bindR (search session t pool ks (c, s0, w)) (\<lambda>(ok, c', s', w').
        Inr (ok, g', c', s', if ok then cse_set_socket_cleanup (s_socket s') pool w' else w'))"
    "ready c (c, s0, w)" "distinct ks" "set ks = {..<used_size c}" "ks \<noteq> []" "set ks \<subseteq> {..<length (srun_list c)}"
    "0 \<le> session \<longrightarrow> (\<exists>k < used_size c. sr_session (srun_list c ! k) = session) \<longrightarrow>
       sr_session (srun_list c ! hd ks) = session"
    "s0 = (reset_stream pool s)\<lparr>s_srun := None\<rparr>"
proof -
  let ?s = "(reset_stream pool s)\<lparr>s_srun := None\<rparr>"
  have "config_ok (fst (c, ?s, w))" using assms(1) by simp
  then obtain ks g' where o: "open_connection session ip t rand pool g (c, ?s, w) =
      bindR (search session t pool ks (c, ?s, w)) (\<lambda>(ok, x). Inr (ok, g', x))"
    "distinct ks" "set ks = {..<used_size (fst (c, ?s, w))}" "ks \<noteq> []" "set ks \<subseteq> {..<length (srun_list (fst (c, ?s, w)))}"
    "0 \<le> session \<longrightarrow> (\<exists>k < used_size (fst (c, ?s, w)). sr_session (srun_list (fst (c, ?s, w)) ! k) = session) \<longrightarrow>
       sr_session (srun_list (fst (c, ?s, w)) ! hd ks) = session"
    by (rule open_connection_search [where session = session and ip = ip and t = t and rand = rand and g = g and pool = pool])
  have "cse_open_connection session ip t rand pool g (c, s, w) =
      bindR (search session t pool ks (c, ?s, w)) (\<lambda>(ok, c', s', w').
        Inr (ok, g', c', s', if ok then cse_set_socket_cleanup (s_socket s') pool w' else w'))"
    by (simp add: cse_open_connection_def o(1) bindR_assoc split_def cong: if_cong)
  then show thesis using ready_reset [OF assms(2,3)] o(2-) by (intro that) simp_all
qed

lemma returns_both:
  assumes "returns (\<lambda>(ok, x). if ok then A x else B x) m" "returns (\<lambda>(ok, x). if ok then True else C x) m"
  shows "returns (\<lambda>(ok, x). if ok then A x else B x \<and> C x) m"
  using assms by (auto simp: returns_def split: sum.splits if_splits)

lemma search_first_loop:
  assumes "returns (\<lambda>(ok, x'). ok \<and> Q x') (reuse_loop t pool (map int ks) x)" "session < 0"
  shows "returns (\<lambda>(ok, x'). ok \<and> Q x') (search session t pool ks x)"
  unfolding search_def if_P [OF assms(2)]
  by (rule returns_seq [OF assms(1)]) simp

lemma search_second_loop:
  assumes "\<And>x'. ready c0 x' \<Longrightarrow> next_succeeds (snd (snd x')) \<Longrightarrow> A x' \<Longrightarrow>
      returns (\<lambda>(ok, x'). ok \<and> Q x') (primary_loop session t pool (map int ks) x')"
    and "returns (\<lambda>(ok, x'). if ok then Q x' else ready c0 x' \<and> next_succeeds (snd (snd x')) \<and> A x')
      (if session < 0 then reuse_loop t pool (map int ks) x else Inr (False, x))"
  shows "returns (\<lambda>(ok, x'). ok \<and> Q x') (search session t pool ks x)"
proof -
  have step: "returns (\<lambda>(ok, x'). ok \<and> Q x') (if ok then Inr (True, x) else primary_loop session t pool (map int ks) x)"
    if "case (ok, x) of (ok, x') \<Rightarrow> if ok then Q x' else ready c0 x' \<and> next_succeeds (snd (snd x')) \<and> A x'" for ok x
    using assms(1) [of x] that by (cases ok) auto
  show ?thesis unfolding search_def
    by (rule returns_seq [OF assms(2)], rule returns_seq [OF step], assumption) simp
qed

text \<open>The first loop does not make a runner skippable: it only clamps clocks and drops idle sockets.\<close>

lemma reuse_loop_not_skipped:
  assumes "ready c0 x" "set ks \<subseteq> {..<length (srun_list c0)}" "\<not> skipped t (srun_list (fst x) ! k)" "k < length (srun_list c0)"
  shows "returns (\<lambda>(ok, x'). if ok then True else \<not> skipped t (srun_list (fst x') ! k)) (reuse_loop t pool (map int ks) x)"
  using assms
proof (induction ks arbitrary: x)
  case (Cons j ks)
  have j: "j < length (srun_list c0)" using Cons.prems by simp
  obtain c s w where x: "x = (c, s, w)" by (rule prod_cases3)
  have len: "j < length (srun_list c)" using ready_length [OF Cons.prems(1)] j x by simp
  have g: "get_srun (fst (c, s, w)) (int j) = Inr (srun_list c ! j)" using len by simp
  have r: "ready c0 (c, s, w)" using Cons.prems(1) x by simp
  have ih: "returns (\<lambda>(ok, x'). if ok then True else \<not> skipped t (srun_list (fst x') ! k)) (reuse_loop t pool (map int ks) x')"
    if "ready c0 x'" "\<not> skipped t (srun_list (fst x') ! k)" for x'
    using Cons.IH [OF that(1) _ that(2) Cons.prems(4)] Cons.prems(2) by simp
  have "returns (\<lambda>(ok, x'). if ok then True else \<not> skipped t (srun_list (fst x') ! k))
      (bindR (cse_reuse_socket (int j) t pool (c, s, w))
        (\<lambda>(ok, x). if ok then Inr (True, x) else reuse_loop t pool (map int ks) x))"
  proof (cases "reusable t (srun_list c ! j)")
    case True
    from reuse_hit [OF r len True, of pool] show ?thesis by (auto simp: returns_iff)
  next
    case False
    obtain c' s' w' where m: "cse_reuse_socket (int j) t pool (c, s, w) = Inr (False, c', s', w')" "ready c0 (c', s', w')"
      "srun_list c' = (srun_list c)[j := (clamp_time t (srun_list c ! j))\<lparr>sr_n_sockets := 0\<rparr>]"
      using reuse_miss [OF r len False, of pool] by (auto simp: returns_iff)
    have "skipped t ((clamp_time t (srun_list c ! j))\<lparr>sr_n_sockets := 0\<rparr>) = skipped t (srun_list c ! j)"
      by (simp add: skipped_def clamp_time_def)
    then have "\<not> skipped t (srun_list (fst (c', s', w')) ! k)" using Cons.prems(3) len x m(3) by (cases "k = j") auto
    with ih [OF m(2)] show ?thesis by (simp add: m(1))
  qed
  then show ?case using ih [OF r] Cons.prems(3) g by (simp add: x)
qed simp

text \<open>The session numbers \<open>cse_add_host_int\<close> gives out: the index of the runner.\<close>

definition sessions_ok :: "config \<Rightarrow> bool" where
  "sessions_ok c \<longleftrightarrow> (\<forall>k < used_size c. sr_session (srun_list c ! k) = int k)"

lemma cse_open_connection_result:
  assumes "returns (\<lambda>(ok, x'). ok \<and> Q x') (search session t pool ks x)"
    and "cse_open_connection session ip t rand pool g y =
      bindR (search session t pool ks x) (\<lambda>(ok, c', s', w').
        Inr (ok, g', c', s', if ok then cse_set_socket_cleanup (s_socket s') pool w' else w'))"
    and "\<And>c' s' w'. Q (c', s', w') \<Longrightarrow> Q' (c', s', cse_set_socket_cleanup (s_socket s') pool w')"
  shows "returns (\<lambda>(ok, g', x'). ok \<and> Q' x') (cse_open_connection session ip t rand pool g y)"
  using assms(1,3) unfolding assms(2) by (auto simp: returns_iff)

subsection \<open>A small instance\<close>

text \<open>The initial configuration, a fresh stream and a network whose first connection succeeds.\<close>

definition fresh_stream :: stream where
  "fresh_stream = \<lparr>s_srun = None, s_pool = 0, s_update_count = 0, s_socket = -1, s_read_buf = [],
     s_read_offset = 0, s_read_length = 0, s_write_buf = []\<rparr>"

definition answering_world :: world where
  "answering_world = \<lparr>open_fds = [], nonblock = (\<lambda>_. False), rx = (\<lambda>_. []), tx = [],
     conns = [\<lparr>c_socket_ok = True, c_connect = ConnectOk, c_select = 0, c_isset = False, c_getsockopt = 0,
       c_soerror = 0, c_rx = []\<rparr>], log = []\<rparr>"

lemma pools_ok_empty: "\<forall>r \<in> set l. srun_ok r \<and> sockets_of r = [] \<Longrightarrow> pools_ok l fds"
  by (auto simp: pools_ok_def)

lemma initial_srun_list: "srun_list cse_create_server_config =
    zero_srun\<lparr>sr_port := DEFAULT_PORT, sr_session := 0, sr_max_sockets := 32\<rparr> # replicate 15 zero_srun"
  by (simp add: cse_create_server_config_def Let_def numeral_eq_Suc)

lemma initial_config:
  "config_ok cse_create_server_config" "pools_ok (srun_list cse_create_server_config) fds"
  "sessions_ok cse_create_server_config" "used_size cse_create_server_config = 1"
  "\<not> sr_is_backup (srun_list cse_create_server_config ! 0)"
  "\<not> skipped t (srun_list cse_create_server_config ! 0)"
proof -
  have s: "srun_size cse_create_server_config = 1" "srun_capacity cse_create_server_config = 16"
    by (simp_all add: cse_create_server_config_def Let_def)
  then show "config_ok cse_create_server_config" "used_size cse_create_server_config = 1"
    by (simp_all add: config_ok_def used_size_def initial_srun_list)
  then show "sessions_ok cse_create_server_config"
    by (simp add: sessions_ok_def initial_srun_list)
  show "pools_ok (srun_list cse_create_server_config) fds"
    by (rule pools_ok_empty) (simp add: initial_srun_list sockets_of_def srun_ok_def zero_srun_def SOCKETS_LENGTH_def)
  show "\<not> sr_is_backup (srun_list cse_create_server_config ! 0)"
    "\<not> skipped t (srun_list cse_create_server_config ! 0)"
    by (simp_all add: initial_srun_list zero_srun_def skipped_def)
qed

lemma fresh_stream_ok: "stream_ok fresh_stream" by (simp add: fresh_stream_def stream_ok_def)

lemma answering_world_succeeds: "next_succeeds answering_world"
  by (simp add: next_succeeds_def answering_world_def)

subsection \<open>Properties\<close>

text \<open>
  Each of the three loops visits every runner exactly once, beginning with the chosen one,
  whatever its parity makes the step be.
\<close>

lemma host_order_visits_each_once:
  assumes "0 \<le> host" "host < n" "n \<le> 32768"
  shows "distinct (host_order host n) \<and> set (host_order host n) = {0..<n} \<and> hd (host_order host n) = host"
  using host_order_visits [OF assms] by simp

lemma host_order_visits_each_once_example:
  "distinct (host_order 3 5) \<and> set (host_order 3 5) = {0..<5} \<and> hd (host_order 3 5) = 3"
  by (rule host_order_visits_each_once) simp_all









end
