(* ===== verification/Cse_Windows.thy ===== *)
theory Cse_Windows
  imports Cse_Location Cse_Failover
begin

text \<open>
  The branches of the sources for Windows, where they differ in more than the name of a call: the
  connection with a timeout (\<open>cse_connect\<close> in stream.c), and the lower-casing of mappings and URLs
  (\<open>cse_add_location\<close> and \<open>cse_match_request\<close> in config.c). The third difference, the locks, is
  in Cse_Threads.
\<close>

subsection \<open>Opening a connection\<close>

text \<open>\<open>cse_open\<close> with the routine for the timed connection as a parameter.\<close>

type_synonym connect = "32 word \<Rightarrow> int \<Rightarrow> world \<Rightarrow> int \<times> world"

definition cse_open_by :: "connect \<Rightarrow> int \<Rightarrow> nat \<Rightarrow> bool \<Rightarrow> config \<times> io \<Rightarrow> (bool \<times> config \<times> io) res" where
  "cse_open_by connect k pool wait = (\<lambda>(config, s, w).
     bindR (get_srun config k) (\<lambda>srun.
       let s = (reset_stream pool s)\<lparr>s_srun := Some (nat k)\<rparr>;
           addr = (case sr_host srun of Some host \<Rightarrow> host | None \<Rightarrow> INADDR_LOOPBACK);
           srun = (if sr_port srun \<le> 0 then srun\<lparr>sr_port := DEFAULT_PORT\<rparr> else srun);
           port = sr_port srun mod 65536;
           (socket, w) = (if wait \<or> sr_connect_timeout srun \<le> 0
                          then cse_connect_wait addr port w else connect addr port w);
           s = s\<lparr>s_socket := socket\<rparr>
       in Inr (s_socket s \<ge> 0, put_srun k srun config, s, w)))"

lemma cse_open_by_posix: "cse_open = cse_open_by cse_connect"
  by (intro ext) (simp add: cse_open_def cse_open_by_def)

subsection \<open>Lower case\<close>

definition lower :: "string \<Rightarrow> string" where
  "lower s = map to_lower s"

definition cse_add_location_windows :: "string option \<Rightarrow> string \<Rightarrow> string \<Rightarrow> config \<Rightarrow> config res" where
  "cse_add_location_windows host pre pattern config =
     (let host = map_option lower host;
          pre = lower pre;
          pattern = lower pattern
      in cse_add_location host pre pattern config)"

definition cse_match_request_windows :: "config \<Rightarrow> string \<Rightarrow> int \<Rightarrow> string \<Rightarrow> bool res" where
  "cse_match_request_windows config host port uri =
     bindR (if length uri + 1 > 4096 then Inl OutOfBounds
            else Inr (lower (case strstr uri '';jsessionid='' of None \<Rightarrow> uri | Some i \<Rightarrow> take i uri)))
       (\<lambda>test. bindR (cse_match_location (locations config) host port test) (\<lambda>m.
         Inr (m \<or> strstr test ''/j_security_check'' \<noteq> None)))"

lemma to_lower_idem [simp]: "to_lower (to_lower c) = to_lower c"
proof (cases "65 \<le> (of_char c :: int) \<and> (of_char c :: int) \<le> 90")
  case True
  then have "(of_char (char_of (of_char c + 32 :: int)) :: int) = of_char c + 32" by simp
  then show ?thesis using True by (simp add: to_lower_def Let_def)
qed (auto simp: to_lower_def Let_def)

lemma lower_idem [simp]: "lower (lower s) = lower s"
  by (simp add: lower_def)

lemma lower_sublist: "sublist s (lower t) \<Longrightarrow> lower s = s"
proof -
  assume "sublist s (lower t)"
  then have "set s \<subseteq> set (lower t)" by (auto simp: sublist_def)
  then have "\<forall>c \<in> set s. to_lower c = c" by (auto simp: lower_def)
  then show "lower s = s" by (simp add: lower_def map_idI)
qed

text \<open>The path of a URL in front of a session parameter.\<close>

lemma session_cut:
  assumes "\<not> sublist '';jsessionid='' base"
  shows "strstr (base @ '';jsessionid='' @ sid) '';jsessionid='' = Some (length base)"
proof -
  have "unbordered '';jsessionid=''" by (rule first_char_unbordered) simp
  from strstr_first_append [OF this _ assms] show ?thesis by simp
qed

lemma lower_marker: "sublist '';jsessionid='' base \<Longrightarrow> sublist '';jsessionid='' (lower base)"
proof -
  assume "sublist '';jsessionid='' base"
  then obtain a b where "base = a @ '';jsessionid='' @ b" by (auto simp: sublist_def)
  moreover have "lower '';jsessionid='' = '';jsessionid=''" by code_simp
  ultimately have "lower base = lower a @ '';jsessionid='' @ lower b" by (simp only: lower_def map_append)
  then show "sublist '';jsessionid='' (lower base)" unfolding sublist_def by blast
qed

lemma match_request_windows_eq:
  assumes "table_ok c" "length uri < 4096"
  shows "cse_match_request_windows c rh rp uri =
    (let test = lower (case strstr uri '';jsessionid='' of None \<Rightarrow> uri | Some i \<Rightarrow> take i uri) in
     Inr ((\<exists>loc \<in> set (locations c). location_matches loc rh rp test) \<or> strstr test ''/j_security_check'' \<noteq> None))"
proof -
  have "cse_match_location (locations c) rh rp test = Inr (\<exists>loc \<in> set (locations c). location_matches loc rh rp test)" for test
    using assms(1) by (intro cse_match_location_ok) (simp add: table_ok_def)
  then show ?thesis using assms(2) by (simp add: cse_match_request_windows_def Let_def)
qed

subsection \<open>Properties\<close>

text \<open>
  C31: on Windows the module does what it does elsewhere, on names in lower case: a mapping is added in lower
  case, and a URL, with or without a session parameter, is decided as its path in lower case is.
\<close>

theorem windows_ignores_case:
  assumes "\<not> sublist '';jsessionid='' (lower base)" "param = [] \<or> (\<exists>sid. param = '';jsessionid='' @ sid)"
    and "length (base @ param) < 4096"
  shows "cse_match_request_windows c rh rp (base @ param) = cse_match_request c rh rp (lower base)"
proof -
  have n: "\<not> sublist '';jsessionid='' base" using assms(1) lower_marker by blast
  have cut: "(case strstr (base @ param) '';jsessionid='' of None \<Rightarrow> base @ param | Some i \<Rightarrow> take i (base @ param)) = base"
    using assms(2)
  proof
    assume "param = []"
    then show ?thesis using n strstr_None_iff [of base "'';jsessionid=''"] by simp
  next
    assume "\<exists>sid. param = '';jsessionid='' @ sid"
    then obtain sid where "param = '';jsessionid='' @ sid" ..
    moreover have "take (length base) (base @ ys) = base" for ys by simp
    ultimately show ?thesis using session_cut [OF n, of sid] by (simp only: option.case)
  qed
  have "strstr (lower base) '';jsessionid='' = None" using assms(1) by (simp add: strstr_None_iff)
  then show ?thesis using assms(3) unfolding cse_match_request_windows_def cse_match_request_def cut
    by (simp only: option.case bindR_simps) simp
qed

theorem windows_ignores_case_witness:
  "cse_match_request_windows cse_create_server_config ''h'' 80 (''/Shop/A.JSP'' @ '';jsessionid='' @ ''X'') =
    cse_match_request cse_create_server_config ''h'' 80 (lower ''/Shop/A.JSP'')"
proof -
  have "\<not> sublist '';jsessionid='' (lower ''/Shop/A.JSP'')" by code_simp
  then show ?thesis by (rule windows_ignores_case) simp_all
qed

text \<open>
  A virtual host is lost on Windows for a server name with an upper-case letter: the host of a mapping is
  put in lower case, the server name of a request is not, so that the mapping changes no
  decision about such a request.
\<close>

lemma windows_host_case:
  assumes "table_ok c" "length pre + length pattern + 3 \<le> 4096" "host \<noteq> []" "CHR '':'' \<notin> set (lower host)" "lower rh \<noteq> rh"
  shows "returns (\<lambda>c'. \<forall>rp uri. cse_match_request_windows c' rh rp uri = cse_match_request_windows c rh rp uri)
    (cse_add_location_windows (Some host) pre pattern c)"
proof -
  let ?loc = "location_of (lower host) (lower pre) (lower pattern)"
  have add: "cse_add_location_windows (Some host) pre pattern c = Inr (add_location ?loc c)"
    using add_location_eq [of "lower pre" "lower pattern" "lower host" c] assms(2)
    by (simp add: cse_add_location_windows_def Let_def lower_def)
  have t: "table_ok (add_location ?loc c)"
    using assms(1) location_of_ok by (simp add: table_ok_def)
  have "loc_host ?loc = Some (lower host)"
    using no_port [OF assms(4)] by (simp add: location_of_def split_host_def Let_def)
  then have "\<not> location_matches ?loc rh rp test" for rp test
    using lower_sublist [of rh host] assms(3,5) by (auto simp: location_matches_def lower_def)
  then have "cse_match_request_windows (add_location ?loc c) rh rp uri = cse_match_request_windows c rh rp uri" for rp uri
    using match_request_windows_eq [OF t, of uri rh rp] match_request_windows_eq [OF assms(1), of uri rh rp]
    by (cases "length uri < 4096") (simp_all add: Let_def cse_match_request_windows_def)
  then show ?thesis by (simp add: add)
qed

lemma windows_host_case_example:
  "returns (\<lambda>c'. \<forall>rp uri. cse_match_request_windows c' ''WWW.foo.com'' rp uri =
      cse_match_request_windows cse_create_server_config ''WWW.foo.com'' rp uri)
    (cse_add_location_windows (Some ''www.foo.com'') ''/app'' ''/*'' cse_create_server_config)"
proof -
  have t: "table_ok cse_create_server_config" by (simp add: table_ok_def cse_create_server_config_def Let_def)
  have l: "CHR '':'' \<notin> set (lower ''www.foo.com'')" "lower ''WWW.foo.com'' \<noteq> ''WWW.foo.com''" by code_simp+
  show ?thesis by (rule windows_host_case [OF t _ _ l]) simp_all
qed

end
