(* ===== verification/Cse_Lifecycle.thy ===== *)
theory Cse_Lifecycle
  imports Cse_Failover
begin

text \<open>
  The rest of a connection's and a runner's life: recycling a connection into its runner's
  pool, closing the pools when a child or the configuration goes, and adding runners.
\<close>

subsection \<open>Recycling\<close>

text \<open>A stream that holds a connection of runner \<open>k\<close>, which no pool holds.\<close>

definition holds :: "nat \<Rightarrow> config \<times> io \<Rightarrow> bool" where
  "holds k = (\<lambda>(c, s, w). pools_ok (srun_list c) (set (open_fds w)) \<and> k < length (srun_list c) \<and>
     s_srun s = Some k \<and> 0 \<le> s_socket s \<and> s_socket s \<in> set (open_fds w) \<and> s_socket s \<notin> idle (srun_list c) \<and>
     stream_ok s)"

lemma connected_holds: "connected c0 t pool k x \<Longrightarrow> holds k x"
  by (auto simp: connected_def holds_def)

definition has_room :: "nat \<Rightarrow> config \<times> io \<Rightarrow> bool" where
  "has_room k = (\<lambda>(c, s, w). update_count c = s_update_count s \<and>
     sr_n_sockets (srun_list c ! k) < sr_max_sockets (srun_list c ! k))"

lemma idle_disjoint: "d \<notin> idle l \<Longrightarrow> i < length l \<Longrightarrow> d \<notin> set (sockets_of (l ! i))"
  by (auto simp: in_idle)

lemma recycle_pooled:
  assumes "holds k (c, s, w)" "has_room k (c, s, w)"
  shows "returns (\<lambda>(c', s', w'). s' = s\<lparr>s_socket := -1\<rparr> \<and> w' = cse_kill_socket_cleanup (s_socket s) (s_pool s) w \<and>
      pools_ok (srun_list c') (set (open_fds w')) \<and> same_runners c c' \<and>
      sockets_of (srun_list c' ! k) = sockets_of (srun_list c ! k) @ [s_socket s] \<and>
      sr_last_time (srun_list c' ! k) = sr_last_time (srun_list c ! k) \<and>
      sr_live_time (srun_list c' ! k) = sr_live_time (srun_list c ! k) \<and>
      sr_n_sockets (srun_list c' ! k) = sr_n_sockets (srun_list c ! k) + 1 \<and>
      (\<forall>j. j \<noteq> k \<longrightarrow> srun_list c' ! j = srun_list c ! j))
    (cse_recycle (c, s, w))"
proof -
  let ?r = "srun_list c ! k"
  have h: "pools_ok (srun_list c) (set (open_fds w))" "k < length (srun_list c)" "s_srun s = Some k"
    "0 \<le> s_socket s" "s_socket s \<in> set (open_fds w)" "s_socket s \<notin> idle (srun_list c)"
    using assms(1) by (auto simp: holds_def)
  note ok = pools_okD [OF h(1,2)]
  have room: "sr_n_sockets ?r < sr_max_sockets ?r" using assms(2) by (simp add: has_room_def)
  obtain r' where r': "push_socket (s_socket s) ?r = Inr r'" "sockets_of r' = sockets_of ?r @ [s_socket s]" "srun_ok r'"
    "r' = ?r\<lparr>sr_sockets := (sr_sockets ?r)(sr_n_sockets ?r := s_socket s), sr_n_sockets := sr_n_sockets ?r + 1\<rparr>"
    by (rule push_socket_eq [OF ok(1) room])
  have fresh: "i < length (srun_list c) \<Longrightarrow> s_socket s \<notin> set (sockets_of (srun_list c ! i))" for i
    using idle_disjoint [OF h(6)] by simp
  have disj: "i < length (srun_list c) \<Longrightarrow> i \<noteq> k \<Longrightarrow> set (sockets_of (srun_list c ! i)) \<inter> set (sockets_of ?r) = {}" for i
    using h(1,2) unfolding pools_ok_def by blast
  have "pools_ok ((srun_list c)[k := r']) (set (open_fds w))"
    by (rule pools_ok_update [OF h(1) r'(3)])
      (use ok(2-4) fresh [OF h(2)] h(4,5) r'(2) disj fresh pools_okD(4) [OF h(1)] in auto)
  moreover have "same_runners c (put_srun (int k) r' c)" using h(2) r'(4) by (intro same_runners_put) simp_all
  ultimately show ?thesis
    using h assms(2) r' by (auto simp: cse_recycle_def has_room_def Let_def)
qed

lemma recycle_closed:
  assumes "holds k (c, s, w)" "\<not> has_room k (c, s, w)"
  shows "returns (\<lambda>(c', s', w'). c' = c \<and> s_socket s' < 0 \<and> stream_ok s') (cse_recycle (c, s, w))"
proof -
  have h: "k < length (srun_list c)" "s_srun s = Some k" "stream_ok s" using assms(1) by (auto simp: holds_def)
  have nr: "\<not> (s_socket s \<ge> 0 \<and> update_count c = s_update_count s \<and> sr_n_sockets (srun_list c ! k) < sr_max_sockets (srun_list c ! k))"
    using assms(2) by (simp add: has_room_def)
  have "returns (\<lambda>(c', s', w'). c' = c \<and> s_socket s' < 0 \<and> stream_ok s')
      (bindR (cse_write_packet (CHR ''X'') [] 0 (s, w)) (\<lambda>x. Inr (c, cse_close x)))"
  proof (rule returns_bindI [OF cse_write_packet_safe [OF h(3)]])
    fix x :: io assume "case x of (s', w') \<Rightarrow> stream_ok s'"
    then show "returns (\<lambda>(c', s', w'). c' = c \<and> s_socket s' < 0 \<and> stream_ok s') (Inr (c, cse_close x))"
      by (cases x, cases "cse_close x") (use cse_close_simps(1) [of "fst x" "snd x"] in auto)
  qed simp
  then show ?thesis using h nr by (auto simp: cse_recycle_def Let_def)
qed

text \<open>The farewell of a connection that is not pooled stays in the buffer.\<close>

lemma recycle_closed_exact:
  assumes "holds k (c, s, w)" "\<not> has_room k (c, s, w)" "s_write_length s + 4 \<le> int BUF_LENGTH"
  shows "cse_recycle (c, s, w) = Inr (c, cse_close (s\<lparr>s_write_buf := s_write_buf s @ CLOSE_PACKET\<rparr>, w))"
proof -
  have h: "k < length (srun_list c)" "s_srun s = Some k" "stream_ok s" using assms(1) by (auto simp: holds_def)
  let ?s = "s\<lparr>s_write_buf := s_write_buf s @ CLOSE_PACKET\<rparr>"
  have zero: "char_of (0::int) = NUL" by (simp add: char_of_def)
  have "cse_write CLOSE_PACKET 4 (s, w) = Inr (?s, w)" "stream_ok ?s"
    using write_append(1) [OF h(3), of 4 CLOSE_PACKET w] write_append(2) [OF h(3), of 4 CLOSE_PACKET] assms(3)
    by (simp_all add: CLOSE_PACKET_def)
  moreover have "cse_write [] 0 (?s, w) = Inr (?s, w)"
    using write_append(1) [OF \<open>stream_ok ?s\<close>, of 0 "[]" w] assms(3) by (simp add: s_write_length_def CLOSE_PACKET_def)
  ultimately have "cse_write_packet (CHR ''X'') [] 0 (s, w) = Inr (?s, w)"
    by (simp add: cse_write_packet_def zero CLOSE_PACKET_def)
  then show ?thesis using h assms(2) by (auto simp: cse_recycle_def has_room_def Let_def)
qed

lemma recycle_then_reuse:
  assumes "holds k (c, s, w)" "has_room k (c, s, w)"
    and "sr_last_time (clamp_time t (srun_list c ! k)) + word_of_int (sr_live_time (srun_list c ! k)) \<ge> t"
  shows "returns (\<lambda>x'. returns (\<lambda>(ok, c'', s'', w''). ok \<and> s_socket s'' = s_socket s \<and> s_srun s'' = Some k \<and>
      sockets_of (srun_list c'' ! k) = sockets_of (srun_list c ! k) \<and> open_fds w'' = open_fds w \<and> rx w'' = rx w)
    (cse_reuse_socket (int k) t pool x')) (cse_recycle (c, s, w))"
proof -
  obtain c' s' w' where e: "cse_recycle (c, s, w) = Inr (c', s', w')"
    "w' = cse_kill_socket_cleanup (s_socket s) (s_pool s) w"
    "pools_ok (srun_list c') (set (open_fds w'))" "same_runners c c'"
    "sockets_of (srun_list c' ! k) = sockets_of (srun_list c ! k) @ [s_socket s]"
    "sr_last_time (srun_list c' ! k) = sr_last_time (srun_list c ! k)"
    "sr_live_time (srun_list c' ! k) = sr_live_time (srun_list c ! k)"
    "sr_n_sockets (srun_list c' ! k) = sr_n_sockets (srun_list c ! k) + 1"
    using recycle_pooled [OF assms(1,2)] by (auto simp: returns_iff)
  have p: "pools_ok (srun_list c) (set (open_fds w))" and k: "k < length (srun_list c)"
    using assms(1) by (auto simp: holds_def)
  have k': "k < length (srun_list c')" using same_runners_length [OF e(4)] k by simp
  have ok': "srun_ok (srun_list c' ! k)" using pools_okD(1) [OF e(3) k'] .
  have pos: "0 < sr_n_sockets (srun_list c' ! k)" using pools_okD(1) [OF p k] e(8) by (simp add: srun_ok_def)
  have clamp: "sr_last_time (clamp_time t (srun_list c' ! k)) = sr_last_time (clamp_time t (srun_list c ! k))"
    using e(6) by (simp add: clamp_time_def)
  have re: "reusable t (srun_list c' ! k)" using assms(3) e(7) pos clamp by (simp add: reusable_def)
  show ?thesis
    using cse_reuse_socket_hit [OF k' ok' re, of pool s' w'] pop_socket_eq(2) [OF pos ok'] e(5) k'
    by (simp add: e(1,2) reuse_stream_def)
qed

subsection \<open>All pools at once\<close>

lemma for_sruns_eq:
  assumes "distinct is" "set is \<subseteq> {..<length (srun_list c)}"
    and "\<And>i w. i \<in> set is \<Longrightarrow> body (srun_list c ! i) w = Inr (f (srun_list c ! i), g (srun_list c ! i) w)"
  shows "\<exists>l. for_sruns body is c w = Inr (c\<lparr>srun_list := l\<rparr>, fold (\<lambda>i. g (srun_list c ! i)) is w) \<and>
    length l = length (srun_list c) \<and> (\<forall>j. l ! j = (if j \<in> set is then f (srun_list c ! j) else srun_list c ! j))"
  using assms
proof (induction "is" arbitrary: c w)
  case Nil
  then show ?case by (intro exI [of _ "srun_list c"]) simp
next
  case (Cons i "is")
  let ?c = "put_srun (int i) (f (srun_list c ! i)) c"
  have i: "i < length (srun_list c)" using Cons.prems by simp
  have same: "srun_list ?c ! j = srun_list c ! j" if "j \<in> set is" for j
  proof -
    have "j \<noteq> i" using Cons.prems(1) that by auto
    then show ?thesis by simp
  qed
  have "\<exists>l. for_sruns body is ?c (g (srun_list c ! i) w) =
      Inr (?c\<lparr>srun_list := l\<rparr>, fold (\<lambda>j. g (srun_list ?c ! j)) is (g (srun_list c ! i) w)) \<and>
    length l = length (srun_list ?c) \<and> (\<forall>j. l ! j = (if j \<in> set is then f (srun_list ?c ! j) else srun_list ?c ! j))"
    by (rule Cons.IH) (use Cons.prems same in auto)
  then obtain l where l: "for_sruns body is ?c (g (srun_list c ! i) w) =
      Inr (?c\<lparr>srun_list := l\<rparr>, fold (\<lambda>j. g (srun_list ?c ! j)) is (g (srun_list c ! i) w))"
    "length l = length (srun_list c)" "\<forall>j. l ! j = (if j \<in> set is then f (srun_list ?c ! j) else srun_list ?c ! j)"
    by auto
  have "fold (\<lambda>j. g (srun_list ?c ! j)) is v = fold (\<lambda>j. g (srun_list c ! j)) is v" for v
    by (rule fold_cong) (use same in auto)
  moreover have "?c\<lparr>srun_list := l\<rparr> = c\<lparr>srun_list := l\<rparr>" by (simp add: put_srun_def)
  ultimately show ?case
    using l i same Cons.prems(1,3) by (intro exI [of _ l]) (auto simp: nth_list_update)
qed

lemma fold_close_all: "fold (\<lambda>i. close_all (h i)) is w = close_all (concat (map h is)) w"
  by (induction "is" arbitrary: w) (simp_all add: close_all_def)

definition used_sockets :: "config \<Rightarrow> int set" where
  "used_sockets c = (\<Union>i < nat (srun_size c). set (sockets_of (srun_list c ! i)))"

lemma all_sruns_range: "config_ok c \<Longrightarrow> set (all_sruns c) \<subseteq> {..<length (srun_list c)} \<and> distinct (all_sruns c)"
  by (auto simp: all_sruns_def config_ok_def)

lemma distinct_pools:
  assumes "pools_ok l fds" "set is \<subseteq> {..<length l}" "distinct is"
  shows "distinct (concat (map (\<lambda>i. rev (sockets_of (l ! i))) is))"
  using assms(2,3)
proof (induction "is")
  case (Cons i "is")
  have "set (sockets_of (l ! i)) \<inter> set (sockets_of (l ! j)) = {}" if "j \<in> set is" for j
  proof -
    have "i < length l" "j < length l" "i \<noteq> j" using Cons.prems that by auto
    then show ?thesis using assms(1) unfolding pools_ok_def by blast
  qed
  then show ?case using Cons pools_okD(2) [OF assms(1), of i] by auto
qed simp

lemma close_child_spec:
  assumes "config_ok c" "pools_ok (srun_list c) (set (open_fds w))"
  obtains l where "cse_close_child c w = Inr (c\<lparr>srun_list := l\<rparr>,
      close_all (concat (map (\<lambda>i. rev (sockets_of (srun_list c ! i))) (all_sruns c))) w)"
    "length l = length (srun_list c)"
    "\<forall>j. l ! j = (if j < nat (srun_size c) then (srun_list c ! j)\<lparr>sr_n_sockets := 0\<rparr> else srun_list c ! j)"
proof -
  have r: "set (all_sruns c) \<subseteq> {..<length (srun_list c)}" "distinct (all_sruns c)" using all_sruns_range [OF assms(1)] by auto
  have body: "bindR (drain_sockets (srun_list c ! i) w) (\<lambda>(srun, w). Inr (srun\<lparr>sr_n_sockets := 0\<rparr>, w)) =
      Inr ((srun_list c ! i)\<lparr>sr_n_sockets := 0\<rparr>, close_all (rev (sockets_of (srun_list c ! i))) w)"
    if "i \<in> set (all_sruns c)" for i w
    using drain_sockets_eq [OF pools_okD(1) [OF assms(2)], of i w] r(1) that by auto
  obtain l where "for_sruns (\<lambda>srun w. bindR (drain_sockets srun w) (\<lambda>(srun, w). Inr (srun\<lparr>sr_n_sockets := 0\<rparr>, w)))
       (all_sruns c) c w =
      Inr (c\<lparr>srun_list := l\<rparr>, fold (\<lambda>i. close_all (rev (sockets_of (srun_list c ! i)))) (all_sruns c) w)"
    "length l = length (srun_list c)"
    "\<forall>j. l ! j = (if j \<in> set (all_sruns c) then (srun_list c ! j)\<lparr>sr_n_sockets := 0\<rparr> else srun_list c ! j)"
    using for_sruns_eq [OF r(2,1), where f = "\<lambda>srun. srun\<lparr>sr_n_sockets := 0\<rparr>" and g = "\<lambda>srun. close_all (rev (sockets_of srun))"
      and body = "\<lambda>srun w. bindR (drain_sockets srun w) (\<lambda>(srun, w). Inr (srun\<lparr>sr_n_sockets := 0\<rparr>, w))", OF body] by blast
  then show thesis by (intro that [of l]) (simp_all add: cse_close_child_def fold_close_all all_sruns_def)
qed

lemma close_sockets_spec:
  assumes "config_ok c" "pools_ok (srun_list c) (set (open_fds w))"
  obtains l where "cse_close_sockets c w = Inr (c\<lparr>srun_list := l, srun_size := 0\<rparr>,
      close_all (concat (map (\<lambda>i. sockets_of (srun_list c ! i)) (all_sruns c))) w)"
    "length l = length (srun_list c)"
    "\<forall>j. l ! j = (if j < nat (srun_size c) then (srun_list c ! j)\<lparr>sr_n_sockets := 0\<rparr> else srun_list c ! j)"
proof -
  have r: "set (all_sruns c) \<subseteq> {..<length (srun_list c)}" "distinct (all_sruns c)" using all_sruns_range [OF assms(1)] by auto
  have body: "bindR (close_socket_loop (srun_list c ! i) 0 w) (\<lambda>w. Inr ((srun_list c ! i)\<lparr>sr_n_sockets := 0\<rparr>, w)) =
      Inr ((srun_list c ! i)\<lparr>sr_n_sockets := 0\<rparr>, close_all (sockets_of (srun_list c ! i)) w)"
    if "i \<in> set (all_sruns c)" for i w
  proof -
    have i: "i < length (srun_list c)" using r(1) that by auto
    have "\<forall>d \<in> set (sockets_of (srun_list c ! i)). 0 \<le> d" using pools_okD(3) [OF assms(2) i] by blast
    then show ?thesis using close_socket_loop_eq [OF pools_okD(1) [OF assms(2) i], of 0 w] by simp
  qed
  obtain l where "for_sruns (\<lambda>srun w. bindR (close_socket_loop srun 0 w) (\<lambda>w. Inr (srun\<lparr>sr_n_sockets := 0\<rparr>, w)))
       (all_sruns c) c w =
      Inr (c\<lparr>srun_list := l\<rparr>, fold (\<lambda>i. close_all (sockets_of (srun_list c ! i))) (all_sruns c) w)"
    "length l = length (srun_list c)"
    "\<forall>j. l ! j = (if j \<in> set (all_sruns c) then (srun_list c ! j)\<lparr>sr_n_sockets := 0\<rparr> else srun_list c ! j)"
    using for_sruns_eq [OF r(2,1), where f = "\<lambda>srun. srun\<lparr>sr_n_sockets := 0\<rparr>" and g = "\<lambda>srun. close_all (sockets_of srun)"
      and body = "\<lambda>srun w. bindR (close_socket_loop srun 0 w) (\<lambda>w. Inr (srun\<lparr>sr_n_sockets := 0\<rparr>, w))", OF body] by blast
  then show thesis by (intro that [of l]) (simp_all add: cse_close_sockets_def fold_close_all all_sruns_def)
qed

lemma pools_ok_emptied:
  assumes "pools_ok l fds" "length l' = length l" "fds - (\<Union>j \<in> D. set (sockets_of (l ! j))) \<subseteq> fds'" "D \<subseteq> {..<length l}"
    and "\<forall>j < length l. (if j \<in> D then sockets_of (l' ! j) = [] \<and> srun_ok (l' ! j) else l' ! j = l ! j)"
  shows "pools_ok l' fds'"
proof -
  have sub: "set (sockets_of (l' ! j)) \<subseteq> set (sockets_of (l ! j))" if "j < length l" for j
    using assms(5) that by (auto split: if_splits)
  have keep: "d \<in> fds'" if "j < length l" "d \<in> set (sockets_of (l' ! j))" for j d
  proof -
    have "j \<notin> D" and d: "d \<in> set (sockets_of (l ! j))" using assms(5) that by (auto split: if_splits)
    then have "d \<notin> set (sockets_of (l ! i))" if "i \<in> D" for i
      using assms(1,4) that \<open>j < length l\<close> unfolding pools_ok_def by (metis disjoint_iff lessThan_iff subsetD)
    then show ?thesis using d pools_okD(4) [OF assms(1) that(1)] assms(3) by blast
  qed
  have "srun_ok (l' ! j) \<and> distinct (sockets_of (l' ! j)) \<and> (\<forall>d \<in> set (sockets_of (l' ! j)). 0 \<le> d \<and> d \<in> fds')"
    if "j < length l" for j
    using assms(5) that keep [OF that] pools_okD [OF assms(1) that] by (auto split: if_splits)
  moreover have "set (sockets_of (l' ! i)) \<inter> set (sockets_of (l' ! j)) = {}" if "i < length l" "j < length l" "i \<noteq> j" for i j
  proof -
    have "set (sockets_of (l ! i)) \<inter> set (sockets_of (l ! j)) = {}"
      using assms(1) that unfolding pools_ok_def by blast
    then show ?thesis using sub [OF that(1)] sub [OF that(2)] by blast
  qed
  ultimately show ?thesis using assms(2) by (simp add: pools_ok_def)
qed

lemma open_child_spec:
  assumes "config_ok c"
  obtains l where "cse_open_child c w = Inr (c\<lparr>srun_list := l\<rparr>, w)"
    "length l = length (srun_list c)"
    "\<forall>j. l ! j = (if j < nat (srun_size c) then (srun_list c ! j)\<lparr>sr_n_sockets := 0, sr_max_sockets := 32,
       sr_is_dead := False, sr_last_time := 0\<rparr> else srun_list c ! j)"
proof -
  have r: "set (all_sruns c) \<subseteq> {..<length (srun_list c)}" "distinct (all_sruns c)" using all_sruns_range [OF assms(1)] by auto
  let ?f = "\<lambda>srun. srun\<lparr>sr_n_sockets := 0, sr_max_sockets := 32, sr_is_dead := False, sr_last_time := 0\<rparr>"
  have "fold (\<lambda>i w. w) xs w = w" for xs :: "nat list" by (induction xs) auto
  with for_sruns_eq [OF r(2,1), where body = "\<lambda>srun w. Inr (?f srun, w)" and f = ?f and g = "\<lambda>_ w. w" and w = w]
  show thesis by (auto simp: cse_open_child_def all_sruns_def intro: that)
qed

subsection \<open>Adding runners\<close>

lemma zero_srun_pool [simp]: "sockets_of zero_srun = []" "srun_ok zero_srun"
  by (simp_all add: zero_srun_def sockets_of_def srun_ok_def SOCKETS_LENGTH_def)

lemma pools_ok_grow:
  assumes "pools_ok l fds"
  shows "pools_ok (l @ replicate n zero_srun) fds"
proof -
  have cell: "(l @ replicate n zero_srun) ! i = (if i < length l then l ! i else zero_srun)"
    if "i < length l + n" for i using that by (simp add: nth_append)
  show ?thesis using assms unfolding pools_ok_def
    by (auto simp: cell)
qed

lemma grow_srun_list_ok:
  assumes "config_ok c" "pools_ok (srun_list c) fds"
  shows "config_ok (grow_srun_list c)" "pools_ok (srun_list (grow_srun_list c)) fds"
    "srun_size (grow_srun_list c) = srun_size c" "srun_size c < srun_capacity (grow_srun_list c)"
    "j < length (srun_list c) \<Longrightarrow> srun_list (grow_srun_list c) ! j = srun_list c ! j"
    "locations (grow_srun_list c) = locations c"
  using assms pools_ok_grow [OF assms(2)]
  by (auto simp: grow_srun_list_def config_ok_def Let_def nth_append)

definition next_index :: "config \<Rightarrow> nat" where
  "next_index c = (if srun_size c = 1 \<and> (sr_is_default (srun_list c ! 0) \<or> sr_host (srun_list c ! 0) = None)
     then 0 else nat (srun_size c))"

lemma drop_default_srun_eq:
  assumes "config_ok c"
  shows "drop_default_srun c = Inr (c\<lparr>srun_size := int (next_index c)\<rparr>)"
proof -
  have "0 < length (srun_list c)" "0 \<le> srun_size c" using assms by (auto simp: config_ok_def)
  then show ?thesis by (auto simp: drop_default_srun_def next_index_def get_srun_def)
qed

lemma add_host_spec:
  assumes "config_ok c" "pools_ok (srun_list c) fds" "srun_size c < 32768" "resolve name = Some a"
  obtains c' where "cse_add_host_int resolve name port is_backup is_default c = Inr (Some (int (next_index c)), c')"
    "config_ok c'" "pools_ok (srun_list c') fds" "srun_size c' = int (next_index c) + 1" "locations c' = locations c"
    "\<forall>j < next_index c. srun_list c' ! j = srun_list c ! j"
    "srun_conf (srun_list c' ! next_index c) = (Some name, Some a, is_backup, int (next_index c), 32,
       CONNECT_TIMEOUT, LIVE_TIME, DEAD_TIME)"
    "sr_port (srun_list c' ! next_index c) = port" "sockets_of (srun_list c' ! next_index c) = []"
proof -
  let ?n = "next_index c"
  let ?c1 = "c\<lparr>srun_size := int ?n\<rparr>"
  let ?c2 = "grow_srun_list ?c1"
  have n: "int ?n \<le> srun_size c" using assms(1) by (auto simp: next_index_def config_ok_def)
  then have c1: "config_ok ?c1" "pools_ok (srun_list ?c1) fds" using assms(1,2) by (auto simp: config_ok_def)
  note g = grow_srun_list_ok [OF c1]
  have len: "?n < length (srun_list ?c2)" using g(1,3,4) by (simp add: config_ok_def)
  let ?r = "(srun_list ?c2 ! ?n)\<lparr>sr_hostname := Some name, sr_host := Some a, sr_port := port,
                   sr_is_backup := is_backup, sr_n_sockets := 0, sr_max_sockets := 32,
                   sr_is_default := is_default \<and> srun_size ?c2 = 0,
                   sr_connect_timeout := CONNECT_TIMEOUT, sr_live_time := LIVE_TIME,
                   sr_dead_time := DEAD_TIME, sr_session := srun_size ?c2\<rparr>"
  have r: "srun_ok ?r" "sockets_of ?r = []" by (simp_all add: srun_ok_def SOCKETS_LENGTH_def sockets_of_def)
  let ?c' = "(put_srun (int ?n) ?r ?c2)\<lparr>srun_size := int ?n + 1\<rparr>"
  have "cse_add_host_int resolve name port is_backup is_default c = Inr (Some (int ?n), ?c')"
    using len g(3) assms(4) by (simp add: cse_add_host_int_def drop_default_srun_eq [OF assms(1)] Let_def)
  moreover have "config_ok ?c'" using g(1,3,4) n assms(3) by (simp add: config_ok_def)
  moreover have "pools_ok (srun_list ?c') fds"
    using pools_ok_shrink [OF g(2) len r(1), of fds] r(2) by auto
  moreover have "\<forall>j < ?n. srun_list ?c' ! j = srun_list c ! j"
  proof (intro allI impI)
    fix j assume j: "j < ?n"
    then have "j < length (srun_list c)" using n assms(1) by (simp add: config_ok_def)
    then show "srun_list ?c' ! j = srun_list c ! j" using g(5) [of j] j by simp
  qed
  ultimately show thesis
    using len r(2) g(3,6) by (intro that [of ?c']) (simp_all add: srun_conf_def)
qed


subsection \<open>Properties\<close>


text \<open>A stream on descriptor 5 of the first runner of the initial configuration.\<close>

definition busy_stream :: stream where
  "busy_stream = fresh_stream\<lparr>s_srun := Some 0, s_socket := 5\<rparr>"

definition busy_world :: world where
  "busy_world = answering_world\<lparr>open_fds := [5]\<rparr>"

lemma busy_holds: "holds 0 (cse_create_server_config, busy_stream, busy_world)"
proof -
  have "idle (srun_list cse_create_server_config) = {}"
    by (simp add: idle_def initial_srun_list sockets_of_def zero_srun_def)
  moreover have "0 < length (srun_list cse_create_server_config)" by (simp add: initial_srun_list)
  ultimately show ?thesis using initial_config(2)
    by (simp add: holds_def busy_stream_def busy_world_def stream_ok_def fresh_stream_def)
qed

lemma busy_room: "has_room 0 (cse_create_server_config, busy_stream, busy_world)"
  by (simp add: has_room_def initial_srun_list zero_srun_def busy_stream_def fresh_stream_def)
     (simp add: cse_create_server_config_def Let_def)


text \<open>
  C15: a recycled connection is what the next request on that runner gets, within the live time:
  the pool is a stack, and it is afterwards as it was before the connection was recycled.
\<close>

theorem recycle_reuse_roundtrip:
  assumes "holds k (c, s, w)" "has_room k (c, s, w)"
    and "sr_last_time (clamp_time t (srun_list c ! k)) + word_of_int (sr_live_time (srun_list c ! k)) \<ge> t"
  shows "returns (\<lambda>x'. returns (\<lambda>(ok, c'', s'', w''). ok \<and> s_socket s'' = s_socket s \<and> s_srun s'' = Some k \<and>
      sockets_of (srun_list c'' ! k) = sockets_of (srun_list c ! k) \<and> open_fds w'' = open_fds w \<and> rx w'' = rx w)
    (cse_reuse_socket (int k) t pool x')) (cse_recycle (c, s, w))"
  by (rule recycle_then_reuse [OF assms])

theorem recycle_reuse_roundtrip_witness:
  "returns (\<lambda>x'. returns (\<lambda>(ok, c'', s'', w''). ok \<and> s_socket s'' = 5) (cse_reuse_socket 0 0 1 x'))
    (cse_recycle (cse_create_server_config, busy_stream, busy_world))"
proof -
  have "sr_last_time (clamp_time 0 (srun_list cse_create_server_config ! 0)) +
      word_of_int (sr_live_time (srun_list cse_create_server_config ! 0)) \<ge> 0" by simp
  from recycle_reuse_roundtrip [OF busy_holds busy_room this, of 1] show ?thesis
    by (auto elim!: returns_mono simp: busy_stream_def)
qed

text \<open>
  The farewell packet of a connection that cannot be pooled is put in the buffer and lost:
  \<open>cse_close\<close> follows without a flush, so not one byte is sent on any descriptor.
\<close>

lemma recycle_farewell_lost:
  assumes "holds k (c, s, w)" "\<not> has_room k (c, s, w)" "s_write_length s + 4 \<le> int BUF_LENGTH"
  shows "returns (\<lambda>(c', s', w'). (\<forall>d. sent_on d (log w') = sent_on d (log w)) \<and>
      s_socket s \<notin> set (open_fds w') \<and> s_write_buf s' = s_write_buf s @ CLOSE_PACKET) (cse_recycle (c, s, w))"
  unfolding recycle_closed_exact [OF assms]
  by (subst cse_close_pair) simp

lemma recycle_farewell_lost_example:
  "returns (\<lambda>(c', s', w'). sent_on 5 (log w') = []) (cse_recycle (cse_create_server_config,
     busy_stream\<lparr>s_update_count := 1\<rparr>, busy_world))"
proof -
  have h: "holds 0 (cse_create_server_config, busy_stream\<lparr>s_update_count := 1\<rparr>, busy_world)"
    using busy_holds by (simp add: holds_def stream_ok_def)
  have r: "\<not> has_room 0 (cse_create_server_config, busy_stream\<lparr>s_update_count := 1\<rparr>, busy_world)"
    by (simp add: has_room_def cse_create_server_config_def Let_def)
  have l: "s_write_length (busy_stream\<lparr>s_update_count := 1\<rparr>) + 4 \<le> int BUF_LENGTH"
    by (simp add: s_write_length_def busy_stream_def fresh_stream_def BUF_LENGTH_def)
  show ?thesis
    by (rule returns_mono [OF recycle_farewell_lost [OF h r l]]) (auto simp: busy_world_def answering_world_def)
qed

text \<open>
  C24: when a child exits, every pool of a runner in use is emptied, its sockets are closed, and
  each got the four bytes of the farewell exactly once; no other descriptor is touched.
\<close>

theorem close_child_closes_pools:
  assumes "config_ok c" "pools_ok (srun_list c) (set (open_fds w))" "tx_takes 4 w"
  shows "returns (\<lambda>(c', w'). pools_ok (srun_list c') (set (open_fds w')) \<and>
      (\<forall>k < nat (srun_size c). sockets_of (srun_list c' ! k) = []) \<and>
      set (open_fds w') = set (open_fds w) - used_sockets c \<and>
      (\<forall>d. sent_on d (log w') = sent_on d (log w) @ (if d \<in> used_sockets c then CLOSE_PACKET else [])))
    (cse_close_child c w)"
proof -
  let ?ds = "concat (map (\<lambda>i. rev (sockets_of (srun_list c ! i))) (all_sruns c))"
  obtain l where l: "cse_close_child c w = Inr (c\<lparr>srun_list := l\<rparr>, close_all ?ds w)"
    "length l = length (srun_list c)"
    "\<forall>j. l ! j = (if j < nat (srun_size c) then (srun_list c ! j)\<lparr>sr_n_sockets := 0\<rparr> else srun_list c ! j)"
    by (rule close_child_spec [OF assms(1,2)])
  have r: "set (all_sruns c) \<subseteq> {..<length (srun_list c)}" "distinct (all_sruns c)" using all_sruns_range [OF assms(1)] by auto
  have ds: "set ?ds = used_sockets c" "distinct ?ds"
    using distinct_pools [OF assms(2) r] by (auto simp: used_sockets_def all_sruns_def)
  have range: "i < length (srun_list c)" if "i < nat (srun_size c)" for i using that r(1) by (auto simp: all_sruns_def)
  have sub: "set ?ds \<subseteq> set (open_fds w)"
    unfolding ds(1) used_sockets_def using pools_okD(4) [OF assms(2)] range by blast
  have "nat (srun_size c) \<le> length (srun_list c)" using assms(1) by (auto simp: config_ok_def)
  then have "pools_ok l (set (open_fds (close_all ?ds w)))"
    by (intro pools_ok_emptied [OF assms(2) l(2), where D = "{..<nat (srun_size c)}"])
      (use l(3) ds(1) range pools_okD(1) [OF assms(2)] in \<open>auto simp: used_sockets_def\<close>)
  then show ?thesis unfolding l(1)
    using l(3) ds(1) close_all_sent [OF assms(3) ds(2) sub] by simp
qed

theorem close_child_closes_pools_witness:
  "returns (\<lambda>(c', w'). set (open_fds w') = {5} - used_sockets cse_create_server_config)
    (cse_close_child cse_create_server_config busy_world)"
proof -
  have t: "tx_takes 4 busy_world" by (simp add: tx_takes_def busy_world_def answering_world_def)
  show ?thesis
    by (rule returns_mono [OF close_child_closes_pools [OF initial_config(1,2) t]]) (auto simp: busy_world_def)
qed

text \<open>
  C25: adding a runner whose host name resolves keeps the configuration and the pools well formed,
  appends the runner (in place of the built-in default, if that is all there is) with the
  constants of stream.c and its index as session, and leaves the runners before it as they are.
\<close>

theorem add_host_appends:
  assumes "config_ok c" "pools_ok (srun_list c) fds" "sessions_ok c" "srun_size c < 32768" "resolve name = Some a"
  shows "returns (\<lambda>(r, c'). r = Some (int (next_index c)) \<and> config_ok c' \<and> pools_ok (srun_list c') fds \<and>
      sessions_ok c' \<and> srun_size c' = int (next_index c) + 1 \<and>
      (\<forall>j < next_index c. srun_list c' ! j = srun_list c ! j) \<and>
      srun_conf (srun_list c' ! next_index c) = (Some name, Some a, is_backup, int (next_index c), 32, 2, 10, 120) \<and>
      sr_port (srun_list c' ! next_index c) = port)
    (cse_add_host_int resolve name port is_backup is_default c)"
proof -
  obtain c' where c': "cse_add_host_int resolve name port is_backup is_default c = Inr (Some (int (next_index c)), c')"
    "config_ok c'" "pools_ok (srun_list c') fds" "srun_size c' = int (next_index c) + 1"
    "\<forall>j < next_index c. srun_list c' ! j = srun_list c ! j"
    "srun_conf (srun_list c' ! next_index c) = (Some name, Some a, is_backup, int (next_index c), 32,
       CONNECT_TIMEOUT, LIVE_TIME, DEAD_TIME)" "sr_port (srun_list c' ! next_index c) = port"
    by (rule add_host_spec [OF assms(1,2,4), where port = port and is_backup = is_backup and is_default = is_default and resolve = resolve and name = name and a = a]) (simp_all add: assms(5))
  have "next_index c \<le> used_size c" using assms(1) by (auto simp: next_index_def used_size_def config_ok_def)
  then have "sessions_ok c'"
    using c'(4-6) assms(3) by (auto simp: sessions_ok_def used_size_def srun_conf_def less_Suc_eq nat_add_distrib)
  then show ?thesis using c' by (simp add: CONNECT_TIMEOUT_def LIVE_TIME_def DEAD_TIME_def)
qed

theorem add_host_appends_witness:
  "returns (\<lambda>(r, c'). r = Some 0 \<and> srun_size c' = 1 \<and> sr_port (srun_list c' ! 0) = 6803)
    (cse_add_host_int (\<lambda>_. Some 0x7F000001) ''localhost'' 6803 False False cse_create_server_config)"
proof -
  have n: "next_index cse_create_server_config = 0"
    by (simp add: next_index_def initial_srun_list zero_srun_def) (simp add: cse_create_server_config_def Let_def)
  have s: "srun_size cse_create_server_config < 32768" by (simp add: cse_create_server_config_def Let_def)
  show ?thesis
    by (rule returns_mono [OF add_host_appends [OF initial_config(1,2,3) s refl]]) (auto simp: n)
qed

text \<open>
  A host name that does not resolve adds nothing and records the error; but the built-in
  default runner is dropped all the same, so that a configuration whose only host is unknown is
  left without runners.
\<close>

theorem add_host_unresolved:
  assumes "config_ok c" "resolve name = None" "length name < 8000"
  shows "returns (\<lambda>(r, c'). r = None \<and> srun_size c' = int (next_index c) \<and>
      c_error c' = Some (''CSE cannot find host '' @ name @ [CHR 0x0A]) \<and>
      (\<forall>j < length (srun_list c). srun_list c' ! j = srun_list c ! j))
    (cse_add_host_int resolve name port is_backup is_default c)"
  using assms
  by (auto simp: cse_add_host_int_def drop_default_srun_eq cse_error_def grow_srun_list_def config_ok_def Let_def nth_append)

theorem add_host_unresolved_witness:
  "returns (\<lambda>(r, c'). r = None \<and> srun_size c' = 0)
    (cse_add_host_int (\<lambda>_. None) ''nowhere'' 6802 False False cse_create_server_config)"
proof -
  have n: "next_index cse_create_server_config = 0"
    by (simp add: next_index_def initial_srun_list zero_srun_def) (simp add: cse_create_server_config_def Let_def)
  have l: "length ''nowhere'' < 8000" by simp
  show ?thesis by (rule returns_mono [OF add_host_unresolved [OF initial_config(1) refl l]]) (auto simp: n)
qed

end
