(* ===== verification/Cse_Session.thy ===== *)
theory Cse_Session
  imports Cse_Base
begin

text \<open>
  Session affinity (stream.c \<open>decode_session\<close>, \<open>cse_session_from_string\<close>; mod_caucho.c
  \<open>get_session_index\<close>): the first three characters of a session id name the servlet runner
  that owns the session, as three base-64 digits with the least significant first.
\<close>

subsection \<open>Decoding\<close>

definition session_digit :: "int \<Rightarrow> int option" where
  "session_digit code =
     (if 97 \<le> code \<and> code \<le> 122 then Some (code - 97)
      else if 65 \<le> code \<and> code \<le> 90 then Some (code - 65 + 26)
      else if 48 \<le> code \<and> code \<le> 57 then Some (code - 65 + 52)
      else if code = 95 then Some 62
      else if code = 47 then Some 63
      else None)"

function decode_loop :: "string \<Rightarrow> int \<Rightarrow> int \<Rightarrow> int res" where
  "decode_loop session i value =
     (if i < 0 then Inr value
      else bindR (char_at session i) (\<lambda>c.
        case session_digit (schar c) of
          None \<Rightarrow> Inr (-1)
        | Some d \<Rightarrow> decode_loop session (i - 1) (64 * value + d)))"
  by pat_completeness auto
termination
  by (relation "measure (\<lambda>(session, i, value). nat (i + 1))") auto

definition decode_session :: "string \<Rightarrow> int res" where
  "decode_session session = decode_loop session 2 0"

definition cse_session_from_string :: "string \<Rightarrow> string \<Rightarrow> int res" where
  "cse_session_from_string source cookie =
     (case strstr source cookie of
        Some m \<Rightarrow> decode_session (drop (m + length cookie) source)
      | None \<Rightarrow> Inr (-1))"

text \<open>
  The session of a request: the Cookie headers in order, then the URI.  Headers are Apache's
  table entries, whose key or value may be missing.
\<close>

fun session_in_headers :: "(string option \<times> string option) list \<Rightarrow> int res" where
  "session_in_headers [] = Inr (-1)"
| "session_in_headers ((Some key, Some val) # hdrs) =
     (if \<not> strcaseeq key ''Cookie'' then session_in_headers hdrs
      else bindR (cse_session_from_string val ''JSESSIONID='') (\<lambda>session.
        if session \<ge> 0 then Inr session else session_in_headers hdrs))"
| "session_in_headers (_ # hdrs) = session_in_headers hdrs"

definition get_session_index :: "(string option \<times> string option) list \<Rightarrow> string \<Rightarrow> int res" where
  "get_session_index hdrs uri =
     bindR (session_in_headers hdrs) (\<lambda>session.
       if session \<ge> 0 then Inr session
       else cse_session_from_string uri '';jsessionid='')"

subsection \<open>What a session id decodes to\<close>

definition digit_of :: "char \<Rightarrow> int option" where
  "digit_of c = session_digit (schar c)"

lemma session_digit_range: "session_digit n = Some d \<Longrightarrow> 0 \<le> d \<and> d < 64 \<and> (d < 52 \<or> 61 < d)"
  by (auto simp: session_digit_def split: if_splits)

lemma digit_of_range: "digit_of c = Some d \<Longrightarrow> 0 \<le> d \<and> d < 64 \<and> (d < 52 \<or> 61 < d)"
  unfolding digit_of_def by (rule session_digit_range)

declare decode_loop.simps [simp del]

lemma decode_loop_end [simp]: "i < 0 \<Longrightarrow> decode_loop s i v = Inr v"
  by (simp add: decode_loop.simps)

lemma decode_loop_step:
  "0 \<le> i \<Longrightarrow> decode_loop s i v = bindR (char_at s i) (\<lambda>c.
     case digit_of c of None \<Rightarrow> Inr (-1) | Some d \<Rightarrow> decode_loop s (i - 1) (64 * v + d))"
  by (simp add: decode_loop.simps [of s i v] digit_of_def)

lemma digit_of_NUL [simp]: "digit_of NUL = None"
  by (simp add: digit_of_def schar_def session_digit_def)

lemma char_at_simps [simp]:
  "char_at (a # s) 0 = Inr a" "char_at (a # b # s) 1 = Inr b" "char_at (a # b # c # s) 2 = Inr c"
  "char_at [] 0 = Inr NUL" "char_at [a] 1 = Inr NUL" "char_at [a, b] 2 = Inr NUL"
  "char_at [] 2 = Inl OutOfBounds" "char_at [a] 2 = Inl OutOfBounds"
  by (simp_all add: char_at_def nat_numeral)

lemma decode_session_three:
  "decode_session (c0 # c1 # c2 # rest) = Inr
     (case (digit_of c0, digit_of c1, digit_of c2) of
        (Some d0, Some d1, Some d2) \<Rightarrow> d0 + 64 * d1 + 4096 * d2 | _ \<Rightarrow> -1)"
  by (simp add: decode_session_def decode_loop_step split: option.split)

lemma decode_session_two: "decode_session [c0, c1] = Inr (-1)"
  by (simp add: decode_session_def decode_loop_step)

lemma decode_session_short: "length s < 2 \<Longrightarrow> decode_session s = Inl OutOfBounds"
  by (cases s) (auto simp: decode_session_def decode_loop_step)

text \<open>The cases a decoder meets, by the length of the id.\<close>

lemma session_id_cases:
  obtains "length s < 2" | c0 c1 where "s = [c0, c1]" | c0 c1 c2 rest where "s = c0 # c1 # c2 # rest"
  by (cases s; cases "tl s"; cases "tl (tl s)") auto

lemma decode_session_result:
  assumes "decode_session s = Inr n" "n \<noteq> -1"
  obtains c0 c1 c2 rest d0 d1 d2 where "s = c0 # c1 # c2 # rest"
    "digit_of c0 = Some d0" "digit_of c1 = Some d1" "digit_of c2 = Some d2"
    "n = d0 + 64 * d1 + 4096 * d2"
proof (cases rule: session_id_cases [of s])
  case 3
  then show thesis using assms that
    by (auto simp: decode_session_three split: option.splits)
qed (use assms in \<open>auto simp: decode_session_short decode_session_two\<close>)

subsection \<open>Properties\<close>

text \<open>
  C35: decoding reads outside the string exactly when fewer than two characters follow the
  cookie name (an empty or one-character session value), because the loop reads the third
  character first; otherwise it returns normally.
\<close>

theorem decode_session_in_bounds:
  "decode_session s = (if length s < 2 then Inl OutOfBounds
     else Inr (if length s = 2 then -1 else
       (case (digit_of (s ! 0), digit_of (s ! 1), digit_of (s ! 2)) of
          (Some d0, Some d1, Some d2) \<Rightarrow> d0 + 64 * d1 + 4096 * d2 | _ \<Rightarrow> -1)))"
  by (cases rule: session_id_cases [of s])
    (auto simp: decode_session_short decode_session_two decode_session_three)

text \<open>
  A decoded session index is -1 or a number of three base-64 digits.
\<close>

theorem decode_session_range:
  assumes "decode_session s = Inr n"
  shows "n = -1 \<or> (0 \<le> n \<and> n < 64 ^ 3)"
proof (cases "n = -1")
  case False
  obtain c0 c1 c2 rest d0 d1 d2 where "s = c0 # c1 # c2 # rest"
    "digit_of c0 = Some d0" "digit_of c1 = Some d1" "digit_of c2 = Some d2"
    "n = d0 + 64 * d1 + 4096 * d2" by (rule decode_session_result [OF assms False])
  then show ?thesis using digit_of_range [of c0 d0] digit_of_range [of c1 d1] digit_of_range [of c2 d2]
    by simp
qed simp

theorem decode_session_range_witness: "(25::int) + 64 * 0 + 4096 * 0 = -1 \<or> (0 \<le> (25::int) \<and> 25 < (64::int) ^ 3)"
proof -
  have "decode_session ''zaa'' = Inr 25"
    by (simp add: decode_session_three digit_of_def schar_def session_digit_def)
  from decode_session_range [OF this] show ?thesis by simp
qed

text \<open>The characters the letters, \<open>_\<close> and \<open>/\<close> stand for: the digits the decoder can undo.\<close>

definition session_char :: "int \<Rightarrow> char" where
  "session_char d = (if d < 26 then char_of (d + 97)
     else if d < 52 then char_of (d - 26 + 65) else if d = 62 then CHR ''_'' else CHR ''/'')"

definition plain_digit :: "int \<Rightarrow> bool" where
  "plain_digit d \<longleftrightarrow> (0 \<le> d \<and> d < 52) \<or> d = 62 \<or> d = 63"

lemma digit_of_session_char: "plain_digit d \<Longrightarrow> digit_of (session_char d) = Some d"
  by (auto simp: plain_digit_def digit_of_def session_char_def session_digit_def schar_def Let_def)

text \<open>
  C34: an index whose base-64 digits are written as letters, \<open>_\<close> or \<open>/\<close> decodes to itself,
  whatever follows it in the cookie.
\<close>

theorem decode_session_roundtrip:
  assumes "plain_digit d0" "plain_digit d1" "plain_digit d2"
  shows "decode_session (session_char d0 # session_char d1 # session_char d2 # rest) =
    Inr (d0 + 64 * d1 + 4096 * d2)"
  using assms by (simp add: decode_session_three digit_of_session_char)

theorem decode_session_roundtrip_witness:
  "decode_session (session_char 3 # session_char 30 # session_char 62 # ''xyz'') = Inr (3 + 64 * 30 + 4096 * 62)"
  by (rule decode_session_roundtrip) (simp_all add: plain_digit_def)

text \<open>
  Decimal digits are decoded with the offset of the capital letters, so \<open>0\<close> to \<open>9\<close> stand
  for the same values as \<open>J\<close> to \<open>S\<close>, and no session id decodes to an index that has a base-64
  digit from 52 to 61.
\<close>

lemma decode_session_digits_collide:
  "(\<forall>rest. decode_session (CHR ''0'' # rest) = decode_session (CHR ''J'' # rest)) \<and>
   (\<forall>rest. decode_session (CHR ''9'' # rest) = decode_session (CHR ''S'' # rest)) \<and>
   (\<forall>s n. decode_session s = Inr n \<and> 0 \<le> n \<longrightarrow>
      (\<forall>k < 3. \<not> (52 \<le> n div 64 ^ k mod 64 \<and> n div 64 ^ k mod 64 \<le> 61)))"
proof (intro conjI allI impI)
  have same: "digit_of CHR ''0'' = digit_of CHR ''J''" "digit_of CHR ''9'' = digit_of CHR ''S''"
    by (simp_all add: digit_of_def schar_def session_digit_def)
  have swap: "decode_session (a # rest) = decode_session (b # rest)" if "digit_of a = digit_of b" for a b rest
    using that by (simp add: decode_session_in_bounds)
  show "decode_session (CHR ''0'' # rest) = decode_session (CHR ''J'' # rest)"
    "decode_session (CHR ''9'' # rest) = decode_session (CHR ''S'' # rest)" for rest
    by (rule swap, rule same)+
  fix s n and k :: nat
  assume e: "decode_session s = Inr n \<and> 0 \<le> n" and k: "k < 3"
  then have "decode_session s = Inr n" "n \<noteq> -1" by auto
  then obtain c0 c1 c2 rest d0 d1 d2 where d: "s = c0 # c1 # c2 # rest"
      "digit_of c0 = Some d0" "digit_of c1 = Some d1" "digit_of c2 = Some d2"
      "n = d0 + 64 * d1 + 4096 * d2" by (rule decode_session_result)
  note r = digit_of_range [OF d(2)] digit_of_range [OF d(3)] digit_of_range [OF d(4)]
  have n: "n = d0 + 64 * (d1 + 64 * d2)" using d(5) by simp
  have b: "0 \<le> a \<and> a < 64 \<Longrightarrow> (a + 64 * b) mod 64 = a \<and> (a + 64 * b) div 64 = b" for a b :: int
    by simp
  have "n mod 64 = d0" "n div 64 = d1 + 64 * d2" using b [of d0 "d1 + 64 * d2"] r n by auto
  moreover have "(d1 + 64 * d2) mod 64 = d1" "(d1 + 64 * d2) div 64 = d2" using b [of d1 d2] r by auto
  moreover have "n div 4096 = n div 64 div 64" using zdiv_zmult2_eq [of 64 n 64] by simp
  ultimately have "n mod 64 = d0" "n div 64 mod 64 = d1" "n div 4096 mod 64 = d2" using r by auto
  moreover have "k = 0 \<or> k = 1 \<or> k = 2" using k by linarith
  ultimately show "\<not> (52 \<le> n div 64 ^ k mod 64 \<and> n div 64 ^ k mod 64 \<le> 61)"
    using r by (elim disjE) auto
qed

lemma decode_session_digits_collide_example:
  "decode_session ''0aa'' = decode_session ''Jaa''"
  using decode_session_digits_collide by blast

text \<open>
  The session is taken at the first occurrence of the cookie name, and a source without
  the name has no session.
\<close>

theorem session_from_first_occurrence:
  "(\<forall>a rest. source = a @ cookie @ rest \<and> (\<forall>a' rest'. source = a' @ cookie @ rest' \<longrightarrow> length a \<le> length a') \<longrightarrow>
      cse_session_from_string source cookie = decode_session rest) \<and>
   (\<not> sublist cookie source \<longrightarrow> cse_session_from_string source cookie = Inr (-1))"
proof (intro conjI allI impI)
  fix a rest
  assume h: "source = a @ cookie @ rest \<and>
    (\<forall>a' rest'. source = a' @ cookie @ rest' \<longrightarrow> length a \<le> length a')"
  then obtain n where n: "strstr source cookie = Some n" "n \<le> length a"
    using strstr_append_hit by blast
  have "length a \<le> length (take n source)" using h cs.find_split [OF n(1)] by blast
  then have "n = length a" using n(2) by simp
  then show "cse_session_from_string source cookie = decode_session rest"
    using n h by (simp add: cse_session_from_string_def)
next
  assume "\<not> sublist cookie source"
  then have "strstr source cookie = None" by (simp add: strstr_None_iff)
  then show "cse_session_from_string source cookie = Inr (-1)"
    by (simp add: cse_session_from_string_def)
qed

theorem session_from_first_occurrence_witness:
  "cse_session_from_string ''k=baa;k=caa'' ''k='' = decode_session ''baa;k=caa''"
  using session_from_first_occurrence [of "''k=baa;k=caa''" "''k=''"] by fastforce

text \<open>
  Cookie headers have priority over the URI: a session found in a Cookie header, in
  whatever letter case the header is named, is the session of the request; headers that are
  not cookies do not matter, and without any cookie header the URI decides.
\<close>

lemma session_cookie_priority:
  assumes "strcaseeq key ''Cookie''"
    and "\<forall>(k, v) \<in> set before. k = None \<or> v = None \<or> \<not> strcaseeq (the k) ''Cookie''"
  shows "(\<forall>n. cse_session_from_string val ''JSESSIONID='' = Inr n \<and> 0 \<le> n \<longrightarrow>
      get_session_index (before @ (Some key, Some val) # after) uri = Inr n) \<and>
    get_session_index before uri = cse_session_from_string uri '';jsessionid=''"
proof -
  have skip: "session_in_headers (before @ hdrs) = session_in_headers hdrs" for hdrs
    using assms(2) by (induction before rule: session_in_headers.induct) auto
  have "session_in_headers before = Inr (-1)" using skip [of "[]"] by simp
  then show ?thesis using assms(1) skip by (auto simp: get_session_index_def)
qed

lemma session_cookie_priority_example:
  "get_session_index ([(Some ''Host'', Some ''h'')] @ (Some ''COOKIE'', Some ''JSESSIONID=baaX'') # [])
     ''/x;jsessionid=caa'' = Inr 1"
proof -
  have k: "strcaseeq ''COOKIE'' ''Cookie''" by code_simp
  have b: "\<forall>(k, v) \<in> set [(Some ''Host'', Some ''h'')]. k = None \<or> v = None \<or> \<not> strcaseeq (the k) ''Cookie''"
    by code_simp
  have v: "cse_session_from_string ''JSESSIONID=baaX'' ''JSESSIONID='' = Inr 1"
    by (simp add: cse_session_from_string_def decode_session_three digit_of_def schar_def session_digit_def)
  show ?thesis
    using session_cookie_priority [OF k b, of "''JSESSIONID=baaX''" "[]" "''/x;jsessionid=caa''"] v by simp
qed

end
