(* ===== verification/Cse_Request.thy ===== *)
theory Cse_Request
  imports Cse_Lifecycle Cse_Session Cse_Location
begin

text \<open>
  The request handler (mod_caucho.c): what the module writes to a servlet runner, how it relays
  the response to the client, the handler of a request with its error page, and the status
  page. Apache is a log of calls and a script of answers in the record \<open>request\<close>.
\<close>

subsection \<open>Packet codes\<close>

definition CSE_PROTOCOL :: char where "CSE_PROTOCOL = CHR ''c''"
definition CSE_METHOD :: char where "CSE_METHOD = CHR ''d''"
definition CSE_QUERY_STRING :: char where "CSE_QUERY_STRING = CHR ''e''"
definition CSE_SERVER_NAME :: char where "CSE_SERVER_NAME = CHR ''f''"
definition CSE_SERVER_PORT :: char where "CSE_SERVER_PORT = CHR ''g''"
definition CSE_REMOTE_HOST :: char where "CSE_REMOTE_HOST = CHR ''h''"
definition CSE_REMOTE_ADDR :: char where "CSE_REMOTE_ADDR = CHR ''i''"
definition CSE_REMOTE_PORT :: char where "CSE_REMOTE_PORT = CHR ''j''"
definition CSE_REMOTE_USER :: char where "CSE_REMOTE_USER = CHR ''m''"
definition CSE_AUTH_TYPE :: char where "CSE_AUTH_TYPE = CHR ''n''"
definition CSE_URI :: char where "CSE_URI = CHR ''o''"
definition CSE_CONTENT_LENGTH :: char where "CSE_CONTENT_LENGTH = CHR ''p''"
definition CSE_CONTENT_TYPE :: char where "CSE_CONTENT_TYPE = CHR ''q''"
definition CSE_IS_SECURE :: char where "CSE_IS_SECURE = CHR ''r''"
definition CSE_SESSION_GROUP :: char where "CSE_SESSION_GROUP = CHR ''s''"
definition CSE_CLIENT_CERT :: char where "CSE_CLIENT_CERT = CHR ''t''"
definition CSE_HEADER :: char where "CSE_HEADER = CHR ''H''"
definition CSE_VALUE :: char where "CSE_VALUE = CHR ''V''"
definition CSE_STATUS :: char where "CSE_STATUS = CHR ''S''"
definition CSE_SEND_HEADER :: char where "CSE_SEND_HEADER = CHR ''G''"
definition CSE_ACK :: char where "CSE_ACK = CHR ''A''"
definition CSE_DATA :: char where "CSE_DATA = CHR ''D''"
definition CSE_FLUSH :: char where "CSE_FLUSH = CHR ''F''"
definition CSE_KEEPALIVE :: char where "CSE_KEEPALIVE = CHR ''K''"
definition CSE_END :: char where "CSE_END = CHR ''Z''"
definition CSE_CLOSE :: char where "CSE_CLOSE = CHR ''X''"

lemmas cse_codes = CSE_STATUS_def CSE_HEADER_def CSE_DATA_def CSE_FLUSH_def CSE_KEEPALIVE_def
  CSE_SEND_HEADER_def CSE_END_def CSE_CLOSE_def CSE_ACK_def

subsection \<open>The request, as Apache gives it\<close>

text \<open>
  The fields of \<open>request_rec\<close> and \<open>conn_rec\<close> the module reads, what it sets, and the answers of
  the Apache calls it makes: \<open>r_rwrite\<close> for each \<open>ap_rwrite\<close>, \<open>r_setup\<close> and \<open>r_should_block\<close> for
  the client block calls, \<open>r_blocks\<close> for each \<open>ap_get_client_block\<close>, \<open>r_ssl_vars\<close> for the hook by which
  mod_ssl gives its variables. Without EAPI or without mod_ssl there is no answer, so that the empty list is the
  plain build. Calls with an effect on the response are logged in order.
\<close>

datatype api_event =
    RWrite string
  | RPuts string
  | RFlush
  | SendHttpHeader int "string option" "string option"
  | TableSet string string
  | TableAdd string string
  | SubRequest string
  | SoftTimeout
  | KillTimeout

record request =
  r_protocol :: "string option"
  r_method :: "string option"
  r_unparsed_uri :: string
  r_uri :: string
  r_args :: "string option"
  r_server_name :: "string option"
  r_server_port :: nat
  r_remote_host :: "string option"
  r_remote_ip :: string
  r_remote_port :: nat
  r_user :: "string option"
  r_auth_type :: "string option"
  r_headers_in :: "(string option \<times> string option) list"
  r_subprocess_env :: "(string option \<times> string option) list"
  r_ssl_vars :: "(string \<times> string option) list"
  r_header_only :: bool
  r_request_time :: "32 word"
  r_setup :: int
  r_should_block :: bool
  r_blocks :: "string option list"
  r_rwrite :: "int list"
  r_status :: int
  r_status_line :: "string option"
  r_content_type :: "string option"
  r_log :: "api_event list"

definition api :: "api_event \<Rightarrow> request \<Rightarrow> request" where
  "api e r = r\<lparr>r_log := r_log r @ [e]\<rparr>"

text \<open>\<open>ap_rwrite\<close> takes as many bytes as it says, or fails with -1.\<close>

definition ap_rwrite :: "string \<Rightarrow> request \<Rightarrow> int \<times> request" where
  "ap_rwrite bs r =
     (case r_rwrite r of
        [] \<Rightarrow> (int (length bs), api (RWrite bs) r)
      | k # ks \<Rightarrow>
          if k < 0 then (-1, r\<lparr>r_rwrite := ks\<rparr>)
          else let n = min (nat k) (length bs)
               in (int n, api (RWrite (take n bs)) (r\<lparr>r_rwrite := ks\<rparr>)))"

definition ap_send_http_header :: "request \<Rightarrow> request" where
  "ap_send_http_header r = api (SendHttpHeader (r_status r) (r_status_line r) (r_content_type r)) r"

subsection \<open>Writing the request\<close>

text \<open>A run of \<open>cse_write_string\<close> calls; a null string is skipped by the routine.\<close>

fun write_strings :: "(char \<times> string option) list \<Rightarrow> io \<Rightarrow> io res" where
  "write_strings [] x = Inr x"
| "write_strings ((code, str) # items) x = bindR (cse_write_string code str x) (write_strings items)"

text \<open>The URI up to its query, copied byte by byte to an array of 1024.\<close>

definition copy_uri :: "string \<Rightarrow> string res" where
  "copy_uri uri =
     (let buf = takeWhile (\<lambda>c. c \<noteq> CHR ''?'') uri
      in if length buf + 1 > 1024 then Inl OutOfBounds else Inr buf)"

text \<open>The variables of mod_ssl, each by a call of its hook: the certificate, and the others as headers.\<close>

definition ssl_vars :: "string list" where
  "ssl_vars = [''SSL_CLIENT_S_DN'', ''SSL_CIPHER'', ''SSL_CIPHER_EXPORT'', ''SSL_PROTOCOL'', ''SSL_CIPHER_USEKEYSIZE'', ''SSL_CIPHER_ALGKEYSIZE'']"

definition ssl_items :: "request \<Rightarrow> (char \<times> string option) list" where
  "ssl_items r =
     (case map_of (r_ssl_vars r) ''SSL_CLIENT_CERT'' of Some var \<Rightarrow> [(CSE_CLIENT_CERT, var)] | None \<Rightarrow> []) @
     concat (map (\<lambda>name. case map_of (r_ssl_vars r) name of
        Some var \<Rightarrow> [(CSE_HEADER, Some name), (CSE_VALUE, var)]
      | None \<Rightarrow> []) ssl_vars)"

definition env_items :: "request \<Rightarrow> string \<Rightarrow> int \<Rightarrow> (char \<times> string option) list" where
  "env_items r uri session =
     [(CSE_URI, Some uri)] @
     (if r_args r \<noteq> None then [(CSE_QUERY_STRING, r_args r)] else []) @
     [(CSE_SERVER_NAME, r_server_name r),
      (CSE_SERVER_PORT, Some (nat_str (r_server_port r))),
      (CSE_REMOTE_HOST, if r_remote_host r \<noteq> None then r_remote_host r else Some (r_remote_ip r)),
      (CSE_REMOTE_ADDR, Some (r_remote_ip r)),
      (CSE_REMOTE_PORT, Some (nat_str (r_remote_port r)))] @
     (if r_user r \<noteq> None then [(CSE_REMOTE_USER, r_user r)] else []) @
     (if r_auth_type r \<noteq> None then [(CSE_AUTH_TYPE, r_auth_type r)] else []) @
     [(CSE_SESSION_GROUP, Some (int_str session))] @
     ssl_items r"

definition write_env :: "config \<Rightarrow> request \<Rightarrow> io \<Rightarrow> io res" where
  "write_env config r x =
     bindR (write_strings [(CSE_PROTOCOL, r_protocol r), (CSE_METHOD, r_method r)] x) (\<lambda>(s, w).
     bindR (copy_uri (r_unparsed_uri r)) (\<lambda>uri.
       case s_srun s of
         None \<Rightarrow> Inl NullPointer
       | Some k \<Rightarrow> bindR (get_srun config (int k)) (\<lambda>srun.
           write_strings (env_items r uri (sr_session srun)) (s, w))))"

fun header_items :: "(string option \<times> string option) list \<Rightarrow> (char \<times> string option) list" where
  "header_items [] = []"
| "header_items ((None, val) # hdrs) = header_items hdrs"
| "header_items ((Some key, val) # hdrs) =
     (if strcaseeq key ''Content-type'' then [(CSE_CONTENT_TYPE, val)]
      else if strcaseeq key ''Content-length'' then [(CSE_CONTENT_LENGTH, val)]
      else [(CSE_HEADER, Some key), (CSE_VALUE, val)]) @ header_items hdrs"

definition write_headers :: "request \<Rightarrow> io \<Rightarrow> io res" where
  "write_headers r = write_strings (header_items (r_headers_in r))"

text \<open>
  The environment that mod_ssl adds.  A variable without a value is dereferenced when its
  name makes the code compare the value.
\<close>

fun write_added_loop :: "string option \<Rightarrow> (string option \<times> string option) list \<Rightarrow> io \<Rightarrow> io res" where
  "write_added_loop user [] x = Inr x"
| "write_added_loop user ((None, val) # hdrs) x = write_added_loop user hdrs x"
| "write_added_loop user ((Some key, val) # hdrs) x =
     bindR (if key = ''HTTPS'' \<and> val = None then Inl NullPointer
            else if key = ''HTTPS'' \<and> val = Some ''on'' then cse_write_string CSE_IS_SECURE (Some []) x
            else if user = None \<and> key = ''SSL_CLIENT_DN'' then cse_write_string CSE_REMOTE_USER val x
            else Inr x) (\<lambda>x.
     bindR (write_strings [(CSE_HEADER, Some key), (CSE_VALUE, val)] x) (write_added_loop user hdrs))"

definition write_added_headers :: "request \<Rightarrow> io \<Rightarrow> io res" where
  "write_added_headers r = write_added_loop (r_user r) (r_subprocess_env r)"

subsection \<open>Relaying the response\<close>

text \<open>
  The inner loop of \<open>cse_write_response\<close> over one piece of the read buffer: the counter goes
  down by the length of the piece, not by what \<open>ap_rwrite\<close> took.  The piece is never empty.
\<close>

function rwrite_loop :: "string \<Rightarrow> int \<Rightarrow> request \<Rightarrow> bool \<times> request" where
  "rwrite_loop piece writelen r =
     (if writelen > 0 \<and> piece \<noteq> [] then
        let (sentlen, r) = ap_rwrite (take (nat writelen) piece) r in
        if sentlen < 0 then (False, r)
        else rwrite_loop piece (writelen - int (length piece)) r
      else (True, r))"
  by pat_completeness auto
termination
  by (relation "measure (\<lambda>(piece, writelen, r). nat writelen)") auto

function cse_write_response :: "int \<Rightarrow> request \<Rightarrow> io \<Rightarrow> (int \<times> request \<times> io) res" where
  "cse_write_response len r (s, w) =
     (if len > 0 then
        let (fl, s, w) = ensure_data (s, w) in
        if fl < 0 then Inr (-1, r, s, w)
        else let sublen = s_read_length s - s_read_offset s;
                 sublen = (if len < sublen then len else sublen)
             in bindR (read_mem (s_read_buf s) (s_read_offset s) sublen) (\<lambda>piece.
                let (ok, r) = rwrite_loop piece sublen r in
                if \<not> ok then Inr (-1, r, cse_close (s, w))
                else cse_write_response (len - sublen) r (s\<lparr>s_read_offset := s_read_offset s + sublen\<rparr>, w))
      else Inr (1, r, s, w))"
  by pat_completeness auto
termination
  by (relation "measure (\<lambda>(len, r, x). nat len)")
    (auto dest: ensure_data_progress simp: eq_commute)

declare cse_write_response.simps [simp del] rwrite_loop.simps [simp del]

context reading
begin

lemma R_write_response:
  "cse_write_response len r (s, w) = Inr (res, r', y) \<Longrightarrow> R (s, w) y"
proof (induction "nat len" arbitrary: len r s w rule: less_induct)
  case less
  obtain fl s1 w1 where e: "ensure_data (s, w) = (fl, s1, w1)" by (rule prod_cases3)
  note c = R_ensure [OF e]
  consider "len \<le> 0" | "0 < len" "fl < 0" | "0 < len" "\<not> fl < 0" by linarith
  then show ?case
  proof cases
    case 1
    then show ?thesis using less.prems R_refl by (simp add: cse_write_response.simps)
  next
    case 2
    then show ?thesis using less.prems e c by (simp add: cse_write_response.simps)
  next
    case 3
    define n where "n = (if len < s_read_length s1 - s_read_offset s1 then len else s_read_length s1 - s_read_offset s1)"
    have n: "0 < n" using 3 ensure_data_progress [OF e 3(2)] by (simp add: n_def)
    have "bindR (read_mem (s_read_buf s1) (s_read_offset s1) n) (\<lambda>piece.
      let (ok, r) = rwrite_loop piece n r in
        if \<not> ok then Inr (-1, r, cse_close (s1, w1))
        else cse_write_response (len - n) r (advance n s1, w1)) = Inr (res, r', y)"
      using less.prems [unfolded cse_write_response.simps [of len r s w]] 3 e unfolding n_def
      by (simp add: Let_def)
    then obtain piece where p: "(let (ok, r) = rwrite_loop piece n r in
        if \<not> ok then Inr (-1, r, cse_close (s1, w1))
        else cse_write_response (len - n) r (advance n s1, w1)) = Inr (res, r', y)"
      by (auto simp: bindR_Inr_iff)
    obtain ok r1 where o: "rwrite_loop piece n r = (ok, r1)" by (rule prod.exhaust)
    show ?thesis
    proof (cases ok)
      case False
      then have "y = cse_close (s1, w1)" using p o by simp
      then show ?thesis using R_trans [OF c R_close] by simp
    next
      case True
      then have r: "cse_write_response (len - n) r1 (advance n s1, w1) = Inr (res, r', y)" using p o by simp
      have "nat (len - n) < nat len" using n 3 by simp
      from less.hyps [OF this r] have "R (advance n s1, w1) y" .
      moreover have "R (s1, w1) (advance n s1, w1)" by (rule R_advance) (use n in \<open>auto simp: n_def\<close>)
      ultimately show ?thesis by (blast intro: R_trans [OF c] R_trans)
    qed
  qed
qed

end

subsection \<open>The response loop\<close>

text \<open>The three arrays of 8193 bytes of \<open>send_data\<close>, which are not initialised.\<close>

record arrays =
  a_buf :: string
  a_key :: string
  a_value :: string

text \<open>
  The body of the switch.  The flag is True when \<open>send_data\<close> returns -1 from inside it.
\<close>

definition send_status :: "int \<Rightarrow> arrays \<Rightarrow> request \<Rightarrow> io \<Rightarrow> (arrays \<times> request \<times> io) res" where
  "send_status len a r x =
     bindR (cse_read_all (a_buf a) len x) (\<lambda>(_, buf, x).
     bindR (store buf len [NUL]) (\<lambda>buf.
       let i = length (takeWhile (\<lambda>c. c \<noteq> NUL \<and> c \<noteq> CHR '' '') buf) + 1
       in bindR (cstr_at buf i) (\<lambda>line.
            Inr (a\<lparr>a_buf := buf\<rparr>, r\<lparr>r_status := atoi line, r_status_line := Some line\<rparr>, x))))"

definition send_header :: "int \<Rightarrow> arrays \<Rightarrow> request \<Rightarrow> io \<Rightarrow> (arrays \<times> request \<times> io) res" where
  "send_header len a r x =
     bindR (cse_read_all (a_key a) len x) (\<lambda>(_, key, x).
     bindR (store key len [NUL]) (\<lambda>key.
     bindR (cse_read_string (a_value a) 8193 x) (\<lambda>(_, value, x).
     bindR (cstr_at key 0) (\<lambda>k.
     bindR (cstr_at value 0) (\<lambda>v.
       let a = a\<lparr>a_key := key, a_value := value\<rparr>;
           r = (if strcaseeq k ''content-type'' then r\<lparr>r_content_type := Some v\<rparr>
                else if strcaseeq k ''set-cookie'' then api (TableAdd k v) r
                else api (TableSet k v) r)
       in Inr (a, r, x))))))"

definition send_packet ::
    "int \<Rightarrow> int \<Rightarrow> bool \<Rightarrow> arrays \<Rightarrow> request \<Rightarrow> io \<Rightarrow> (bool \<times> bool \<times> arrays \<times> request \<times> io) res" where
  "send_packet code len keepalive a r x =
     (if code = code_of CSE_STATUS then bindR (send_status len a r x) (\<lambda>y. Inr (False, keepalive, y))
      else if code = code_of CSE_HEADER then bindR (send_header len a r x) (\<lambda>y. Inr (False, keepalive, y))
      else if code = code_of CSE_DATA then
        bindR (cse_write_response len r x) (\<lambda>(res, r, x). Inr (res < 0, keepalive, a, r, x))
      else if code = code_of CSE_FLUSH then Inr (False, keepalive, a, api RFlush r, x)
      else if code = code_of CSE_KEEPALIVE then Inr (False, True, a, r, x)
      else if code = code_of CSE_SEND_HEADER then Inr (False, keepalive, a, ap_send_http_header r, x)
      else if code = -1 then Inr (False, keepalive, a, r, x)
      else bindR (cse_read_all (a_buf a) len x) (\<lambda>(_, buf, x). Inr (False, keepalive, a\<lparr>a_buf := buf\<rparr>, r, x)))"

context reading
begin

lemma R_send_packet:
  assumes "send_packet code len keepalive a r x = Inr (res, keepalive', a', r', y)"
  shows "R x y"
proof -
  have resp: "cse_write_response n r x = Inr (q, b, z) \<Longrightarrow> R x z" for n q b z
    by (cases x) (auto dest: R_write_response)
  have status: "send_status len a r x = Inr (b, c, z) \<Longrightarrow> R x z" for b c z
    by (auto simp: send_status_def bindR_Inr_iff Let_def dest: R_read_all)
  have header: "send_header len a r x = Inr (b, c, z) \<Longrightarrow> R x z" for b c z
    by (auto simp: send_header_def bindR_Inr_iff Let_def dest!: R_read_all R_read_string intro: R_trans)
  show ?thesis using assms R_refl
    by (auto simp: send_packet_def bindR_Inr_iff split: if_splits dest: R_read_all resp status header)
qed

end

function send_data :: "int \<Rightarrow> bool \<Rightarrow> arrays \<Rightarrow> request \<Rightarrow> io \<Rightarrow> (int \<times> bool \<times> request \<times> io) res" where
  "send_data ack keepalive a r x =
     bindR (read_header x) (\<lambda>(header, x). case header of (code, l3, len) \<Rightarrow>
       if s_socket (fst x) < 0 then Inr (-1, keepalive, r, x)
       else bindR (send_packet code len keepalive a r x) (\<lambda>(failed, keepalive, a, r, x).
         if failed then Inr (-1, keepalive, r, x)
         else if code > 0 \<and> code \<noteq> code_of CSE_END \<and> code \<noteq> code_of CSE_CLOSE \<and> code \<noteq> ack
           then send_data ack keepalive a r x
         else Inr (code, keepalive, r, x)))"
  by pat_completeness auto
termination
proof (relation "measure (\<lambda>(ack, keepalive, a, r, x). bytes_left x)", goal_cases)
  case (2 ack keepalive a r x)
  then show ?case by (auto dest!: read_header_takes_one left.R_send_packet)
qed simp

declare send_data.simps [simp del]

subsection \<open>A request\<close>

text \<open>
  The client's body, one element per call of \<open>ap_get_client_block\<close>: a block, an empty block at
  the end, or \<open>None\<close> on an error. \<open>arrays\<close> are the uninitialised arrays of \<open>send_data\<close>, the same
  for each of its calls.
\<close>

fun post_loop ::
    "string option list \<Rightarrow> bool \<Rightarrow> arrays \<Rightarrow> bool \<Rightarrow> request \<Rightarrow> io \<Rightarrow> (bool \<times> request \<times> io) res" where
  "post_loop [] isFirst a keepalive r x = Inr (keepalive, r, x)"
| "post_loop (None # blocks) isFirst a keepalive r x = Inr (keepalive, r, x)"
| "post_loop (Some buf # blocks) isFirst a keepalive r x =
     (if buf = [] then Inr (keepalive, r, x)
      else bindR (if isFirst then Inr (0, keepalive, r, x)
                  else send_data (code_of CSE_ACK) keepalive a r x) (\<lambda>(code, keepalive, r, x).
        if \<not> isFirst \<and> (code < 0 \<or> code = code_of CSE_END \<or> code = code_of CSE_CLOSE)
        then Inr (keepalive, r, x)
        else bindR (cse_write_packet CSE_DATA buf (int (length buf)) x)
               (post_loop blocks False a keepalive r)))"

definition write_request :: "config \<Rightarrow> arrays \<Rightarrow> bool \<Rightarrow> request \<Rightarrow> io \<Rightarrow> (bool \<times> bool \<times> request \<times> io) res" where
  "write_request config a keepalive r x =
     bindR (write_env config r x) (\<lambda>x.
     bindR (write_headers r x) (\<lambda>x.
     bindR (write_added_headers r x) (\<lambda>x.
     bindR (if r_should_block r then post_loop (r_blocks r) True a keepalive r x
            else Inr (keepalive, r, x)) (\<lambda>(keepalive, r, x).
     bindR (cse_write_packet CSE_END [] 0 x) (\<lambda>x.
     bindR (send_data (code_of CSE_END) keepalive a r x) (\<lambda>(code, keepalive, r, x).
       Inr (code = code_of CSE_END, keepalive, r, x)))))))"

text \<open>
  \<open>handle_include\<close> runs a subrequest: \<open>sub_req\<close> gives the status of the lookup and of the run.
  HTTP_OK is 200, OK is 0.
\<close>

definition handle_include :: "(string \<Rightarrow> int \<times> int) \<Rightarrow> string \<Rightarrow> request \<Rightarrow> int \<times> request" where
  "handle_include sub_req uri r =
     (let (found, status) = sub_req uri in
      if found \<noteq> 200 then (-1, r) else (status, api (SubRequest uri) r))"

definition connection_error ::
    "(string \<Rightarrow> int \<times> int) \<Rightarrow> string option \<Rightarrow> config \<Rightarrow> srun \<Rightarrow> request \<Rightarrow> request" where
  "connection_error sub_req g_error_page config srun r =
     (let page = (if g_error_page \<noteq> None then g_error_page else error_page config);
          (status, r) = (case page of Some uri \<Rightarrow> handle_include sub_req uri r | None \<Rightarrow> (-1, r))
      in if status = 0 then r
         else
           let r = r\<lparr>r_content_type := Some ''text/html''\<rparr>;
               r = (case page of
                      Some uri \<Rightarrow> api (TableSet ''Location'' uri) (r\<lparr>r_status := 302\<rparr>)
                    | None \<Rightarrow> r\<lparr>r_status := 503\<rparr>);
               r = ap_send_http_header r;
               r = api (RPuts ''<html><body bgcolor='white'>'') r;
               r = api (RPuts (''<h1>Can't contact servlet runner at '' @
                     (case sr_hostname srun of Some h \<Rightarrow> h | None \<Rightarrow> ''localhost'') @ '':'' @
                     int_str (sr_port srun) @ ''</h1>'')) r;
               r = api (RPuts ''</body></html>'') r
           in api KillTimeout r)"

definition caucho_request ::
    "(string \<Rightarrow> int \<times> int) \<Rightarrow> string option \<Rightarrow> 32 word \<Rightarrow> nat \<Rightarrow> arrays \<Rightarrow> 32 word \<Rightarrow> config \<Rightarrow> request \<Rightarrow> io \<Rightarrow>
     (int \<times> 32 word \<times> config \<times> request \<times> io) res" where
  "caucho_request sub_req g_error_page rand pool a g_count config r x =
     (if r_setup r \<noteq> 0 then Inr (r_setup r, g_count, config, r, x)
      else
        let r = api SoftTimeout r in
        bindR (get_session_index (r_headers_in r) (r_uri r)) (\<lambda>session_index.
        bindR (cse_open_connection session_index (r_remote_ip r) (r_request_time r) rand pool g_count
                 (config, x)) (\<lambda>(ok, g_count, config, x).
          if \<not> ok then
            bindR (get_srun config 0) (\<lambda>srun.
              let r = connection_error sub_req g_error_page config srun r;
                  r = api KillTimeout r
              in Inr (0, g_count, config, r, x))
          else
            bindR (write_request config a False r x) (\<lambda>(reuse, keepalive, r, x).
              let r = api KillTimeout r;
                  r = api RFlush r
              in if reuse
                 then bindR (cse_recycle (config, x)) (\<lambda>(config, x). Inr (0, g_count, config, r, x))
                 else Inr (0, g_count, config, r, cse_close x)))))"

subsection \<open>The status page\<close>

definition puts :: "string list \<Rightarrow> request \<Rightarrow> request" where
  "puts = fold (\<lambda>str. api (RPuts str))"

definition NL :: string where "NL = [CHR 0x0A]"

definition host_cell :: "string \<Rightarrow> srun \<Rightarrow> int \<Rightarrow> string \<Rightarrow> string" where
  "host_cell cell srun port verdict =
     cell @ (case sr_hostname srun of Some h \<Rightarrow> h | None \<Rightarrow> ''localhost'') @ '':'' @
     int_str port @ (if sr_is_backup srun then ''*'' else []) @ verdict"

definition right_cell :: "int \<Rightarrow> string" where
  "right_cell n = ''<td align=right>'' @ int_str n @ ''</td>''"

fun jvm_rows :: "nat list \<Rightarrow> nat \<Rightarrow> config \<Rightarrow> request \<Rightarrow> io \<Rightarrow> (config \<times> request \<times> io) res" where
  "jvm_rows [] pool config r x = Inr (config, r, x)"
| "jvm_rows (i # is) pool config r x =
     bindR (get_srun config (int i)) (\<lambda>srun.
       let port = sr_port srun;
           r = puts [''<tr>''] r
       in bindR (cse_open (int i) pool True (config, x)) (\<lambda>(ok, config, x).
          bindR (get_srun config (int i)) (\<lambda>srun.
            let r = puts [if ok then host_cell ''<td bgcolor='#66ff66'>'' srun port '' (ok)</td>''
                          else host_cell ''<td bgcolor='#ff6666'>'' srun port '' (down)</td>''] r
            in bindR (cse_recycle (config, x)) (\<lambda>(config, x).
               bindR (get_srun config (int i)) (\<lambda>srun.
                 let r = puts [right_cell (sr_connect_timeout srun) @ right_cell (sr_live_time srun) @
                               right_cell (sr_dead_time srun), ''</tr>'' @ NL] r
                 in jvm_rows is pool config r x)))))"

definition jvm_status :: "nat \<Rightarrow> config \<Rightarrow> request \<Rightarrow> io \<Rightarrow> (config \<times> request \<times> io) res" where
  "jvm_status pool config r x =
     (let r = puts [''<center><table border=2 cellspacing=0 cellpadding=2 width='80%'>'' @ NL,
                    ''<center><table border=2 width='80%'>'' @ NL,
                    ''<tr><th>Host</th>'' @ NL,
                    ''    <th>Connect<br>Timeout</th>'' @ NL,
                    ''    <th>Live<br>Time</th>'' @ NL,
                    ''    <th>Dead<br>Time</th>'' @ NL,
                    ''</tr>'' @ NL] r
      in bindR (jvm_rows (all_sruns config) pool config r x) (\<lambda>(config, r, x).
           Inr (config, puts [''</table></center>'' @ NL] r, x)))"

text \<open>A row of the table of locations; \<open>%s\<close> of a null prefix is a null dereference here.\<close>

definition location_row :: "location \<Rightarrow> string res" where
  "location_row loc =
     (case loc_prefix loc of
        None \<Rightarrow> Inl NullPointer
      | Some pre \<Rightarrow> Inr (''<tr bgcolor='#ffcc66'><td>'' @
          (case loc_host loc of Some h \<Rightarrow> if h \<noteq> [] then h else ''*'' | None \<Rightarrow> ''*'') @ ''<td>'' @ pre @
          (if \<not> loc_is_exact loc \<and> loc_suffix loc = None then ''/*''
           else if loc_suffix loc \<noteq> None \<and> pre \<noteq> [] then ''/'' else []) @
          (if loc_suffix loc \<noteq> None then ''*'' else []) @
          (case loc_suffix loc of Some suf \<Rightarrow> suf | None \<Rightarrow> []) @ ''</tr>'' @ NL))"

fun location_rows :: "location list \<Rightarrow> request \<Rightarrow> request res" where
  "location_rows [] r = Inr r"
| "location_rows (loc # locs) r = bindR (location_row loc) (\<lambda>row. location_rows locs (puts [row] r))"

definition caucho_status :: "nat \<Rightarrow> config \<Rightarrow> request \<Rightarrow> io \<Rightarrow> (int \<times> config \<times> request \<times> io) res" where
  "caucho_status pool config r x =
     (let r = r\<lparr>r_content_type := Some ''text/html''\<rparr>;
          r = api SoftTimeout r
      in if r_header_only r then Inr (0, config, api KillTimeout r, x)
         else
           let r = ap_send_http_header r;
               r = puts [''<html><title>Status : Caucho Servlet Engine</title>'' @ NL,
                         ''<body bgcolor=white>'' @ NL,
                         ''<h1>Status : Caucho Servlet Engine</h1>'' @ NL] r
           in bindR (jvm_status pool config r x) (\<lambda>(config, r, x).
              let r = puts [''<p><center><table border=2 cellspacing=0 cellpadding=2 width='80%'>'' @ NL,
                            ''<tr><th width='50%'>Host'' @ NL,
                            ''    <th>url-pattern'' @ NL] r
              in bindR (location_rows (locations config) r) (\<lambda>r.
                 let r = puts [''</table></center>'' @ NL, ''</body></html>'' @ NL] r
                 in Inr (0, config, api KillTimeout r, x))))"


subsection \<open>A request as a whole: what it does to the connection\<close>

context reading
begin

lemma R_send_data: "send_data ack keepalive a r x = Inr (code, keepalive', r', y) \<Longrightarrow> R x y"
proof (induction ack keepalive a r x rule: send_data.induct)
  case (1 ack keepalive a r x)
  obtain code0 l3 len x1 where h: "read_header x = Inr ((code0, l3, len), x1)"
    using 1(2) by (subst (asm) send_data.simps) (auto simp: bindR_Inr_iff)
  note hR = R_read_header [OF h]
  show ?case
  proof (cases "s_socket (fst x1) < 0")
    case True
    then have "y = x1" using 1(2) h by (subst (asm) send_data.simps) simp
    then show ?thesis using hR by simp
  next
    case False
    obtain failed keepalive1 a1 r1 x2 where p: "send_packet code0 len keepalive a r x1 = Inr (failed, keepalive1, a1, r1, x2)"
      "(if failed then Inr (-1, keepalive1, r1, x2)
        else if code0 > 0 \<and> code0 \<noteq> code_of CSE_END \<and> code0 \<noteq> code_of CSE_CLOSE \<and> code0 \<noteq> ack
           then send_data ack keepalive1 a1 r1 x2 else Inr (code0, keepalive1, r1, x2)) = Inr (code, keepalive', r', y)"
      using 1(2) h False by (subst (asm) send_data.simps) (auto simp: bindR_Inr_iff)
    note pR = R_trans [OF hR R_send_packet [OF p(1)]]
    show ?thesis
    proof (cases "\<not> failed \<and> code0 > 0 \<and> code0 \<noteq> code_of CSE_END \<and> code0 \<noteq> code_of CSE_CLOSE \<and> code0 \<noteq> ack")
      case True
      then have "send_data ack keepalive1 a1 r1 x2 = Inr (code, keepalive', r', y)" using p(2) by simp
      with 1(1) [OF h refl refl refl False p(1) refl refl refl refl] True have "R x2 y" by simp
      then show ?thesis using pR R_trans by blast
    next
      case False
      then have "y = x2" using p(2) by (auto split: if_splits)
      then show ?thesis using pR by simp
    qed
  qed
qed

end

text \<open>The same contract with writing: for relations that a write respects too.\<close>

locale traffic = reading +
  assumes R_write: "cse_write buf len x = Inr y \<Longrightarrow> R x y"
begin

lemma R_write_packet: "cse_write_packet code buf len x = Inr y \<Longrightarrow> R x y"
  by (auto simp: cse_write_packet_def Let_def bindR_Inr_iff split: if_splits intro: R_write R_trans)

lemma R_write_string: "cse_write_string code str x = Inr y \<Longrightarrow> R x y"
  by (cases str) (auto simp: cse_write_string_def R_refl intro: R_write_packet)

lemma R_write_strings: "write_strings items x = Inr y \<Longrightarrow> R x y"
proof (induction items arbitrary: x)
  case (Cons i items)
  then show ?case by (cases i) (auto simp: bindR_Inr_iff intro: R_trans R_write_string)
qed (simp add: R_refl)

lemma R_write_env: "write_env config r x = Inr y \<Longrightarrow> R x y"
  by (auto simp: write_env_def bindR_Inr_iff split: option.splits dest!: R_write_strings R_write_string)
    (blast intro: R_trans)

lemma R_write_added_loop: "write_added_loop user hdrs x = Inr y \<Longrightarrow> R x y"
proof (induction user hdrs x rule: write_added_loop.induct)
  case (3 user key val hdrs x)
  then obtain z where z: "(if key = ''HTTPS'' \<and> val = None then Inl NullPointer
            else if key = ''HTTPS'' \<and> val = Some ''on'' then cse_write_string CSE_IS_SECURE (Some []) x
            else if user = None \<and> key = ''SSL_CLIENT_DN'' then cse_write_string CSE_REMOTE_USER val x
            else Inr x) = Inr z"
    and y: "bindR (write_strings [(CSE_HEADER, Some key), (CSE_VALUE, val)] z) (write_added_loop user hdrs) = Inr y"
    unfolding write_added_loop.simps bindR_Inr_iff [of "if key = ''HTTPS'' \<and> val = None then _ else _"] by blast
  have zR: "R x z" using z R_write_string R_refl by (auto split: if_splits)
  obtain z2 where z2: "write_strings [(CSE_HEADER, Some key), (CSE_VALUE, val)] z = Inr z2" "write_added_loop user hdrs z2 = Inr y"
    using y unfolding bindR_Inr_iff by blast
  have "R z2 y" by (rule 3(1) [OF z z2(1) z2(2)])
  then show ?case using zR R_write_strings [OF z2(1)] R_trans by blast
qed (auto simp: R_refl)

lemma R_post_loop: "post_loop blocks isFirst a keepalive r x = Inr (keepalive', r', y) \<Longrightarrow> R x y"
proof (induction blocks isFirst a keepalive r x rule: post_loop.induct)
  case (3 buf blocks isFirst a keepalive r x)
  show ?case
  proof (cases "buf = []")
    case True
    then show ?thesis using 3(2) R_refl by simp
  next
    case False
    then obtain code1 keepalive1 r1 x1 where s: "(if isFirst then Inr (0, keepalive, r, x)
          else send_data (code_of CSE_ACK) keepalive a r x) = Inr (code1, keepalive1, r1, x1)"
      "(if \<not> isFirst \<and> (code1 < 0 \<or> code1 = code_of CSE_END \<or> code1 = code_of CSE_CLOSE)
        then Inr (keepalive1, r1, x1)
        else bindR (cse_write_packet CSE_DATA buf (int (length buf)) x1)
               (post_loop blocks False a keepalive1 r1)) = Inr (keepalive', r', y)"
      using 3(2) by (auto simp: bindR_Inr_iff)
    have sR: "R x x1" using s(1) R_refl by (auto split: if_splits intro: R_send_data)
    show ?thesis
    proof (cases "\<not> isFirst \<and> (code1 < 0 \<or> code1 = code_of CSE_END \<or> code1 = code_of CSE_CLOSE)")
      case True
      then show ?thesis using s(2) sR by simp
    next
      case cont: False
      then obtain x2 where x2: "cse_write_packet CSE_DATA buf (int (length buf)) x1 = Inr x2"
        "post_loop blocks False a keepalive1 r1 x2 = Inr (keepalive', r', y)"
        using s(2) unfolding if_not_P [OF cont] bindR_Inr_iff by blast
      have "R x2 y" using 3(1) [OF False s(1) refl refl refl cont x2(1)] x2(2) by blast
      then show ?thesis using sR R_write_packet [OF x2(1)] R_trans by blast
    qed
  qed
qed (auto simp: R_refl)

lemma R_write_request:
  assumes "write_request config a keepalive r x = Inr (reuse, keepalive', r', y)"
  shows "R x y"
proof -
  obtain x1 x2 x3 k1 r1 x4 x5 code where w: "write_env config r x = Inr x1" "write_headers r x1 = Inr x2"
    "write_added_headers r x2 = Inr x3"
    "(if r_should_block r then post_loop (r_blocks r) True a keepalive r x3 else Inr (keepalive, r, x3)) = Inr (k1, r1, x4)"
    "cse_write_packet CSE_END [] 0 x4 = Inr x5" "send_data (code_of CSE_END) k1 a r1 x5 = Inr (code, keepalive', r', y)"
    using assms by (auto simp: write_request_def bindR_Inr_iff)
  have "R x3 x4" using w(4) R_refl by (auto split: if_splits intro: R_post_loop)
  moreover have "R x1 x2" using w(2) by (auto simp: write_headers_def intro: R_write_strings)
  moreover have "R x2 x3" using w(3) by (auto simp: write_added_headers_def intro: R_write_added_loop)
  ultimately show ?thesis
    using R_write_env [OF w(1)] R_write_packet [OF w(5)] R_send_data [OF w(6)] R_trans by meson
qed

end

text \<open>What a write does to the connection, and to the buffers.\<close>

lemma cse_write_relations:
  assumes "cse_write buf len x = Inr y"
  shows "keeps_conn x y \<and> (stream_ok (fst x) \<longrightarrow> stream_ok (fst y))"
proof -
  obtain s w where x: "x = (s, w)" by (rule prod.exhaust)
  have send: "open_fds v = open_fds u" if "sys_send fd bs u = (n, v)" for fd bs u n v
    using sys_send_frame(1) [of fd bs u] that by simp
  have append: "keeps_conn (s1, w1) z \<and> (stream_ok s1 \<longrightarrow> s_write_length s1 + len \<le> int BUF_LENGTH \<longrightarrow> stream_ok (fst z))"
    if "bindR (read_mem buf 0 len) (\<lambda>bs.
         if s_write_length s1 + len > int BUF_LENGTH + 1 then Inl OutOfBounds
         else Inr (s1\<lparr>s_write_buf := s_write_buf s1 @ bs\<rparr>, w1)) = Inr z" for s1 w1 z
    using that by (auto simp: bindR_Inr_iff keeps_conn_def stream_ok_def s_write_length_def read_mem_def split: if_splits)
  show ?thesis
  proof (cases "s_write_length s + len > int BUF_LENGTH")
    case False
    then show ?thesis using assms append [of s w y] by (simp add: cse_write_def x)
  next
    case True
    obtain n w1 where n: "(if s_write_length s > 0 then sys_send (s_socket s) (s_write_buf s) w else (0, w)) = (n, w1)"
      by (rule prod.exhaust)
    define s1 where "s1 = (if s_write_length s > 0 then s\<lparr>s_write_buf := []\<rparr> else s)"
    have fl: "(if s_write_length s > 0 then
                let (n, w) = sys_send (s_socket s) (s_write_buf s) w in (n, s\<lparr>s_write_buf := []\<rparr>, w)
              else (0, s, w)) = (n, s1, w1)" using n by (auto simp: s1_def Let_def split: if_splits prod.splits)
    have "open_fds w1 = open_fds w" using n send by (auto split: if_splits)
    then have k1: "keeps_conn (s, w) (s1, w1)" by (auto simp: s1_def keeps_conn_def)
    have ok1: "stream_ok s \<Longrightarrow> stream_ok s1" and e1: "s_write_buf s1 = []"
      by (auto simp: s1_def stream_ok_def s_write_length_def)
    have res: "(if n < 0 then Inr (cse_close (s1, w1))
          else if len > int BUF_LENGTH then
            let (n, w) = sys_send (s_socket s1) (s_write_buf s1) w1 in
            if n < 0 then Inr (cse_close (s1, w)) else Inr (s1, w)
          else bindR (read_mem buf 0 len) (\<lambda>bs.
           if s_write_length s1 + len > int BUF_LENGTH + 1 then Inl OutOfBounds
           else Inr (s1\<lparr>s_write_buf := s_write_buf s1 @ bs\<rparr>, w1))) = Inr y"
      using assms True unfolding cse_write_def x by (simp only: prod.case if_P Let_def fl [unfolded Let_def])
    obtain m w2 where m: "sys_send (s_socket s1) (s_write_buf s1) w1 = (m, w2)" by (rule prod.exhaust)
    have k2: "keeps_conn (s1, w1) (s1, w2)" using send [OF m] by (simp add: keeps_conn_def)
    consider "n < 0" | "0 \<le> n" "len > int BUF_LENGTH" | "0 \<le> n" "len \<le> int BUF_LENGTH" by linarith
    then show ?thesis
    proof cases
      case 1
      then have "y = cse_close (s1, w1)" using res by simp
      then show ?thesis using keeps_conn_trans [OF k1 keeps_conn_close] ok1 x by simp
    next
      case 2
      then have "y = cse_close (s1, w2) \<or> y = (s1, w2)" using res m by (auto split: if_splits)
      then show ?thesis using keeps_conn_trans [OF k1 k2] keeps_conn_trans [OF keeps_conn_trans [OF k1 k2] keeps_conn_close] ok1 x
        by auto
    next
      case 3
      then show ?thesis using res append [of s1 w1 y] e1 ok1 keeps_conn_trans [OF k1] x
        by (auto simp: s_write_length_def)
    qed
  qed
qed

interpretation conn_traffic: traffic keeps_conn
  by unfold_locales (use cse_write_relations in blast)

interpretation safe_traffic: traffic "\<lambda>x y. stream_ok (fst x) \<longrightarrow> stream_ok (fst y)"
  by unfold_locales (use cse_write_relations in blast)

end
