(* ===== verification/Cse_Ownership.thy ===== *)
theory Cse_Ownership
  imports Cse_Request
begin

text \<open>
  Who owns a descriptor: between two requests every open descriptor that the module opened is
  in a pool. The search for a connection takes at most one out of that order, the one it hands
  out, and a request puts it back or closes it.
\<close>

subsection \<open>What the search opens\<close>

definition unpooled :: "config \<Rightarrow> world \<Rightarrow> int set" where
  "unpooled c w = set (open_fds w) - idle (srun_list c)"

definition opens_only :: "config \<times> io \<Rightarrow> bool \<times> config \<times> io \<Rightarrow> bool" where
  "opens_only = (\<lambda>(c, s, w) (ok, c', s', w').
     unpooled c' w' \<subseteq> (if ok then insert (s_socket s') (unpooled c w) else unpooled c w))"

lemma opens_only_then:
  "opens_only x (False, y) \<Longrightarrow> opens_only y z \<Longrightarrow> opens_only x z"
  by (auto simp: opens_only_def split: prod.splits if_splits)

lemma opens_only_same [simp]: "opens_only x (ok, x)"
  by (auto simp: opens_only_def split: prod.splits)

lemma idle_put:
  assumes "nat k < length (srun_list c)"
  shows "idle (srun_list c) \<subseteq> idle (srun_list (put_srun k r c)) \<union>
    (set (sockets_of (srun_list c ! nat k)) - set (sockets_of r))"
proof
  fix d assume "d \<in> idle (srun_list c)"
  then obtain i where i: "i < length (srun_list c)" "d \<in> set (sockets_of (srun_list c ! i))" by (auto simp: in_idle)
  show "d \<in> idle (srun_list (put_srun k r c)) \<union> (set (sockets_of (srun_list c ! nat k)) - set (sockets_of r))"
  proof (cases "i = nat k")
    case True
    then show ?thesis using i by (auto simp: in_idle put_srun_def)
  next
    case False
    then have "srun_list (put_srun k r c) ! i = srun_list c ! i" "i < length (srun_list (put_srun k r c))"
      using i(1) by (simp_all add: put_srun_def)
    then have "d \<in> idle (srun_list (put_srun k r c))" using i(2) in_idle by metis
    then show ?thesis by simp
  qed
qed

lemma idle_put_same:
  assumes "nat k < length (srun_list c)" "sockets_of r = sockets_of (srun_list c ! nat k)"
  shows "idle (srun_list (put_srun k r c)) = idle (srun_list c)"
proof
  show "idle (srun_list c) \<subseteq> idle (srun_list (put_srun k r c))" using idle_put [OF assms(1), of r] assms(2) by auto
  show "idle (srun_list (put_srun k r c)) \<subseteq> idle (srun_list c)"
  proof
    fix d assume "d \<in> idle (srun_list (put_srun k r c))"
    then obtain i where i: "i < length (srun_list c)" "d \<in> set (sockets_of ((srun_list c)[nat k := r] ! i))"
      by (auto simp: in_idle put_srun_def)
    then have "d \<in> set (sockets_of (srun_list c ! i))" using assms by (cases "i = nat k") auto
    then show "d \<in> idle (srun_list c)" using i(1) by (auto simp: in_idle)
  qed
qed

lemma get_srun_bound: "get_srun c k = Inr srun \<Longrightarrow> nat k < length (srun_list c) \<and> srun_list c ! nat k = srun"
  by (auto simp: get_srun_def split: if_splits)

lemma drain_sockets_open:
  "drain_sockets srun w = Inr (srun', w') \<Longrightarrow>
   set (open_fds w') \<subseteq> set (open_fds w) - set (sockets_of srun)"
proof (induction srun w rule: drain_sockets.induct)
  case (1 srun w)
  show ?case
  proof (cases "sr_n_sockets srun > 0")
    case True
    obtain d srun1 where p: "pop_socket srun = Inr (d, srun1)" "drain_sockets srun1 (send_close d w) = Inr (srun', w')"
      using 1(2) True by (subst (asm) drain_sockets.simps) (auto simp: bindR_Inr_iff)
    have "sockets_of srun = sockets_of srun1 @ [d]"
      using p(1) sockets_of_snoc [OF True] by (auto simp: pop_socket_def get_socket_def Let_def split: if_splits)
    then show ?thesis using 1(1) [OF True p(1) refl p(2)] by auto
  next
    case False
    then show ?thesis using 1(2) by (subst (asm) drain_sockets.simps) (simp add: sockets_of_def)
  qed
qed

lemma reuse_socket_opens:
  assumes "cse_reuse_socket k t pool x = Inr y"
  shows "opens_only x y"
proof -
  obtain c s w where x: "x = (c, s, w)" by (rule prod_cases3)
  obtain srun where g: "get_srun c k = Inr srun" using assms by (auto simp: x cse_reuse_socket_def bindR_Inr_iff)
  note k = get_srun_bound [OF g]
  define r1 where "r1 = (if t < sr_last_time srun then srun\<lparr>sr_last_time := t\<rparr> else srun)"
  define c1 where "c1 = put_srun k r1 c"
  have s1: "sockets_of r1 = sockets_of srun" by (simp add: r1_def sockets_of_def)
  have c1: "nat k < length (srun_list c1)" "srun_list c1 ! nat k = r1" "idle (srun_list c1) = idle (srun_list c)"
    using k s1 idle_put_same [of k c r1] by (auto simp: c1_def put_srun_def)
  have e: "(if sr_n_sockets r1 > 0 \<and> sr_last_time r1 + word_of_int (sr_live_time r1) \<ge> t
      then bindR (cse_reuse k t pool (c1, s, w)) (\<lambda>x. Inr (True, x))
      else bindR (drain_sockets r1 w) (\<lambda>(srun, w). Inr (False, put_srun k srun c1, s, w))) = Inr y"
    using assms unfolding x cse_reuse_socket_def prod.case g bindR_simps Let_def r1_def [symmetric] c1_def [symmetric] .
  show ?thesis
  proof (cases "sr_n_sockets r1 > 0 \<and> sr_last_time r1 + word_of_int (sr_live_time r1) \<ge> t")
    case True
    have g1: "get_srun c1 k = Inr r1" using g c1 by (auto simp: get_srun_def split: if_splits)
    obtain c' s' where reuse: "cse_reuse k t pool (c1, s, w) = Inr (c', s', w)" "y = (True, c', s', w)"
      using e True g1 by (auto simp: cse_reuse_def bindR_Inr_iff Let_def)
    then obtain d r2 where p: "pop_socket r1 = Inr (d, r2)" "s_socket s' = d"
      "c' = put_srun k (r2\<lparr>sr_is_dead := False, sr_last_time := t\<rparr>) c1"
      using g1 by (auto simp: cse_reuse_def bindR_Inr_iff Let_def)
    have "sockets_of r1 = sockets_of (r2\<lparr>sr_is_dead := False, sr_last_time := t\<rparr>) @ [d]"
      using p(1) sockets_of_snoc [of r1] True
      by (auto simp: pop_socket_def get_socket_def Let_def sockets_of_def split: if_splits)
    then have "idle (srun_list c) \<subseteq> insert d (idle (srun_list c'))"
      using idle_put [OF c1(1), of "r2\<lparr>sr_is_dead := False, sr_last_time := t\<rparr>"] c1(2,3) p(3) by auto
    then show ?thesis using reuse(2) p(2) by (auto simp: opens_only_def unpooled_def x)
  next
    case False
    then obtain r2 w2 where d: "drain_sockets r1 w = Inr (r2, w2)" "y = (False, put_srun k r2 c1, s, w2)"
      using e by (auto simp: bindR_Inr_iff)
    have "idle (srun_list c) \<subseteq> idle (srun_list (put_srun k r2 c1)) \<union> set (sockets_of r1)"
      using idle_put [OF c1(1), of r2] c1(2,3) by auto
    then show ?thesis using d(2) drain_sockets_open [OF d(1)] by (auto simp: opens_only_def unpooled_def x)
  qed
qed

lemma cse_open_opens:
  assumes "cse_open k pool wait x = Inr y"
  shows "opens_only x y"
proof -
  obtain c s w where x: "x = (c, s, w)" by (rule prod_cases3)
  have one: "set (open_fds w') \<subseteq> (if 0 \<le> d then insert d (set (open_fds w)) else set (open_fds w))"
    if "(if wait \<or> n \<le> 0 then cse_connect_wait addr port w else cse_connect addr port w) = (d, w')" for n addr port d w'
  proof (cases "0 \<le> d")
    case True
    have "set (open_fds w') = insert d (set (open_fds w))"
      using that blocking.connect_fresh [OF _ True] timed.connect_fresh [OF _ True] by (auto split: if_splits)
    then show ?thesis using True by simp
  next
    case False
    then have "set (open_fds w') = set (open_fds w)"
      using that blocking.connect_failed timed.connect_failed by (auto split: if_splits)
    then show ?thesis using False by simp
  qed
  obtain srun where g: "get_srun c k = Inr srun" using assms by (auto simp: cse_open_def x bindR_Inr_iff)
  note k = get_srun_bound [OF g]
  let ?addr = "case sr_host srun of Some host \<Rightarrow> host | None \<Rightarrow> INADDR_LOOPBACK"
  let ?port = "sr_port (fix_port srun) mod 65536"
  let ?n = "sr_connect_timeout (fix_port srun)"
  obtain d w' where e: "(if wait \<or> ?n \<le> 0 then cse_connect_wait ?addr ?port w else cse_connect ?addr ?port w) = (d, w')"
    by (rule prod.exhaust)
  have "cse_open k pool wait (c, s, w) = Inr (0 \<le> d, put_srun k (fix_port srun) c,
      (reset_stream pool s)\<lparr>s_srun := Some (nat k), s_socket := d\<rparr>, w')"
    using g e by (simp add: cse_open_def fix_port_def [symmetric] Let_def)
  then have "y = (0 \<le> d, put_srun k (fix_port srun) c, (reset_stream pool s)\<lparr>s_srun := Some (nat k), s_socket := d\<rparr>, w')"
    using assms x by simp
  moreover have "idle (srun_list (put_srun k (fix_port srun) c)) = idle (srun_list c)"
    by (rule idle_put_same) (use k in \<open>auto simp: fix_port_def sockets_of_def\<close>)
  ultimately show ?thesis using one [OF e] x
    by (cases "0 \<le> d") (auto simp: opens_only_def unpooled_def)
qed

lemma mark_opens:
  assumes "get_srun (fst z) k = Inr srun" "sockets_of srun' = sockets_of srun" "opens_only x (ok, z)"
  shows "opens_only x (ok, put_srun k srun' (fst z), snd z)"
proof -
  have "idle (srun_list (put_srun k srun' (fst z))) = idle (srun_list (fst z))"
    by (rule idle_put_same) (use get_srun_bound [OF assms(1)] assms(2) in auto)
  then show ?thesis using assms(3) by (cases z; cases x) (auto simp: opens_only_def unpooled_def)
qed

lemma opened_opens:
  assumes "opened k t x = Inr y" "opens_only z (True, x)"
  shows "opens_only z (True, y)"
proof -
  obtain c s w where x: "x = (c, s, w)" by (rule prod_cases3)
  obtain srun where g: "get_srun c k = Inr srun"
    "y = (put_srun k (srun\<lparr>sr_is_dead := False, sr_last_time := t\<rparr>) c, s\<lparr>s_srun := Some (nat k)\<rparr>, w)"
    using assms(1) by (auto simp: x opened_def bindR_Inr_iff)
  have "opens_only z (True, put_srun k (srun\<lparr>sr_is_dead := False, sr_last_time := t\<rparr>) (fst x), snd x)"
    by (rule mark_opens [OF _ _ assms(2)]) (use g in \<open>auto simp: x sockets_of_def\<close>)
  then show ?thesis using g(2) by (cases z) (simp add: x opens_only_def)
qed

lemma reuse_loop_opens: "reuse_loop t pool ks x = Inr y \<Longrightarrow> opens_only x y"
proof (induction ks arbitrary: x)
  case (Cons k ks)
  obtain srun where g: "get_srun (fst x) k = Inr srun" using Cons.prems by (auto simp: bindR_Inr_iff)
  show ?case
  proof (cases "sr_is_backup srun")
    case True
    then show ?thesis using Cons g by simp
  next
    case False
    then obtain ok x' where r: "cse_reuse_socket k t pool x = Inr (ok, x')"
      "(if ok then Inr (True, x') else reuse_loop t pool ks x') = Inr y"
      using Cons.prems g by (auto simp: bindR_Inr_iff)
    have o: "opens_only x (ok, x')" by (rule reuse_socket_opens [OF r(1)])
    show ?thesis using r(2) o Cons.IH [of x'] opens_only_then by (cases ok) auto
  qed
qed auto

lemma open_and_mark_opens:
  assumes "open_and_mark k t pool wait x = Inr y"
  shows "opens_only x y"
proof -
  obtain ok x' where o: "cse_open k pool wait x = Inr (ok, x')"
    "(if ok then bindR (opened k t x') (\<lambda>x. Inr (True, x)) else Inr (False, x')) = Inr y"
    using assms by (auto simp: open_and_mark_def bindR_Inr_iff)
  then show ?thesis using cse_open_opens [OF o(1)] by (cases ok) (auto simp: bindR_Inr_iff intro: opened_opens)
qed

lemma primary_loop_opens: "primary_loop session t pool ks x = Inr y \<Longrightarrow> opens_only x y"
proof (induction ks arbitrary: x)
  case (Cons k ks)
  obtain srun where g: "get_srun (fst x) k = Inr srun" using Cons.prems by (auto simp: bindR_Inr_iff)
  note p = Cons.prems [unfolded primary_loop.simps g bindR_simps open_then_mark]
  show ?case
  proof (cases "session < 0 \<and> sr_is_backup srun")
    case True
    then show ?thesis using Cons.IH p by simp
  next
    case False
    then obtain ok x' where r: "cse_reuse_socket k t pool x = Inr (ok, x')"
      "(if ok then Inr (True, x')
         else bindR (get_srun (fst x') k) (\<lambda>srun.
           if sr_is_dead srun \<and> t \<le> sr_last_time srun + word_of_int (sr_dead_time srun)
           then primary_loop session t pool ks x'
           else bindR (open_and_mark k t pool False x') (\<lambda>(ok, x). if ok then Inr (True, x) else primary_loop session t pool ks x))) = Inr y"
      using p unfolding if_not_P [OF False] bindR_Inr_iff by auto
    have o: "opens_only x (ok, x')" by (rule reuse_socket_opens [OF r(1)])
    show ?thesis
    proof (cases ok)
      case True
      then show ?thesis using r(2) o by simp
    next
      case nok: False
      then consider "primary_loop session t pool ks x' = Inr y"
        | ok2 x2 where "open_and_mark k t pool False x' = Inr (ok2, x2)"
            "(if ok2 then Inr (True, x2) else primary_loop session t pool ks x2) = Inr y"
        using r(2) by (auto simp: bindR_Inr_iff split: if_splits)
      then show ?thesis
      proof cases
        case 1
        have "opens_only x (False, x')" using o nok by simp
        then show ?thesis using Cons.IH [OF 1] opens_only_then by blast
      next
        case (2 ok2 x2)
        have "opens_only x' (ok2, x2)" by (rule open_and_mark_opens [OF 2(1)])
        then have "opens_only x' y" using 2(2) Cons.IH [of x2] opens_only_then by (cases ok2) auto
        then show ?thesis using o nok opens_only_then by simp
      qed
    qed
  qed
qed auto

lemma last_resort_loop_opens: "last_resort_loop t pool ks x = Inr y \<Longrightarrow> opens_only x y"
proof (induction ks arbitrary: x)
  case (Cons k ks)
  obtain ok x' where r: "cse_reuse_socket k t pool x = Inr (ok, x')"
    "(if ok then Inr (True, x')
      else bindR (open_and_mark k t pool True x') (\<lambda>(ok, x). if ok then Inr (True, x)
        else bindR (get_srun (fst x) k) (\<lambda>srun. last_resort_loop t pool ks
             (put_srun k (srun\<lparr>sr_is_dead := True, sr_last_time := t\<rparr>) (fst x), snd x)))) = Inr y"
    using Cons.prems unfolding last_resort_loop.simps open_then_mark bindR_Inr_iff by auto
  have o: "opens_only x (ok, x')" by (rule reuse_socket_opens [OF r(1)])
  show ?case
  proof (cases ok)
    case True
    then show ?thesis using r(2) o by simp
  next
    case False
    then obtain ok2 x2 where m: "open_and_mark k t pool True x' = Inr (ok2, x2)"
      "(if ok2 then Inr (True, x2) else bindR (get_srun (fst x2) k) (\<lambda>srun. last_resort_loop t pool ks
             (put_srun k (srun\<lparr>sr_is_dead := True, sr_last_time := t\<rparr>) (fst x2), snd x2))) = Inr y"
      using r(2) by (auto simp: bindR_Inr_iff)
    have o2: "opens_only x' (ok2, x2)" by (rule open_and_mark_opens [OF m(1)])
    have "opens_only x' y"
    proof (cases ok2)
      case True
      then show ?thesis using m(2) o2 by simp
    next
      case False
      then obtain srun where g: "get_srun (fst x2) k = Inr srun" "last_resort_loop t pool ks
          (put_srun k (srun\<lparr>sr_is_dead := True, sr_last_time := t\<rparr>) (fst x2), snd x2) = Inr y"
        using m(2) by (auto simp: bindR_Inr_iff)
      have "opens_only x' (False, put_srun k (srun\<lparr>sr_is_dead := True, sr_last_time := t\<rparr>) (fst x2), snd x2)"
        by (rule mark_opens [OF g(1)]) (use o2 False in \<open>auto simp: sockets_of_def\<close>)
      then show ?thesis using Cons.IH [OF g(2)] by (rule opens_only_then)
    qed
    then show ?thesis using o False opens_only_then by simp
  qed
qed auto

lemma search_opens:
  assumes "search session t pool ks x = Inr y"
  shows "opens_only x y"
proof -
  obtain ok1 x1 ok2 x2 where s: "(if session < 0 then reuse_loop t pool (map int ks) x else Inr (False, x)) = Inr (ok1, x1)"
    "(if ok1 then Inr (True, x1) else primary_loop session t pool (map int ks) x1) = Inr (ok2, x2)"
    "(if ok2 then Inr (True, x2) else last_resort_loop t pool (map int ks) x2) = Inr y"
    using assms by (auto simp: search_def bindR_Inr_iff)
  have "opens_only x (ok1, x1)" using s(1) by (auto split: if_splits intro: reuse_loop_opens)
  then have "opens_only x (ok2, x2)" using s(2) primary_loop_opens opens_only_then by (cases ok1) auto
  then show ?thesis using s(3) last_resort_loop_opens opens_only_then by (cases ok2) auto
qed


lemma open_connection_opens:
  assumes "config_ok c" "pools_ok (srun_list c) (set (open_fds w))" "stream_ok s"
    and "cse_open_connection session ip t rand pool g (c, s, w) = Inr (ok, g', y)"
  shows "opens_only (c, s, w) (ok, y)"
proof -
  obtain ks g1 s0 where e: "cse_open_connection session ip t rand pool g (c, s, w) =
      bindR (search session t pool ks (c, s0, w)) (\<lambda>(ok, c', s', w').
        Inr (ok, g1, c', s', if ok then cse_set_socket_cleanup (s_socket s') pool w' else w'))"
    by (rule cse_open_connection_search [OF assms(1-3)])
  obtain c' s' w' where "search session t pool ks (c, s0, w) = Inr (ok, c', s', w')"
    "y = (c', s', if ok then cse_set_socket_cleanup (s_socket s') pool w' else w')"
    using assms(4) unfolding e by (auto simp: bindR_Inr_iff)
  then show ?thesis using search_opens [of session t pool ks "(c, s0, w)"]
    by (auto simp: opens_only_def unpooled_def cse_set_socket_cleanup_def)
qed


subsection \<open>What is left of a connection\<close>

lemma pools_ok_fewer:
  assumes "pools_ok l fds" "fds - {d, -1} \<subseteq> fds'" "d \<notin> idle l"
  shows "pools_ok l fds'"
proof -
  have "a \<in> fds'" if "i < length l" "a \<in> set (sockets_of (l ! i))" for i a
  proof -
    have "a \<noteq> d" using idle_disjoint [OF assms(3) that(1)] that(2) by blast
    moreover have "0 \<le> a" "a \<in> fds" using pools_okD(3,4) [OF assms(1) that(1)] that(2) by auto
    ultimately show ?thesis using assms(2) by auto
  qed
  then show ?thesis using assms(1) unfolding pools_ok_def by blast
qed

text \<open>
  The connection is over: the stream holds no descriptor, and all that is open and in no pool
  was so before.
\<close>

definition released :: "config \<Rightarrow> world \<Rightarrow> config \<times> io \<Rightarrow> bool" where
  "released c w = (\<lambda>(c', s', w'). s_socket s' < 0 \<and> same_runners c c' \<and>
     pools_ok (srun_list c') (set (open_fds w')) \<and> unpooled c' w' \<subseteq> unpooled c w)"

text \<open>A stream of runner \<open>k\<close> whose descriptor no pool has, open or closed since.\<close>

definition serving :: "config \<Rightarrow> world \<Rightarrow> nat \<Rightarrow> config \<times> io \<Rightarrow> bool" where
  "serving c0 w0 k = (\<lambda>(c, s, w). same_runners c0 c \<and> pools_ok (srun_list c) (set (open_fds w)) \<and>
     k < length (srun_list c) \<and> s_srun s = Some k \<and> stream_ok s \<and>
     (0 \<le> s_socket s \<and> s_socket s \<in> set (open_fds w) \<and> s_socket s \<notin> idle (srun_list c) \<and>
        unpooled c w \<subseteq> insert (s_socket s) (unpooled c0 w0) \<or>
      s_socket s = -1 \<and> unpooled c w \<subseteq> unpooled c0 w0))"

lemma serving_keeps:
  assumes "serving c0 w0 k (c, x)" "keeps_conn x y" "stream_ok (fst y)"
  shows "serving c0 w0 k (c, y)"
proof -
  obtain s w where x: "x = (s, w)" by (rule prod.exhaust)
  obtain s' w' where y: "y = (s', w')" by (rule prod.exhaust)
  have sr: "s_srun s' = s_srun s" using assms(2) by (simp add: keeps_conn_def x y)
  note a = assms(1)[unfolded serving_def x prod.case]
  consider "s_socket s' = s_socket s" "set (open_fds w') = set (open_fds w)"
    | "s_socket s' = -1" "s_socket s \<notin> set (open_fds w')" "set (open_fds w') \<subseteq> set (open_fds w)"
      "set (open_fds w) - {s_socket s, -1} \<subseteq> set (open_fds w')"
    using assms(2) by (auto simp: keeps_conn_def x y)
  then show ?thesis
  proof cases
    case 1
    then show ?thesis using a sr assms(3) by (auto simp: serving_def y unpooled_def)
  next
    case 2
    have "-1 \<notin> idle (srun_list c)" using a pools_okD(3) by (fastforce simp: in_idle)
    then have "s_socket s \<notin> idle (srun_list c)" using a by auto
    then have "pools_ok (srun_list c) (set (open_fds w'))" using a 2(4) pools_ok_fewer by blast
    then show ?thesis using a 2 sr assms(3) by (auto simp: serving_def y unpooled_def)
  qed
qed

lemma connected_serving:
  assumes "connected c t pool k (c', s', w')" "opens_only (c, s, w) (True, c', s', w')"
  shows "serving c w k (c', s', w')"
  using assms by (auto simp: connected_def serving_def opens_only_def)

lemma serving_close:
  assumes "serving c0 w0 k (c, x)"
  shows "released c0 w0 (c, cse_close x)"
proof -
  obtain s w where x: "x = (s, w)" by (rule prod.exhaust)
  obtain s' w' where y: "cse_close x = (s', w')" by (rule prod.exhaust)
  have "keeps_conn x (cse_close x)" using keeps_conn_close by (simp add: x)
  moreover have c: "s' = s\<lparr>s_socket := -1\<rparr>" "set (open_fds w') = set (open_fds w) - {s_socket s}"
    using y cse_close_simps(1,2) [of s w] by (simp_all add: x)
  moreover have "stream_ok s" using assms by (auto simp: serving_def x)
  ultimately have "serving c0 w0 k (c, cse_close x)" using assms serving_keeps [of c0 w0 k c x] by (simp add: y)
  then show ?thesis using c(1) by (auto simp: serving_def released_def y)
qed

lemma serving_recycle:
  assumes "serving c0 w0 k (c, s, w)" "cse_recycle (c, s, w) = Inr y"
  shows "released c0 w0 y"
proof (cases "s_socket s \<ge> 0 \<and> has_room k (c, s, w)")
  case True
  have h: "holds k (c, s, w)" using assms(1) True by (auto simp: serving_def holds_def)
  obtain c' s' w' where y: "y = (c', s', w')" by (rule prod_cases3)
  note p = recycle_pooled [OF h conjunct2 [OF True], unfolded assms(2) y returns_simps prod.case]
  have all: "idle (srun_list c) \<union> {s_socket s} \<subseteq> idle (srun_list c')"
  proof -
    have len: "length (srun_list c') = length (srun_list c)" using p same_runners_length by blast
    have k: "k < length (srun_list c)" using h by (auto simp: holds_def)
    have "set (sockets_of (srun_list c ! i)) \<subseteq> set (sockets_of (srun_list c' ! i))" if "i < length (srun_list c)" for i
      using p by (cases "i = k") auto
    moreover have "s_socket s \<in> set (sockets_of (srun_list c' ! k))" using p by simp
    ultimately show ?thesis using len k unfolding in_idle subset_iff by (simp add: in_idle) blast
  qed
  have "open_fds w' = open_fds w" using p by (simp add: cse_kill_socket_cleanup_def)
  then show ?thesis using p all assms(1) True same_runners_trans unfolding serving_def released_def y prod.case
    by (auto simp: unpooled_def)
next
  case False
  have k: "k < length (srun_list c)" "s_srun s = Some k" "stream_ok s" using assms(1) by (auto simp: serving_def)
  have "bindR (cse_write_packet (CHR ''X'') [] 0 (s, w)) (\<lambda>x. Inr (c, cse_close x)) = Inr y"
    using assms(2) False k by (auto simp: cse_recycle_def has_room_def Let_def get_srun_def split: if_splits)
  then obtain z where z: "cse_write_packet (CHR ''X'') [] 0 (s, w) = Inr z" "y = (c, cse_close z)"
    by (auto simp: bindR_Inr_iff)
  have "stream_ok (fst z)" using safe_traffic.R_write_packet [OF z(1)] k(3) by simp
  then show ?thesis
    using z(2) serving_close [OF serving_keeps [OF assms(1) conn_traffic.R_write_packet [OF z(1)]]] by simp
qed


lemma caucho_request_released:
  assumes "config_ok c" "pools_ok (srun_list c) (set (open_fds w))" "stream_ok s" "r_setup r = 0"
    and "caucho_request sub_req page rand pool a g c r (s, w) = Inr (status, g', c', r', y)"
  shows "status = 0 \<and> released c w (c', y)"
proof -
  let ?r = "api SoftTimeout r"
  have same: "r_setup ?r = 0" using assms(4) by (simp add: api_def)
  obtain session where session: "get_session_index (r_headers_in ?r) (r_uri ?r) = Inr session"
    using assms(4,5) by (auto simp: caucho_request_def Let_def bindR_Inr_iff)
  obtain ok g1 c1 s1 w1 where o: "cse_open_connection session (r_remote_ip ?r) (r_request_time ?r) rand pool g (c, s, w) =
      Inr (ok, g1, c1, s1, w1)"
    using assms(4,5) session by (auto simp: caucho_request_def Let_def bindR_Inr_iff)
  note only = open_connection_opens [OF assms(1-3) o]
  have found: "if ok then \<exists>k < used_size c. connected c (r_request_time ?r) pool k (c1, s1, w1)
      else ready c (c1, s1, w1)"
    using cse_open_connection_spec [OF assms(1-3), where session = session and ip = "r_remote_ip ?r" and t = "r_request_time ?r"
        and rand = rand and pool = pool and g = g]
    unfolding o by (auto split: if_splits)
  show ?thesis
  proof (cases ok)
    case False
    then have "status = 0" "c' = c1" "y = (s1, w1)"
      using assms(4,5) session o by (auto simp: caucho_request_def Let_def bindR_Inr_iff)
    then show ?thesis using False found only by (auto simp: released_def ready_def opens_only_def)
  next
    case True
    then obtain k where "connected c (r_request_time ?r) pool k (c1, s1, w1)" using found by auto
    then have sv: "serving c w k (c1, s1, w1)" by (rule connected_serving) (use only True in simp)
    obtain reuse keepalive r1 x2 where wr: "write_request c1 a False ?r (s1, w1) = Inr (reuse, keepalive, r1, x2)"
      "(if reuse then bindR (cse_recycle (c1, x2)) (\<lambda>(config, x). Inr (0, g1, config, api RFlush (api KillTimeout r1), x))
        else Inr (0, g1, c1, api RFlush (api KillTimeout r1), cse_close x2)) = Inr (status, g', c', r', y)"
      using assms(4,5) session o True by (auto simp: caucho_request_def Let_def bindR_Inr_iff)
    have "stream_ok (fst x2)"
      using safe_traffic.R_write_request [OF wr(1)] sv by (simp add: serving_def)
    then have sv2: "serving c w k (c1, x2)"
      by (rule serving_keeps [OF sv conn_traffic.R_write_request [OF wr(1)]])
    show ?thesis
    proof (cases reuse)
      case True
      then have "cse_recycle (c1, x2) = Inr (c', y)" "status = 0" using wr(2) by (auto simp: bindR_Inr_iff)
      then show ?thesis using serving_recycle [of c w k c1 "fst x2" "snd x2"] sv2 by simp
    next
      case False
      then show ?thesis using wr(2) serving_close [OF sv2] by auto
    qed
  qed
qed


subsection \<open>Properties\<close>

text \<open>What holds of every run that does not fault.\<close>

definition unless_fault :: "('a \<Rightarrow> bool) \<Rightarrow> 'a res \<Rightarrow> bool" where
  "unless_fault P m \<longleftrightarrow> (case m of Inl e \<Rightarrow> True | Inr x \<Rightarrow> P x)"

lemma unless_faultI: "(\<And>x. m = Inr x \<Longrightarrow> P x) \<Longrightarrow> unless_fault P m"
  by (auto simp: unless_fault_def split: sum.split)

lemma unless_fault_Inr [simp]: "unless_fault P (Inr x) = P x" by (simp add: unless_fault_def)


definition sample_request :: request where
  "sample_request = \<lparr>r_protocol = Some ''HTTP/1.0'', r_method = Some ''GET'', r_unparsed_uri = ''/a.jsp?q=1'',
     r_uri = ''/a.jsp'', r_args = Some ''q=1'', r_server_name = Some ''foo.com'', r_server_port = 80,
     r_remote_host = None, r_remote_ip = ''10.0.0.1'', r_remote_port = 4711, r_user = None, r_auth_type = None,
     r_headers_in = [(Some ''Accept'', Some ''text/html'')], r_subprocess_env = [(Some ''HTTPS'', Some ''on'')], r_ssl_vars = [(''SSL_PROTOCOL'', Some ''TLSv1'')],
     r_header_only = False, r_request_time = 100, r_setup = 0, r_should_block = False, r_blocks = [],
     r_rwrite = [], r_status = 200, r_status_line = None, r_content_type = None, r_log = []\<rparr>"

definition blank_arrays :: arrays where
  "blank_arrays = \<lparr>a_buf = replicate 8193 NUL, a_key = replicate 8193 NUL, a_value = replicate 8193 NUL\<rparr>"


end
