(* ===== verification/Cse_Relay.thy ===== *)
theory Cse_Relay
  imports Cse_Ownership
begin

text \<open>
  The two directions of a request as byte sequences: the packets that describe it to the
  servlet runner, and the replies of the runner relayed to Apache. A reply is a datatype here,
  its encoding the packets of cse.h, and what it means a function on the request; the response
  loop refines them, however the network cuts the stream in pieces.
\<close>

subsection \<open>Reads that succeed keep the socket\<close>

lemma read_all_loop_socket:
  "read_all_loop buf off len (s, w) = Inr (True, buf', y) \<Longrightarrow> usable (s, w) \<Longrightarrow> s_socket (fst y) = s_socket s"
proof (induction "nat len" arbitrary: buf off len s w rule: less_induct)
  case less
  obtain fl s1 w1 where e: "ensure_data (s, w) = (fl, s1, w1)" by (rule prod_cases3)
  note c = ensure_data_cases [OF less.prems(2) e]
  consider "len \<le> 0" | "0 < len" "fl < 0" | "0 < len" "\<not> fl < 0" by linarith
  then show ?case
  proof cases
    case 1
    then show ?thesis using less.prems by auto
  next
    case 2
    then show ?thesis using less.prems e by (simp add: read_all_loop.simps)
  next
    case 3
    obtain n bs where n: "0 < n" "n \<le> len" "int (length bs) = n"
      "unread s1 = bs @ unread (advance n s1)" "stream_ok (advance n s1)"
      and step: "\<forall>buf off. read_all_loop buf off len (s, w) = bindR (store buf off bs)
        (\<lambda>buf. read_all_loop buf (off + n) (len - n) (advance n s1, w1))"
        "cse_skip len (s, w) = cse_skip (len - n) (advance n s1, w1)"
      by (rule block_step [OF usable_stream_ok [OF less.prems(2)] 3(1) e 3(2)])
    obtain buf1 where r: "read_all_loop buf1 (off + n) (len - n) (advance n s1, w1) = Inr (True, buf', y)"
      using less.prems(1) step(1) by (auto simp: bindR_Inr_iff)
    have u: "usable (advance n s1, w1)" using usable_advance(1) [of s1 w1 n bs] c n by simp
    have "s_socket (fst y) = s_socket (advance n s1)" by (rule less.hyps [OF _ r u]) (use n 3 in simp)
    then show ?thesis using c 3 by (auto split: if_splits)
  qed
qed

text \<open>A block that is delivered, with what follows it.\<close>

lemma read_all_block:
  assumes "usable x" "pending x = body @ rest" "length body \<le> length buf"
  shows "returns (\<lambda>(r, buf', x'). usable x' \<and> pending x' = rest \<and> s_socket (fst x') = s_socket (fst x) \<and>
      buf' = body @ drop (length body) buf) (cse_read_all buf (int (length body)) x)"
proof -
  have len: "int (length body) \<le> int (length (pending x))" by (simp add: assms(2))
  obtain r buf' x' where e: "cse_read_all buf (int (length body)) x = Inr (r, buf', x')" "r = int (length body)"
    "usable x'" "pending x' = rest" "buf' = body @ drop (length body) buf"
    using cse_read_all_content [OF assms(1) _ len, of buf] assms by (auto simp: returns_iff)
  obtain ok where "read_all_loop buf 0 (int (length body)) (fst x, snd x) = Inr (ok, buf', x')" "ok"
    using e(1,2) by (auto simp: cse_read_all_def bindR_Inr_iff split: if_splits)
  then have "s_socket (fst x') = s_socket (fst x)" using read_all_loop_socket [of buf 0 _ "fst x" "snd x" buf' x'] assms(1) by simp
  then show ?thesis using e by simp
qed

lemma read_string_block:
  assumes "usable x" "0 \<le> s_socket (fst x)" "pending x = packet code body @ rest"
    and "int (length body) < n - 1" "n \<le> int (length buf)" "length body < 16777216"
  shows "returns (\<lambda>(r, buf', x'). usable x' \<and> pending x' = rest \<and> s_socket (fst x') = s_socket (fst x) \<and>
      buf' = body @ NUL # drop (length body + 1) buf) (cse_read_string buf n x)"
  unfolding cse_read_string_def Let_def
proof (rule returns_bindI [OF read_header_packet [OF assms(1,3,6)]], clarify)
  fix l3 :: int and s w
  assume h: "0 \<le> l3" "usable (s, w)" "pending (s, w) = body @ rest" "s_socket (fst (s, w)) = s_socket (fst x)"
  have room: "length body \<le> length buf" using assms(4,5) by linarith
  have st: "store (body @ drop (length body) buf) (int (length body)) [NUL] =
      Inr (body @ NUL # drop (length body + 1) buf)"
    using assms(4,5) by (simp add: store_def add.commute)
  show "returns (\<lambda>(r, buf', x'). usable x' \<and> pending x' = rest \<and> s_socket (fst x') = s_socket (fst x) \<and>
      buf' = body @ NUL # drop (length body + 1) buf)
    (if s_socket s < 0 \<or> l3 < 0 then Inr (-1, buf, s, w)
     else cse_read_limit buf (n - 1) (int (length body)) (s, w))"
    using h assms(2,4) st read_all_block [OF h(2,3) room]
    by (auto simp: cse_read_limit_def returns_bindR elim!: returns_mono)
qed

subsection \<open>What the client is sent\<close>

text \<open>The calls of Apache with each \<open>ap_rwrite\<close> cut into bytes, and a client that takes everything.\<close>

fun flat_event :: "api_event \<Rightarrow> api_event list" where
  "flat_event (RWrite bs) = map (\<lambda>c. RWrite [c]) bs"
| "flat_event e = [e]"

definition view :: "request \<Rightarrow> request" where
  "view r = r\<lparr>r_log := concat (map flat_event (r_log r))\<rparr>"

lemma view_api: "view (api e r) = (view r)\<lparr>r_log := r_log (view r) @ flat_event e\<rparr>"
  by (simp add: view_def api_def)

lemma rwrite_loop_all:
  assumes "r_rwrite r = []" "piece \<noteq> []"
  shows "rwrite_loop piece (int (length piece)) r = (True, api (RWrite piece) r)"
  using assms by (simp add: rwrite_loop.simps [of piece "int (length piece)"] rwrite_loop.simps [of piece 0] ap_rwrite_def)

lemma write_response_block:
  assumes "usable x" "pending x = body @ rest" "r_rwrite r = []"
  shows "returns (\<lambda>(res, r', x'). res = 1 \<and> usable x' \<and> pending x' = rest \<and> s_socket (fst x') = s_socket (fst x) \<and>
      r_rwrite r' = [] \<and> view r' = (view r)\<lparr>r_log := r_log (view r) @ map (\<lambda>c. RWrite [c]) body\<rparr>)
    (cse_write_response (int (length body)) r x)"
  using assms
proof (induction "length body" arbitrary: body r x rule: less_induct)
  case less
  obtain s w where x: "x = (s, w)" by (rule prod.exhaust)
  show ?case
  proof (cases "body = []")
    case True
    then show ?thesis using less.prems by (simp add: x cse_write_response.simps)
  next
    case False
    obtain fl s1 w1 where e: "ensure_data (s, w) = (fl, s1, w1)" by (rule prod_cases3)
    have u: "usable (s, w)" using less.prems(1) by (simp add: x)
    have ne: "pending (s, w) \<noteq> []" using less.prems(2) False by (simp add: x)
    have c: "usable (s1, w1)" "pending (s1, w1) = body @ rest" "\<not> fl < 0" "s_socket s1 = s_socket s"
      using ensure_data_cases [OF u e] ne less.prems(2) by (simp_all add: x)
    let ?len = "int (length body)"
    define n where "n = (if ?len < s_read_length s1 - s_read_offset s1 then ?len else s_read_length s1 - s_read_offset s1)"
    note r1 = ensure_data_readable [OF usable_stream_ok [OF u] e c(3)]
    have n: "0 < n" "n \<le> ?len" "s_read_offset s1 + n \<le> s_read_length s1" using r1 False by (auto simp: n_def)
    obtain bs where bs: "read_mem (s_read_buf s1) (s_read_offset s1) n = Inr bs" "int (length bs) = n"
      "unread s1 = bs @ unread (advance n s1)" "stream_ok (advance n s1)"
      by (rule read_from_buffer [OF r1(1) n(1,3)])
    note adv = usable_advance [OF c(1) bs(4,3)]
    define body2 where "body2 = drop (length bs) body"
    have "body @ rest = bs @ pending (advance n s1, w1)" using adv(2) c(2) by simp
    then have "take (length bs) (body @ rest) = bs" "drop (length bs) (body @ rest) = pending (advance n s1, w1)"
      by simp_all
    then have "take (length bs) body = bs" and rest: "pending (advance n s1, w1) = body2 @ rest"
      using n(2) bs(2) by (simp_all add: body2_def)
    then have body: "body = bs @ body2" by (metis append_take_drop_id body2_def)
    have ne2: "bs \<noteq> []" using n(1) bs(2) by auto
    have rw: "rwrite_loop bs n r = (True, api (RWrite bs) r)" using rwrite_loop_all [OF less.prems(3) ne2] bs(2) by simp
    have "cse_write_response ?len r (s, w) = cse_write_response (?len - n) (api (RWrite bs) r) (advance n s1, w1)"
      using False e c(3) bs(1) rw by (subst cse_write_response.simps)
        (cases "?len < s_read_length s1 - s_read_offset s1", simp_all add: n_def Let_def)
    moreover have "?len - n = int (length body2)" using body(1) bs(2) by simp
    ultimately have "cse_write_response ?len r (s, w) =
        cse_write_response (int (length body2)) (api (RWrite bs) r) (advance n s1, w1)" by simp
    moreover have "returns (\<lambda>(res, r', x'). res = 1 \<and> usable x' \<and> pending x' = rest \<and>
        s_socket (fst x') = s_socket (fst (advance n s1, w1)) \<and> r_rwrite r' = [] \<and>
        view r' = (view (api (RWrite bs) r))\<lparr>r_log := r_log (view (api (RWrite bs) r)) @ map (\<lambda>c. RWrite [c]) body2\<rparr>)
      (cse_write_response (int (length body2)) (api (RWrite bs) r) (advance n s1, w1))"
      by (rule less.hyps) (use body ne2 rest adv(1) less.prems(3) in \<open>simp_all add: api_def\<close>)
    ultimately show ?thesis using c(4) by (auto simp: x body(1) view_api elim!: returns_mono)
  qed
qed


subsection \<open>Replies\<close>

text \<open>What a servlet runner can say, packet by packet; \<open>Other\<close> is a packet the module skips.\<close>

datatype reply =
    Status string
  | Header string string
  | Data string
  | Flush
  | KeepAlive
  | SendHeader
  | Other char string

fun reply_code :: "reply \<Rightarrow> char" where
  "reply_code (Status line) = CSE_STATUS"
| "reply_code (Header key value) = CSE_HEADER"
| "reply_code (Data bs) = CSE_DATA"
| "reply_code Flush = CSE_FLUSH"
| "reply_code KeepAlive = CSE_KEEPALIVE"
| "reply_code SendHeader = CSE_SEND_HEADER"
| "reply_code (Other code body) = code"

fun reply_body :: "reply \<Rightarrow> string" where
  "reply_body (Status line) = line"
| "reply_body (Header key value) = key"
| "reply_body (Data bs) = bs"
| "reply_body (Other code body) = body"
| "reply_body _ = []"

fun reply_tail :: "reply \<Rightarrow> string" where
  "reply_tail (Header key value) = packet CSE_VALUE value"
| "reply_tail _ = []"

definition encode :: "reply \<Rightarrow> string" where
  "encode rp = packet (reply_code rp) (reply_body rp) @ reply_tail rp"

fun meaning :: "reply \<Rightarrow> request \<Rightarrow> request" where
  "meaning (Status line) r =
     (let text = tl (dropWhile (\<lambda>c. c \<noteq> CHR '' '') line)
      in r\<lparr>r_status := atoi text, r_status_line := Some text\<rparr>)"
| "meaning (Header key value) r =
     (if strcaseeq key ''content-type'' then r\<lparr>r_content_type := Some value\<rparr>
      else if strcaseeq key ''set-cookie'' then api (TableAdd key value) r
      else api (TableSet key value) r)"
| "meaning (Data bs) r = r\<lparr>r_log := r_log r @ map (\<lambda>c. RWrite [c]) bs\<rparr>"
| "meaning Flush r = api RFlush r"
| "meaning SendHeader r = ap_send_http_header r"
| "meaning KeepAlive r = r"
| "meaning (Other code body) r = r"

text \<open>The limits of the module's arrays, and a code that is none of the codes it knows.\<close>

fun reply_ok :: "char \<Rightarrow> reply \<Rightarrow> bool" where
  "reply_ok ack (Status line) = (is_cstring line \<and> CHR '' '' \<in> set line \<and> length line \<le> 8192)"
| "reply_ok ack (Header key value) = (is_cstring key \<and> is_cstring value \<and> length key \<le> 8192 \<and> length value < 8192)"
| "reply_ok ack (Data bs) = (length bs < 16777216)"
| "reply_ok ack (Other code body) = (length body \<le> 8193 \<and> code \<notin> {CSE_STATUS, CSE_HEADER, CSE_DATA, CSE_FLUSH,
     CSE_KEEPALIVE, CSE_SEND_HEADER, CSE_END, CSE_CLOSE, ack, NUL})"
| "reply_ok ack _ = True"

definition arrays_ok :: "arrays \<Rightarrow> bool" where
  "arrays_ok a \<longleftrightarrow> length (a_buf a) = 8193 \<and> length (a_key a) = 8193 \<and> length (a_value a) = 8193"

lemma store_end:
  assumes "length body < length buf"
  shows "store (body @ drop (length body) buf) (int (length body)) [NUL] = Inr (body @ NUL # drop (length body + 1) buf)"
  using assms by (simp add: store_def add.commute)

lemma cstr_at_inside:
  assumes "is_cstring line" "i \<le> length line"
  shows "cstr_at (line @ NUL # rest) i = Inr (drop i line)"
proof -
  have "is_cstring (drop i line)" using assms(1) by (auto simp: is_cstring_def dest: in_set_dropD)
  then show ?thesis using assms(2) by (simp add: cstr_at_def cstr_of_terminated)
qed

lemma send_status_reply:
  assumes "usable x" "pending x = line @ rest" "reply_ok ack (Status line)" "arrays_ok a"
  shows "returns (\<lambda>(a', r', x'). arrays_ok a' \<and> view r' = meaning (Status line) (view r) \<and> r_rwrite r' = r_rwrite r \<and>
      usable x' \<and> pending x' = rest \<and> s_socket (fst x') = s_socket (fst x))
    (send_status (int (length line)) a r x)"
proof -
  have ok: "is_cstring line" "CHR '' '' \<in> set line" "length line < length (a_buf a)" "length (a_buf a) = 8193"
    using assms(3,4) by (auto simp: arrays_ok_def)
  let ?P = "\<lambda>c. c \<noteq> NUL \<and> c \<noteq> CHR '' ''"
  have tw: "takeWhile ?P (line @ zs) = takeWhile (\<lambda>c. c \<noteq> CHR '' '') line" for zs
  proof -
    have "takeWhile ?P (line @ zs) = takeWhile ?P line" using ok(2) by (intro takeWhile_append1) auto
    also have "\<dots> = takeWhile (\<lambda>c. c \<noteq> CHR '' '') line"
      using ok(1) by (intro takeWhile_cong) (auto simp: is_cstring_def)
    finally show ?thesis .
  qed
  let ?i = "length (takeWhile (\<lambda>c. c \<noteq> CHR '' '') line)"
  have "takeWhile (\<lambda>c. c \<noteq> CHR '' '') line @ dropWhile (\<lambda>c. c \<noteq> CHR '' '') line = line" by simp
  moreover have "dropWhile (\<lambda>c. c \<noteq> CHR '' '') line \<noteq> []" using ok(2) by (auto simp: dropWhile_eq_Nil_conv)
  ultimately have i: "Suc ?i \<le> length line" by (metis length_append length_greater_0_conv less_add_same_cancel1 Suc_leI)
  have d: "drop (Suc ?i) line = tl (dropWhile (\<lambda>c. c \<noteq> CHR '' '') line)"
    by (simp add: dropWhile_eq_drop drop_Suc tl_drop)
  show ?thesis
    unfolding send_status_def
  proof (rule returns_bindI [OF read_all_block [OF assms(1,2), of "a_buf a"]])
    show "length line \<le> length (a_buf a)" using ok by simp
  qed (use ok(3,4) assms(4) i d in \<open>auto simp: store_end [OF ok(3)] Let_def tw cstr_at_inside [OF ok(1)]
      arrays_ok_def view_def\<close>)
qed


lemma send_header_reply:
  assumes "usable x" "0 \<le> s_socket (fst x)" "pending x = key @ packet CSE_VALUE value @ rest"
    and "reply_ok ack (Header key value)" "arrays_ok a"
  shows "returns (\<lambda>(a', r', x'). arrays_ok a' \<and> view r' = meaning (Header key value) (view r) \<and> r_rwrite r' = r_rwrite r \<and>
      usable x' \<and> pending x' = rest \<and> s_socket (fst x') = s_socket (fst x))
    (send_header (int (length key)) a r x)"
proof -
  have ok: "is_cstring key" "is_cstring value" "length key < length (a_key a)" "length (a_key a) = 8193"
    "length (a_value a) = 8193" "length value < 8192"
    using assms(4,5) by (auto simp: arrays_ok_def)
  have cs: "cstr_at (key @ NUL # zs) 0 = Inr key" "cstr_at (value @ NUL # zs) 0 = Inr value" for zs
    using cstr_at_inside [OF ok(1), of 0] cstr_at_inside [OF ok(2), of 0] by simp_all
  obtain q x1 where 1: "cse_read_all (a_key a) (int (length key)) x = Inr (q, key @ drop (length key) (a_key a), x1)"
    "usable x1" "pending x1 = packet CSE_VALUE value @ rest" "s_socket (fst x1) = s_socket (fst x)"
    using read_all_block [OF assms(1,3), of "a_key a"] ok by (auto simp: returns_iff)
  have "returns (\<lambda>(r, buf', x'). usable x' \<and> pending x' = rest \<and> s_socket (fst x') = s_socket (fst x1) \<and>
      buf' = value @ NUL # drop (length value + 1) (a_value a)) (cse_read_string (a_value a) 8193 x1)"
    by (rule read_string_block [OF 1(2) _ 1(3)]) (use assms(2) 1(4) ok in simp_all)
  then obtain q2 x2 where 2: "cse_read_string (a_value a) 8193 x1 = Inr (q2, value @ NUL # drop (length value + 1) (a_value a), x2)"
    "usable x2" "pending x2 = rest" "s_socket (fst x2) = s_socket (fst x1)" by (auto simp: returns_iff)
  show ?thesis using 1 2 ok assms(5)
    by (simp add: send_header_def store_end [OF ok(3)] cs Let_def arrays_ok_def view_api)
      (simp add: view_def api_def)
qed

lemma code_eq [simp]: "(of_char c :: int) = of_char d \<longleftrightarrow> c = d" by simp

lemma code_not_minus [simp]: "(of_char c :: int) \<noteq> -1" using of_char_less(2) [of c] by linarith

lemma codes_distinct [simp]: "of_char CSE_STATUS \<noteq> (of_char CSE_HEADER :: int)" "distinct [CSE_STATUS, CSE_HEADER, CSE_DATA,
    CSE_FLUSH, CSE_KEEPALIVE, CSE_SEND_HEADER, CSE_END, CSE_CLOSE, CSE_ACK, NUL]"
  by (simp_all add: cse_codes)

text \<open>One reply: after its header, the switch consumes it and does what it means.\<close>

lemma send_packet_reply:
  assumes "usable x" "0 \<le> s_socket (fst x)" "pending x = reply_body rp @ reply_tail rp @ rest"
    and "reply_ok ack rp" "arrays_ok a" "r_rwrite r = []"
  shows "returns (\<lambda>(failed, keepalive', a', r', x'). \<not> failed \<and> keepalive' = (keepalive \<or> rp = KeepAlive) \<and>
      arrays_ok a' \<and> view r' = meaning rp (view r) \<and> r_rwrite r' = [] \<and>
      usable x' \<and> pending x' = rest \<and> s_socket (fst x') = s_socket (fst x))
    (send_packet (of_char (reply_code rp)) (int (length (reply_body rp))) keepalive a r x)"
proof (cases rp)
  case (Status line)
  have p: "pending x = line @ rest" "reply_ok ack (reply.Status line)" using assms(3,4) Status by simp_all
  show ?thesis using Status assms(6)
    by (auto simp: send_packet_def returns_bindR simp del: meaning.simps intro!: returns_mono [OF send_status_reply [OF assms(1) p assms(5)]])
next
  case (Header key val)
  have p: "pending x = key @ packet CSE_VALUE val @ rest" "reply_ok ack (reply.Header key val)"
    using assms(3,4) Header by simp_all
  show ?thesis using Header assms(6)
    by (auto simp: send_packet_def returns_bindR cse_codes simp del: meaning.simps
        intro!: returns_mono [OF send_header_reply [OF assms(1,2) p assms(5)]])
next
  case (Data bs)
  have p: "pending x = bs @ rest" using assms(3) Data by simp
  show ?thesis using Data assms(5)
    by (auto simp: send_packet_def returns_bindR cse_codes
        intro!: returns_mono [OF write_response_block [OF assms(1) p assms(6)]])
next
  case Flush
  then show ?thesis using assms by (simp add: send_packet_def cse_codes view_api) (simp add: api_def)
next
  case KeepAlive
  then show ?thesis using assms by (simp add: send_packet_def cse_codes)
next
  case SendHeader
  then show ?thesis using assms
    by (simp add: send_packet_def cse_codes ap_send_http_header_def view_api) (simp add: api_def view_def)
next
  case (Other code body)
  have p: "pending x = body @ rest" "length body \<le> length (a_buf a)" using assms(3,4,5) Other by (simp_all add: arrays_ok_def)
  show ?thesis using Other assms(4,5,6) p(2)
    by (auto simp: send_packet_def returns_bindR arrays_ok_def intro!: returns_mono [OF read_all_block [OF assms(1) p]])
qed


lemma code_pos: "c \<noteq> NUL \<Longrightarrow> (of_char c :: int) > 0"
proof -
  assume "c \<noteq> NUL"
  then have "(of_char c :: int) \<noteq> of_char NUL" by (simp only: of_char_eq_iff not_False_eq_True)
  then show ?thesis using of_char_less(2) [of c] by simp
qed

lemma reply_code_goes_on:
  assumes "reply_ok ack rp" "ack \<in> {CSE_ACK, CSE_END}"
  shows "(of_char (reply_code rp) :: int) > 0" "reply_code rp \<notin> {CSE_END, CSE_CLOSE, ack}"
    "length (reply_body rp) < 16777216"
proof -
  show "reply_code rp \<notin> {CSE_END, CSE_CLOSE, ack}" using assms by (cases rp) (auto simp: cse_codes)
  have "reply_code rp \<noteq> NUL" using assms by (cases rp) (auto simp: cse_codes)
  then show "(of_char (reply_code rp) :: int) > 0" by (rule code_pos)
  show "length (reply_body rp) < 16777216" using assms by (cases rp) auto
qed

lemma send_data_replies:
  assumes "usable x" "0 \<le> s_socket (fst x)" "pending x = concat (map encode rs) @ packet stop body @ rest"
    and "\<forall>rp \<in> set rs. reply_ok ack rp" "stop \<in> {CSE_END, CSE_CLOSE, ack}" "ack \<in> {CSE_ACK, CSE_END}"
    and "length body \<le> 8193" "arrays_ok a" "r_rwrite r = []"
  shows "returns (\<lambda>(code, keepalive', r', x'). code = of_char stop \<and> keepalive' = (keepalive \<or> KeepAlive \<in> set rs) \<and>
      view r' = fold meaning rs (view r) \<and> r_rwrite r' = [] \<and>
      usable x' \<and> pending x' = rest \<and> s_socket (fst x') = s_socket (fst x))
    (send_data (of_char ack) keepalive a r x)"
  using assms(1-4,8,9)
proof (induction rs arbitrary: keepalive a r x)
  case Nil
  have p: "pending x = packet stop body @ rest" using Nil.prems(3) by simp
  have "length body < 16777216" using assms(7) by simp
  from read_header_packet [OF Nil.prems(1) p this] obtain l3 x1 where
    h: "read_header x = Inr ((of_char stop, l3, int (length body)), x1)" "usable x1" "pending x1 = body @ rest"
      "s_socket (fst x1) = s_socket (fst x)" by (auto simp: returns_iff)
  have "length body \<le> length (a_buf a)" using Nil.prems(5) assms(7) by (simp add: arrays_ok_def)
  from read_all_block [OF h(2,3) this] obtain q buf x2 where
    b: "cse_read_all (a_buf a) (int (length body)) x1 = Inr (q, buf, x2)" "usable x2" "pending x2 = rest"
      "s_socket (fst x2) = s_socket (fst x)" using h(4) by (auto simp: returns_iff)
  have "stop \<in> {CSE_END, CSE_CLOSE, CSE_ACK}" using assms(5,6) by auto
  then have s: "send_packet (of_char stop) (int (length body)) keepalive a r x1 =
      Inr (False, keepalive, a\<lparr>a_buf := buf\<rparr>, r, x2)"
    using b(1) by (auto simp: send_packet_def cse_codes)
  show ?case using h b Nil.prems assms(5) by (subst send_data.simps) (auto simp: s)
next
  case (Cons rp rs)
  have ok: "reply_ok ack rp" and oks: "\<forall>rp \<in> set rs. reply_ok ack rp" using Cons.prems(4) by simp_all
  note go = reply_code_goes_on [OF ok assms(6)]
  let ?rest = "concat (map encode rs) @ packet stop body @ rest"
  have p: "pending x = packet (reply_code rp) (reply_body rp) @ reply_tail rp @ ?rest"
    using Cons.prems(3) by (simp add: encode_def [of rp])
  from read_header_packet [OF Cons.prems(1) p go(3)] obtain l3 x1 where
    h: "read_header x = Inr ((of_char (reply_code rp), l3, int (length (reply_body rp))), x1)" "usable x1"
      "pending x1 = reply_body rp @ reply_tail rp @ ?rest" "s_socket (fst x1) = s_socket (fst x)"
    by (auto simp: returns_iff)
  have so: "0 \<le> s_socket (fst x1)" using h(4) Cons.prems(2) by simp
  from send_packet_reply [OF h(2) so h(3) ok Cons.prems(5,6), of keepalive] obtain keepalive1 a1 r1 x2 where
    s: "send_packet (of_char (reply_code rp)) (int (length (reply_body rp))) keepalive a r x1 =
        Inr (False, keepalive1, a1, r1, x2)"
      "keepalive1 = (keepalive \<or> rp = KeepAlive)" "arrays_ok a1" "view r1 = meaning rp (view r)" "r_rwrite r1 = []"
      "usable x2" "pending x2 = ?rest" "s_socket (fst x2) = s_socket (fst x)"
    using h(4) by (auto simp: returns_iff)
  have "send_data (of_char ack) keepalive a r x = send_data (of_char ack) keepalive1 a1 r1 x2"
    using h(1) so s(1) go(1,2) by (subst send_data.simps) simp
  moreover have "0 \<le> s_socket (fst x2)" using s(8) Cons.prems(2) by simp
  ultimately show ?case using Cons.IH [OF s(6) _ s(7) oks s(3,5), of keepalive1] s(2,4,8)
    by (auto elim!: returns_mono)
qed

subsection \<open>The request on the wire\<close>

fun items_wire :: "(char \<times> string option) list \<Rightarrow> string" where
  "items_wire [] = []"
| "items_wire ((code, None) # items) = items_wire items"
| "items_wire ((code, Some str) # items) = packet code str @ items_wire items"

definition items_fit :: "(char \<times> string option) list \<Rightarrow> bool" where
  "items_fit items \<longleftrightarrow> (\<forall>(code, str) \<in> set items. case str of None \<Rightarrow> True | Some s \<Rightarrow> length s \<le> BUF_LENGTH)"

lemma items_wire_append: "items_wire (xs @ ys) = items_wire xs @ items_wire ys"
  by (induction xs rule: items_wire.induct) auto

lemma write_strings_append: "write_strings (xs @ ys) x = bindR (write_strings xs x) (write_strings ys)"
  by (induction xs x rule: write_strings.induct) (auto simp: bindR_assoc cong: bindR_cong)

text \<open>The peer gets more, and nothing else changes.\<close>

definition sends :: "string \<Rightarrow> io \<Rightarrow> io \<Rightarrow> bool" where
  "sends bs x y \<longleftrightarrow> writable y \<and> same_input x y \<and> wire y = wire x @ bs"

lemma sends_trans: "sends bs x y \<Longrightarrow> sends cs y z \<Longrightarrow> sends (bs @ cs) x z"
  by (auto simp: sends_def intro: same_input_trans)

lemma write_strings_sends:
  assumes "writable x" "items_fit items"
  shows "returns (sends (items_wire items) x) (write_strings items x)"
  using assms
proof (induction items arbitrary: x)
  case Nil
  then show ?case by (simp add: sends_def)
next
  case (Cons item items)
  have fit: "items_fit items" using Cons.prems(2) by (simp add: items_fit_def)
  obtain code str where i: "item = (code, str)" by (rule prod.exhaust)
  show ?case
  proof (cases str)
    case None
    then show ?thesis using Cons.IH [OF Cons.prems(1) fit] by (simp add: i)
  next
    case (Some s)
    have len: "length s \<le> BUF_LENGTH" using Cons.prems(2) by (simp add: items_fit_def i Some)
    show ?thesis unfolding i Some write_strings.simps
    proof (rule returns_bindI [OF cse_write_string_content [OF Cons.prems(1) len, of code]])
      fix y assume "writable y \<and> same_input x y \<and> wire y = wire x @ packet code s"
      then have "sends (packet code s) x y" "writable y" by (simp_all add: sends_def)
      then show "returns (sends (items_wire ((code, Some s) # items)) x) (write_strings items y)"
        using returns_mono [OF Cons.IH [OF \<open>writable y\<close> fit], of "sends (packet code s @ items_wire items) x"]
          sends_trans [OF \<open>sends (packet code s) x y\<close>] by simp
    qed
  qed
qed

fun added_items :: "string option \<Rightarrow> (string option \<times> string option) list \<Rightarrow> (char \<times> string option) list" where
  "added_items user [] = []"
| "added_items user ((None, val) # hdrs) = added_items user hdrs"
| "added_items user ((Some key, val) # hdrs) =
     (if key = ''HTTPS'' \<and> val = Some ''on'' then [(CSE_IS_SECURE, Some [])]
      else if user = None \<and> key = ''SSL_CLIENT_DN'' then [(CSE_REMOTE_USER, val)] else []) @
     [(CSE_HEADER, Some key), (CSE_VALUE, val)] @ added_items user hdrs"

lemma write_added_loop_items:
  assumes "(Some ''HTTPS'', None) \<notin> set hdrs"
  shows "write_added_loop user hdrs x = write_strings (added_items user hdrs) x"
  using assms
proof (induction hdrs arbitrary: x)
  case (Cons hdr hdrs)
  have ih: "write_added_loop user hdrs = write_strings (added_items user hdrs)" by (rule ext) (use Cons in auto)
  obtain key val where h: "hdr = (key, val)" by (rule prod.exhaust)
  show ?case
  proof (cases key)
    case None
    then show ?thesis by (simp add: h ih)
  next
    case (Some k)
    let ?pre = "if k = ''HTTPS'' \<and> val = Some ''on'' then [(CSE_IS_SECURE, Some [])]
      else if user = None \<and> k = ''SSL_CLIENT_DN'' then [(CSE_REMOTE_USER, val)] else []"
    have "(if k = ''HTTPS'' \<and> val = None then Inl NullPointer
            else if k = ''HTTPS'' \<and> val = Some ''on'' then cse_write_string CSE_IS_SECURE (Some []) x
            else if user = None \<and> k = ''SSL_CLIENT_DN'' then cse_write_string CSE_REMOTE_USER val x
            else Inr x) = write_strings ?pre x"
      using Cons.prems by (cases val) (auto simp: h Some bindR_def split: sum.split)
    then show ?thesis unfolding h Some write_added_loop.simps added_items.simps ih write_strings_append by simp
  qed
qed simp


definition head_items :: "request \<Rightarrow> string \<Rightarrow> int \<Rightarrow> (char \<times> string option) list" where
  "head_items r uri session =
     [(CSE_PROTOCOL, r_protocol r), (CSE_METHOD, r_method r)] @ env_items r uri session @
     header_items (r_headers_in r) @ added_items (r_user r) (r_subprocess_env r)"

definition path_of :: "string \<Rightarrow> string" where
  "path_of uri = takeWhile (\<lambda>c. c \<noteq> CHR ''?'') uri"

lemma items_fit_append: "items_fit (xs @ ys) \<longleftrightarrow> items_fit xs \<and> items_fit ys"
  by (auto simp: items_fit_def)

lemma returns_sends_bind:
  assumes "returns (sends bs x) m" "\<And>y. writable y \<Longrightarrow> same_input x y \<Longrightarrow> returns (sends cs y) (f y)"
  shows "returns (sends (bs @ cs) x) (bindR m f)"
proof (rule returns_bindI [OF assms(1)])
  fix y assume y: "sends bs x y"
  then have "returns (sends cs y) (f y)" by (intro assms(2)) (auto simp: sends_def)
  then show "returns (sends (bs @ cs) x) (f y)" by (rule returns_mono) (use y sends_trans in blast)
qed

lemma write_head_sends:
  assumes "writable x" "s_srun (fst x) = Some k" "k < length (srun_list c)"
    and "length (path_of (r_unparsed_uri r)) < 1024" "(Some ''HTTPS'', None) \<notin> set (r_subprocess_env r)"
    and "items_fit (head_items r (path_of (r_unparsed_uri r)) (sr_session (srun_list c ! k)))"
  shows "returns (sends (items_wire (head_items r (path_of (r_unparsed_uri r)) (sr_session (srun_list c ! k)))) x)
    (bindR (write_env c r x) (\<lambda>x. bindR (write_headers r x) (write_added_headers r)))"
proof -
  let ?env = "env_items r (path_of (r_unparsed_uri r)) (sr_session (srun_list c ! k))"
  let ?pm = "[(CSE_PROTOCOL, r_protocol r), (CSE_METHOD, r_method r)]"
  have uri: "copy_uri (r_unparsed_uri r) = Inr (path_of (r_unparsed_uri r))"
    using assms(4) by (simp add: copy_uri_def path_of_def Let_def)
  have fit: "items_fit ?pm" "items_fit ?env" "items_fit (header_items (r_headers_in r))"
    "items_fit (added_items (r_user r) (r_subprocess_env r))"
    using assms(6) unfolding head_items_def items_fit_append by simp_all
  have env: "returns (sends (items_wire ?pm @ items_wire ?env) x) (write_env c r x)"
    unfolding write_env_def
  proof (rule returns_sends_bind [OF write_strings_sends [OF assms(1) fit(1)]])
    fix y assume y: "writable y" "same_input x y"
    obtain s w where yy: "y = (s, w)" by (rule prod.exhaust)
    have "s_srun s = Some k" using y(2) assms(2) by (cases x) (simp add: same_input_def yy)
    then show "returns (sends (items_wire ?env) y) (case y of (s, w) \<Rightarrow> bindR (copy_uri (r_unparsed_uri r)) (\<lambda>uri.
       case s_srun s of None \<Rightarrow> Inl NullPointer
       | Some k \<Rightarrow> bindR (get_srun c (int k)) (\<lambda>srun. write_strings (env_items r uri (sr_session srun)) (s, w))))"
      using write_strings_sends [OF y(1) fit(2)] assms(3) by (simp add: yy uri)
  qed
  have "returns (sends ((items_wire ?pm @ items_wire ?env) @ (items_wire (header_items (r_headers_in r)) @
      items_wire (added_items (r_user r) (r_subprocess_env r)))) x)
    (bindR (write_env c r x) (\<lambda>x. bindR (write_headers r x) (write_added_headers r)))"
    by (rule returns_sends_bind [OF env], rule returns_sends_bind)
      (simp_all add: write_headers_def write_added_headers_def write_added_loop_items [OF assms(5)] write_strings_sends fit)
  then show ?thesis by (simp add: head_items_def items_wire_append [symmetric])
qed


subsection \<open>Reading does not disturb what was written\<close>

definition steady :: "io \<Rightarrow> io \<Rightarrow> bool" where
  "steady x y \<longleftrightarrow> (s_socket (fst x) < 0 \<longrightarrow> s_socket (fst y) < 0) \<and>
     (writable x \<longrightarrow> s_socket (fst y) < 0 \<or> writable y \<and> wire y = wire x)"

lemma steady_trans: "steady x y \<Longrightarrow> steady y z \<Longrightarrow> steady x z"
  by (auto simp: steady_def)

lemma writable_socket: "writable x \<Longrightarrow> 0 \<le> s_socket (fst x)"
  by (auto simp: writable_def)

lemma steady_ensure:
  assumes "ensure_data (s, w) = (fl, s', w')"
  shows "steady (s, w) (s', w')"
proof (cases "s_read_offset s \<ge> s_read_length s \<and> 0 \<le> s_socket s")
  case False
  then show ?thesis using assms by (auto simp: ensure_data_def cse_fill_buffer_def steady_def split: if_splits)
next
  case True
  show ?thesis
  proof (cases "writable (s, w)")
    case False
    then show ?thesis using True by (simp add: steady_def)
  next
    case wr: True
    then have ok: "stream_ok s" "s_socket s \<in> set (open_fds w)" "tx_takes BUF_LENGTH w" by (auto simp: writable_def)
    obtain w1 where w1: "cse_flush (s, w) = (0, s\<lparr>s_write_buf := []\<rparr>, w1)"
      "open_fds w1 = open_fds w" "rx w1 = rx w" "tx_takes BUF_LENGTH w1"
      "\<forall>fd. sent_on fd (log w1) = sent_on fd (log w) @ (if fd = s_socket s then s_write_buf s else [])"
      using cse_flush_takes [OF ok(1,2)] ok(3) by metis
    obtain len bs w2 where rv: "sys_recv (s_socket s) BUF_LENGTH w1 = (len, bs, w2)" by (rule prod_cases3)
    have w2: "open_fds w2 = open_fds w1" "log w2 = log w1" "tx w2 = tx w1"
      using rv by (auto simp: sys_recv_def split: if_splits list.splits option.splits)
    have ok': "stream_ok s'" by (rule stream_ok_ensure [OF ok(1) assms])
    have "s_socket s' < 0 \<or> s_socket s' = s_socket s \<and> s_write_buf s' = [] \<and> w' = w2"
      using assms True w1(1) rv
      by (auto simp: ensure_data_def cse_fill_buffer_def Let_def cse_close_def split: if_splits)
    then show ?thesis using w1 w2 wr ok' by (auto simp: steady_def writable_def wire_def tx_takes_def)
  qed
qed

interpretation steady: reading steady
proof (unfold_locales, goal_cases)
  case (3 s w fl s' w')
  then show ?case by (rule steady_ensure)
next
  case (4 n s w)
  have "stream_ok s \<Longrightarrow> stream_ok (advance n s)" using 4 by (rule stream_ok_advance [rotated]) 
  then show ?case by (auto simp: steady_def writable_def wire_def)
next
  case (5 s w)
  then show ?case by (simp add: steady_def)
qed (auto simp: steady_def)


subsection \<open>A request and its replies\<close>

text \<open>The blocks of the client's body, and where \<open>ap_get_client_block\<close> stops giving any.\<close>

definition body_ends :: "string option list \<Rightarrow> bool" where
  "body_ends final \<longleftrightarrow> (case final of [] \<Rightarrow> True | None # _ \<Rightarrow> True | Some b # _ \<Rightarrow> b = [])"

definition block_ok :: "string \<Rightarrow> bool" where
  "block_ok b \<longleftrightarrow> b \<noteq> [] \<and> length b \<le> BUF_LENGTH"

text \<open>What a runner sends while it takes a body: replies and an acknowledgement for each block.\<close>

definition acknowledged :: "reply list list \<Rightarrow> string" where
  "acknowledged acks = concat (map (\<lambda>rs. concat (map encode rs) @ packet CSE_ACK []) acks)"

text \<open>The state after part of a request: what the client and the runner have got so far.\<close>

definition relayed :: "reply list \<Rightarrow> string \<Rightarrow> string \<Rightarrow> bool \<Rightarrow> request \<Rightarrow> io \<Rightarrow> bool \<times> request \<times> io \<Rightarrow> bool" where
  "relayed rs bs rest keepalive r x = (\<lambda>(keepalive', r', x'). keepalive' = (keepalive \<or> KeepAlive \<in> set rs) \<and>
     view r' = fold meaning rs (view r) \<and> r_rwrite r' = [] \<and> writable x' \<and> wire x' = wire x @ bs \<and>
     pending x' = rest \<and> s_socket (fst x') = s_socket (fst x))"

lemma relayed_trans:
  assumes "relayed rs bs p1 keepalive r x (keepalive1, r1, x1)" "relayed rs' bs' p2 keepalive1 r1 x1 y"
  shows "relayed (rs @ rs') (bs @ bs') p2 keepalive r x y"
  using assms by (cases y) (auto simp: relayed_def)

lemma send_data_relayed:
  assumes "writable x" "pending x = concat (map encode rs) @ packet ack [] @ rest"
    and "\<forall>rp \<in> set rs. reply_ok ack rp" "ack \<in> {CSE_ACK, CSE_END}" "arrays_ok a" "r_rwrite r = []"
  shows "returns (\<lambda>(code, y). code = of_char ack \<and> relayed rs [] rest keepalive r x y) (send_data (of_char ack) keepalive a r x)"
proof -
  have stop: "ack \<in> {CSE_END, CSE_CLOSE, ack}" and len: "length [] \<le> (8193::nat)" by simp_all
  obtain keepalive' r' x' where e: "send_data (of_char ack) keepalive a r x = Inr (of_char ack, keepalive', r', x')"
    "keepalive' = (keepalive \<or> KeepAlive \<in> set rs)" "view r' = fold meaning rs (view r)" "r_rwrite r' = []"
    "pending x' = rest" "s_socket (fst x') = s_socket (fst x)"
    using send_data_replies [OF writable_usable [OF assms(1)] writable_socket [OF assms(1)] assms(2,3) stop assms(4) _ assms(5,6),
      where keepalive = keepalive] by (auto simp: returns_iff)
  have "steady x x'" by (rule steady.R_send_data [OF e(1)])
  then show ?thesis using e assms(1) writable_socket [OF assms(1)] by (auto simp: relayed_def steady_def)
qed

lemma write_data_relayed:
  assumes "writable x" "length b \<le> BUF_LENGTH" "r_rwrite r = []"
  shows "returns (\<lambda>x'. relayed [] (packet code b) (pending x) keepalive r x (keepalive, r, x'))
    (cse_write_packet code b (int (length b)) x)"
  by (rule returns_mono [OF cse_write_packet_content [OF assms(1,2)]])
    (use assms(3) in \<open>auto simp: relayed_def same_input_def pending_def\<close>)

lemma post_loop_relayed:
  assumes "writable x" "pending x = acknowledged acks @ rest" "length acks = length bs"
    and "\<forall>b \<in> set bs. block_ok b" "body_ends final" "\<forall>rs \<in> set acks. \<forall>rp \<in> set rs. reply_ok CSE_ACK rp"
    and "arrays_ok a" "r_rwrite r = []"
  shows "returns (relayed (concat acks) (concat (map (packet CSE_DATA) bs)) rest keepalive r x)
    (post_loop (map Some bs @ final) False a keepalive r x)"
  using assms(1-4,6,8)
proof (induction bs arbitrary: acks keepalive r x)
  case Nil
  have "post_loop final False a keepalive r x = Inr (keepalive, r, x)"
    using assms(5) by (auto simp: body_ends_def split: list.splits option.splits)
  then show ?case using Nil by (simp add: relayed_def acknowledged_def)
next
  case (Cons b bs)
  obtain rs acks' where acks: "acks = rs # acks'" using Cons.prems(3) by (cases acks) auto
  have p: "pending x = concat (map encode rs) @ packet CSE_ACK [] @ (acknowledged acks' @ rest)"
    using Cons.prems(2) by (simp add: acks acknowledged_def)
  have ok: "\<forall>rp \<in> set rs. reply_ok CSE_ACK rp" "b \<noteq> []" "length b \<le> BUF_LENGTH"
    using Cons.prems(4,5) by (auto simp: acks block_ok_def)
  have ack: "CSE_ACK \<in> {CSE_ACK, CSE_END}" "of_char CSE_ACK \<noteq> (of_char CSE_END :: int)" "of_char CSE_ACK \<noteq> (of_char CSE_CLOSE :: int)"
    "\<not> (of_char CSE_ACK :: int) < 0" by (simp_all add: cse_codes)
  obtain keepalive1 r1 x1 where s: "send_data (of_char CSE_ACK) keepalive a r x = Inr (of_char CSE_ACK, keepalive1, r1, x1)"
    "relayed rs [] (acknowledged acks' @ rest) keepalive r x (keepalive1, r1, x1)"
    using send_data_relayed [OF Cons.prems(1) p ok(1) ack(1) assms(7) Cons.prems(6), of keepalive] by (auto simp: returns_iff)
  have x1: "writable x1" "r_rwrite r1 = []" "pending x1 = acknowledged acks' @ rest" using s(2) by (simp_all add: relayed_def)
  obtain x2 where w: "cse_write_packet CSE_DATA b (int (length b)) x1 = Inr x2"
    "relayed [] (packet CSE_DATA b) (acknowledged acks' @ rest) keepalive1 r1 x1 (keepalive1, r1, x2)"
    using write_data_relayed [OF x1(1) ok(3) x1(2), of CSE_DATA keepalive1] x1(3) by (auto simp: returns_iff)
  have x2: "writable x2" "pending x2 = acknowledged acks' @ rest" using w(2) by (simp_all add: relayed_def)
  have step: "post_loop (map Some (b # bs) @ final) False a keepalive r x = post_loop (map Some bs @ final) False a keepalive1 r1 x2"
    using ok(2) s(1) w(1) ack by simp
  have "returns (relayed (concat acks') (concat (map (packet CSE_DATA) bs)) rest keepalive1 r1 x2)
      (post_loop (map Some bs @ final) False a keepalive1 r1 x2)"
    by (rule Cons.IH [OF x2]) (use Cons.prems x1(2) acks in auto)
  then show ?case unfolding step
    by (rule returns_mono)
      (use relayed_trans [OF relayed_trans [OF s(2) w(2)]] in \<open>simp add: acks\<close>)
qed


lemma sends_relayed: "sends bs x y \<Longrightarrow> r_rwrite r = [] \<Longrightarrow> relayed [] bs (pending x) keepalive r x (keepalive, r, y)"
  by (auto simp: sends_def relayed_def same_input_def pending_def)

text \<open>The packets of a whole request, without and with a body.\<close>

definition request_wire :: "config \<Rightarrow> nat \<Rightarrow> request \<Rightarrow> string list \<Rightarrow> string" where
  "request_wire c k r bs = items_wire (head_items r (path_of (r_unparsed_uri r)) (sr_session (srun_list c ! k))) @
     concat (map (packet CSE_DATA) bs) @ packet CSE_END []"

definition request_fits :: "config \<Rightarrow> nat \<Rightarrow> request \<Rightarrow> bool" where
  "request_fits c k r \<longleftrightarrow> length (path_of (r_unparsed_uri r)) < 1024 \<and> (Some ''HTTPS'', None) \<notin> set (r_subprocess_env r) \<and>
     items_fit (head_items r (path_of (r_unparsed_uri r)) (sr_session (srun_list c ! k)))"

text \<open>
  The body as \<open>ap_get_client_block\<close> gives it. The runner is asked for no acknowledgement before
  the first block, and for one before every other.
\<close>

definition body_of :: "request \<Rightarrow> string list \<Rightarrow> bool" where
  "body_of r bs \<longleftrightarrow> (if r_should_block r then (\<exists>final. r_blocks r = map Some bs @ final \<and> body_ends final) else bs = [])"

lemma body_relayed:
  assumes "writable x" "pending x = acknowledged acks @ rest" "length acks = length bs - 1" "body_of r bs"
    and "\<forall>b \<in> set bs. block_ok b" "\<forall>rs \<in> set acks. \<forall>rp \<in> set rs. reply_ok CSE_ACK rp"
    and "arrays_ok a" "r_rwrite r = []"
  shows "returns (relayed (concat acks) (concat (map (packet CSE_DATA) bs)) rest keepalive r x)
    (if r_should_block r then post_loop (r_blocks r) True a keepalive r x else Inr (keepalive, r, x))"
proof (cases "bs = []")
  case True
  then have "(if r_should_block r then post_loop (r_blocks r) True a keepalive r x else Inr (keepalive, r, x)) =
      Inr (keepalive, r, x)"
    using assms(4) by (auto simp: body_of_def body_ends_def split: list.splits option.splits)
  then show ?thesis using True assms by (simp add: relayed_def acknowledged_def)
next
  case False
  then obtain b bs' where bs: "bs = b # bs'" by (cases bs) auto
  obtain final where f: "r_should_block r" "r_blocks r = map Some bs @ final" "body_ends final"
    using assms(4) False by (auto simp: body_of_def split: if_splits)
  have b: "b \<noteq> []" "length b \<le> BUF_LENGTH" using assms(5) by (auto simp: bs block_ok_def)
  obtain x2 where w: "cse_write_packet CSE_DATA b (int (length b)) x = Inr x2"
    "relayed [] (packet CSE_DATA b) (acknowledged acks @ rest) keepalive r x (keepalive, r, x2)"
    using write_data_relayed [OF assms(1) b(2) assms(8), of CSE_DATA keepalive] assms(2) by (auto simp: returns_iff)
  have x2: "writable x2" "pending x2 = acknowledged acks @ rest" using w(2) by (simp_all add: relayed_def)
  have "returns (relayed (concat acks) (concat (map (packet CSE_DATA) bs')) rest keepalive r x2)
      (post_loop (map Some bs' @ final) False a keepalive r x2)"
    by (rule post_loop_relayed [OF x2]) (use assms f(3) bs in auto)
  then have "returns (relayed (concat acks) (concat (map (packet CSE_DATA) bs)) rest keepalive r x)
      (post_loop (map Some bs' @ final) False a keepalive r x2)"
    by (rule returns_mono) (use relayed_trans [OF w(2)] in \<open>simp add: bs\<close>)
  then show ?thesis using f(1,2) b(1) w(1) by (simp add: bs)
qed

lemma write_request_relayed:
  assumes "writable x" "s_srun (fst x) = Some k" "k < length (srun_list c)" "request_fits c k r" "r_rwrite r = []"
    and "body_of r bs" "\<forall>b \<in> set bs. block_ok b" "length acks = length bs - 1" "arrays_ok a"
    and "\<forall>rs \<in> set acks. \<forall>rp \<in> set rs. reply_ok CSE_ACK rp" "\<forall>rp \<in> set rs. reply_ok CSE_END rp"
    and "pending x = acknowledged acks @ concat (map encode rs) @ packet CSE_END [] @ rest"
  shows "returns (\<lambda>(reuse, y). reuse \<and> relayed (concat acks @ rs) (request_wire c k r bs) rest keepalive r x y)
    (write_request c a keepalive r x)"
proof -
  let ?head = "items_wire (head_items r (path_of (r_unparsed_uri r)) (sr_session (srun_list c ! k)))"
  let ?data = "concat (map (packet CSE_DATA) bs)"
  let ?rest = "concat (map encode rs) @ packet CSE_END [] @ rest"
  have fits: "length (path_of (r_unparsed_uri r)) < 1024" "(Some ''HTTPS'', None) \<notin> set (r_subprocess_env r)"
    "items_fit (head_items r (path_of (r_unparsed_uri r)) (sr_session (srun_list c ! k)))"
    using assms(4) by (simp_all add: request_fits_def)
  obtain x1 where h: "bindR (write_env c r x) (\<lambda>x. bindR (write_headers r x) (write_added_headers r)) = Inr x1" "sends ?head x x1"
    using write_head_sends [OF assms(1-3) fits] by (auto simp: returns_iff)
  note r1 = sends_relayed [OF h(2) assms(5), of keepalive]
  have x1: "writable x1" "pending x1 = acknowledged acks @ ?rest" using r1 assms(12) by (simp_all add: relayed_def)
  obtain keepalive2 r2 x2 where d: "(if r_should_block r then post_loop (r_blocks r) True a keepalive r x1
      else Inr (keepalive, r, x1)) = Inr (keepalive2, r2, x2)"
    "relayed (concat acks) ?data ?rest keepalive r x1 (keepalive2, r2, x2)"
    using body_relayed [OF x1 assms(8,6,7,10,9,5), of keepalive] by (auto simp: returns_iff)
  note r2 = relayed_trans [OF r1 d(2)]
  have x2: "writable x2" "r_rwrite r2 = []" "pending x2 = ?rest" using d(2) by (simp_all add: relayed_def)
  obtain x3 where e: "cse_write_packet CSE_END [] 0 x2 = Inr x3"
    "relayed [] (packet CSE_END []) ?rest keepalive2 r2 x2 (keepalive2, r2, x3)"
    using write_data_relayed [OF x2(1) _ x2(2), of "[]" CSE_END keepalive2] x2(3) by (auto simp: returns_iff)
  note r3 = relayed_trans [OF r2 e(2)]
  have x3: "writable x3" "pending x3 = ?rest" using e(2) by (simp_all add: relayed_def)
  obtain y where s: "send_data (of_char CSE_END) keepalive2 a r2 x3 = Inr (of_char CSE_END, y)"
    "relayed rs [] rest keepalive2 r2 x3 y"
    using send_data_relayed [OF x3 assms(11) _ assms(9) x2(2), of keepalive2] by (auto simp: returns_iff)
  have "relayed (concat acks @ rs) (request_wire c k r bs) rest keepalive r x y"
    using relayed_trans [OF r3 s(2)] by (simp add: request_wire_def)
  moreover obtain u1 u2 where "write_env c r x = Inr u1" "write_headers r u1 = Inr u2" "write_added_headers r u2 = Inr x1"
    using h(1) by (auto simp: bindR_Inr_iff)
  then have "write_request c a keepalive r x = Inr (True, y)"
    using d(1) e(1) s(1) by (cases y) (simp add: write_request_def)
  ultimately show ?thesis by simp
qed


subsection \<open>Properties\<close>


definition sample_post :: request where
  "sample_post = sample_request\<lparr>r_should_block := True, r_blocks := [Some ''a=1'', Some ''b=2'', Some []]\<rparr>"

definition sample_replies :: "reply list" where
  "sample_replies = [Status ''HTTP/1.0 200 OK'', Header ''Content-Type'' ''text/html'', SendHeader, Data ''hello'', KeepAlive]"




end
