(* ===== verification/Cse_Registry.thy ===== *)
theory Cse_Registry
  imports Cse_State
begin

text \<open>
  The registry (registry.c): the tree of configuration entries and the parser that builds it
  from a file.
  \<^item> The nodes are cells of an explicit heap that \<open>cse_alloc\<close> extends and nothing shrinks; a
    \<open>registry_t *\<close> is an index or \<open>None\<close>, and dereferencing \<open>None\<close> faults.
  \<^item> A \<open>FILE\<close> is the list of the bytes not read yet; \<open>ungetc\<close> pushes one back.
  \<^item> Fresh memory has the contents \<open>junk\<close>: \<open>cse_alloc\<close> does not clear it.
  \<^item> \<open>files\<close> is the file system; \<open>fopen\<close> also fails when the process has no file handle left,
    which bounds the depth of inclusions.
  \<^item> The walks along \<open>next\<close> have the size of the heap as fuel: running out means a cycle, on which
    the C code would not end.
\<close>

subsection \<open>The heap of nodes\<close>

record node =
  n_parent :: "nat option"
  n_next :: "nat option"
  n_prev :: "nat option"
  n_first :: "nat option"
  n_last :: "nat option"
  n_key :: string
  n_value :: "string option"

type_synonym heap = "node list"

definition new_node :: "string \<Rightarrow> node" where
  "new_node key = \<lparr>n_parent = None, n_next = None, n_prev = None, n_first = None, n_last = None,
     n_key = key, n_value = None\<rparr>"

definition get_node :: "heap \<Rightarrow> nat option \<Rightarrow> node res" where
  "get_node h p = (case p of None \<Rightarrow> Inl NullPointer
     | Some a \<Rightarrow> if a < length h then Inr (h ! a) else Inl OutOfBounds)"

definition upd_node :: "nat \<Rightarrow> (node \<Rightarrow> node) \<Rightarrow> heap \<Rightarrow> heap" where
  "upd_node a f h = h[a := f (h ! a)]"

definition registry_add :: "nat \<Rightarrow> string \<Rightarrow> heap \<Rightarrow> (nat \<times> heap) res" where
  "registry_add node key h =
     bindR (get_node h (Some node)) (\<lambda>n.
       let child = length h;
           h = h @ [(new_node key)\<lparr>n_parent := Some node, n_prev := n_last n\<rparr>]
       in case n_last n of
            Some l \<Rightarrow> bindR (get_node h (Some l)) (\<lambda>_.
              Inr (child, upd_node node (\<lambda>n. n\<lparr>n_last := Some child\<rparr>)
                            (upd_node l (\<lambda>n. n\<lparr>n_next := Some child\<rparr>) h)))
          | None \<Rightarrow> Inr (child, upd_node node (\<lambda>n. n\<lparr>n_first := Some child, n_last := Some child\<rparr>) h))"

text \<open>Walks along the siblings.\<close>

fun next_link :: "heap \<Rightarrow> nat \<Rightarrow> nat option \<Rightarrow> string \<Rightarrow> nat option res" where
  "next_link h 0 p key = Inl OutOfFuel"
| "next_link h (Suc n) None key = Inr None"
| "next_link h (Suc n) (Some a) key =
     bindR (get_node h (Some a)) (\<lambda>nd.
       if n_key nd = key then Inr (Some a) else next_link h n (n_next nd) key)"

definition cse_next_link :: "heap \<Rightarrow> nat option \<Rightarrow> string \<Rightarrow> nat option res" where
  "cse_next_link h p key = next_link h (Suc (length h)) p key"

definition cse_find_value :: "heap \<Rightarrow> nat option \<Rightarrow> string \<Rightarrow> string option res" where
  "cse_find_value h p key =
     bindR (next_link h (Suc (length h)) p key) (\<lambda>q.
       case q of None \<Rightarrow> Inr None | Some a \<Rightarrow> bindR (get_node h (Some a)) (\<lambda>nd. Inr (n_value nd)))"

text \<open>\<open>for (; node; node = node->next)\<close> as the list of the nodes it visits.\<close>

fun chain :: "heap \<Rightarrow> nat \<Rightarrow> nat option \<Rightarrow> nat list res" where
  "chain h 0 p = Inl OutOfFuel"
| "chain h (Suc n) None = Inr []"
| "chain h (Suc n) (Some a) =
     bindR (get_node h (Some a)) (\<lambda>nd. bindR (chain h n (n_next nd)) (\<lambda>as. Inr (a # as)))"

definition siblings :: "heap \<Rightarrow> nat option \<Rightarrow> nat list res" where
  "siblings h p = chain h (Suc (length h)) p"

text \<open>What \<open>cse_print_registry\<close> passes to \<open>cse_log\<close>, line by line; the fuel bounds the depth.\<close>

fun print_nodes :: "heap \<Rightarrow> nat \<Rightarrow> nat option \<Rightarrow> string list res" where
  "print_nodes h 0 p = Inl OutOfFuel"
| "print_nodes h (Suc n) None = Inr []"
| "print_nodes h (Suc n) (Some a) =
     bindR (get_node h (Some a)) (\<lambda>nd.
       let val = (case n_value nd of Some v \<Rightarrow> v | None \<Rightarrow> []) in
       bindR (case n_first nd of
                Some f \<Rightarrow> bindR (print_nodes h n (Some f)) (\<lambda>lines.
                  Inr ([''<'' @ n_key nd @ '' id='' @ val @ ''>'' @ [CHR 0x0A]] @ lines @
                       [''</'' @ n_key nd @ ''>'' @ [CHR 0x0A]]))
              | None \<Rightarrow> Inr [n_key nd @ ''='' @ val @ [CHR 0x0A]]) (\<lambda>here.
       bindR (print_nodes h n (n_next nd)) (\<lambda>lines. Inr (here @ lines))))"

definition cse_print_registry :: "heap \<Rightarrow> nat option \<Rightarrow> string list res" where
  "cse_print_registry h p = print_nodes h (Suc (length h)) p"

subsection \<open>The parse state\<close>

record rstream =
  is_config :: config
  is_heap :: heap
  is_input :: string
  is_path :: string
  is_line :: int
  is_buf :: string
  is_length :: nat
  is_capacity :: nat
  is_junk :: "nat \<Rightarrow> char"

definition fresh_memory :: "(nat \<Rightarrow> char) \<Rightarrow> nat \<Rightarrow> string" where
  "fresh_memory junk n = map junk [0..<n]"

definition buf_read :: "rstream \<Rightarrow> int \<times> rstream" where
  "buf_read is =
     (case is_input is of
        [] \<Rightarrow> (-1, is)
      | c # cs \<Rightarrow> (of_char c, is\<lparr>is_input := cs,
          is_line := (if c = CHR 0x0A then is_line is + 1 else is_line is)\<rparr>))"

definition ungetc :: "int \<Rightarrow> rstream \<Rightarrow> rstream" where
  "ungetc ch is = (if ch < 0 then is else is\<lparr>is_input := char_of ch # is_input is\<rparr>)"

text \<open>The grown buffer is a new block; the token read so far is not copied to it.\<close>

definition buf_append :: "rstream \<Rightarrow> int \<Rightarrow> rstream res" where
  "buf_append is ch =
     (let is = (if is_length is + 2 \<ge> is_capacity is
                then let capacity = 2 * is_capacity is
                     in is\<lparr>is_capacity := capacity, is_buf := fresh_memory (is_junk is) (2 * capacity)\<rparr>
                else is)
      in bindR (store (is_buf is) (int (is_length is)) [char_of ch]) (\<lambda>buf.
           Inr (is\<lparr>is_buf := buf, is_length := is_length is + 1\<rparr>)))"

text \<open>\<open>is->buf[is->length] = 0\<close> and \<open>cse_strdup (is->buf)\<close>.\<close>

definition get_token :: "rstream \<Rightarrow> (string \<times> rstream) res" where
  "get_token is =
     bindR (store (is_buf is) (int (is_length is)) [NUL]) (\<lambda>buf.
     bindR (cstr_at buf 0) (\<lambda>str. Inr (str, is\<lparr>is_buf := buf\<rparr>)))"

text \<open>\<open>cse_error (config, "%s:%d: ...")\<close>; a \<open>%c\<close> may put a NUL in the message, where it then ends.\<close>

definition parse_error :: "string \<Rightarrow> rstream \<Rightarrow> rstream res" where
  "parse_error msg is =
     bindR (cse_error (is_path is @ '':'' @ int_str (is_line is) @ '': '' @ msg @ [CHR 0x0A]) (is_config is)) (\<lambda>config.
       Inr (is\<lparr>is_config := config\<lparr>c_error := map_option cstr_of (c_error config)\<rparr>\<rparr>))"

definition quoted :: "int \<Rightarrow> string" where
  "quoted ch = [CHR 0x27, char_of ch, CHR 0x27]"

definition is_space_code :: "int \<Rightarrow> bool" where
  "is_space_code ch \<longleftrightarrow> ch = 32 \<or> 9 \<le> ch \<and> ch \<le> 13"

text \<open>The current character with what is left to read: every loop below consumes of it.\<close>

definition avail :: "int \<Rightarrow> rstream \<Rightarrow> nat" where
  "avail ch is = length (is_input is) + (if 0 \<le> ch then 1 else 0)"

lemma avail_buf_read [simp]: "(case buf_read is of (ch, is') \<Rightarrow> avail ch is') = length (is_input is)"
  by (simp add: buf_read_def avail_def of_char_less split: list.split)

lemma avail_char: "0 \<le> ch \<Longrightarrow> length (is_input is) < avail ch is"
  by (simp add: avail_def)

lemma buf_read_avail: "buf_read is = (ch, is') \<Longrightarrow> avail ch is' = length (is_input is)"
  using avail_buf_read [of "is"] by simp

lemma buf_append_input: "buf_append is ch = Inr is' \<Longrightarrow> is_input is' = is_input is"
  by (auto simp: buf_append_def bindR_Inr_iff Let_def split: if_splits)

function skip_space :: "int \<Rightarrow> rstream \<Rightarrow> int \<times> rstream" where
  "skip_space ch is = (if is_space_code ch then (case buf_read is of (ch, is) \<Rightarrow> skip_space ch is) else (ch, is))"
  by pat_completeness auto
termination
  by (relation "measure (\<lambda>(ch, is). avail ch is)")
    (auto simp: is_space_code_def intro: avail_char)

text \<open>\<open>for (; ch >= 0 && ...; ch = buf_read (is)) buf_append (is, ch)\<close>.\<close>

function read_token :: "(int \<Rightarrow> bool) \<Rightarrow> int \<Rightarrow> rstream \<Rightarrow> (int \<times> rstream) res" where
  "read_token P ch is =
     (if 0 \<le> ch \<and> P ch
      then bindR (buf_append is ch) (\<lambda>is. case buf_read is of (ch, is) \<Rightarrow> read_token P ch is)
      else Inr (ch, is))"
  by pat_completeness auto
termination
  by (relation "measure (\<lambda>(P, ch, is). avail ch is)")
    (auto dest!: buf_append_input intro: avail_char)

declare skip_space.simps [simp del] read_token.simps [simp del]


subsection \<open>Attributes and tags\<close>

definition set_value :: "nat \<Rightarrow> string \<Rightarrow> rstream \<Rightarrow> rstream res" where
  "set_value node str is =
     bindR (get_node (is_heap is) (Some node)) (\<lambda>_.
       Inr (is\<lparr>is_heap := upd_node node (\<lambda>n. n\<lparr>n_value := Some str\<rparr>) (is_heap is)\<rparr>))"

text \<open>The attribute's node: the tag's own node for \<open>id\<close>, else a new child.\<close>

definition attribute_node :: "nat \<Rightarrow> string \<Rightarrow> rstream \<Rightarrow> (nat \<times> rstream) res" where
  "attribute_node node str is =
     (if str = ''id'' then Inr (node, is)
      else bindR (registry_add node str (is_heap is)) (\<lambda>(attr, h). Inr (attr, is\<lparr>is_heap := h\<rparr>)))"

definition in_name :: "int \<Rightarrow> bool" where
  "in_name ch \<longleftrightarrow> \<not> is_space_code ch \<and> ch \<noteq> code_of (CHR ''='') \<and> ch \<noteq> code_of (CHR ''/'') \<and> ch \<noteq> code_of (CHR ''>'')"

definition in_word :: "int \<Rightarrow> bool" where
  "in_word ch \<longleftrightarrow> \<not> is_space_code ch \<and> ch \<noteq> code_of (CHR ''/'') \<and> ch \<noteq> code_of (CHR ''>'')"

text \<open>What follows the equals sign.\<close>

definition parse_value :: "nat \<Rightarrow> rstream \<Rightarrow> (int \<times> rstream) res" where
  "parse_value attr is =
     (let (ch, is) = buf_read is;
          (ch, is) = skip_space ch is
      in if ch < 0 \<or> ch = code_of (CHR ''/'') \<or> ch = code_of (CHR ''>'') then
           bindR (parse_error (''expected attribute at '' @ quoted ch) is) (\<lambda>is. Inr (-1, is))
         else if ch = code_of (CHR 0x27) \<or> ch = code_of (CHR 0x22) then
           let end_ch = ch;
               is = is\<lparr>is_length := 0\<rparr>;
               (ch, is) = buf_read is
           in bindR (read_token (\<lambda>ch. ch \<noteq> end_ch) ch is) (\<lambda>(ch, is).
                if ch \<noteq> end_ch then
                  bindR (parse_error (''expected '' @ quoted end_ch @ '' at '' @ quoted ch) is) (\<lambda>is. Inr (-1, is))
                else bindR (get_token is) (\<lambda>(str, is).
                     bindR (set_value attr str is) (\<lambda>is. Inr (code_of (CHR '' ''), is))))
         else
           bindR (read_token in_word ch (is\<lparr>is_length := 0\<rparr>)) (\<lambda>(ch, is).
           bindR (get_token is) (\<lambda>(str, is).
           bindR (set_value attr str is) (\<lambda>is. Inr (ch, is)))))"

definition parse_attribute :: "nat \<Rightarrow> int \<Rightarrow> rstream \<Rightarrow> (int \<times> rstream) res" where
  "parse_attribute node ch is =
     (let (ch, is) = skip_space ch is in
      bindR (read_token in_name ch (is\<lparr>is_length := 0\<rparr>)) (\<lambda>(ch, is).
        if is_length is = 0 then Inr (0, ungetc ch is)
        else bindR (get_token is) (\<lambda>(str, is).
             bindR (attribute_node node str is) (\<lambda>(attr, is).
               let (ch, is) = skip_space ch is in
               if ch \<noteq> code_of (CHR ''='') then Inr (0, ungetc ch is)
               else parse_value attr is))))"

text \<open>What these routines leave to read.\<close>

lemma is_input_simps [simp]: "is_input (is\<lparr>is_length := n\<rparr>) = is_input is" "avail ch (is\<lparr>is_length := n\<rparr>) = avail ch is"
  by (simp_all add: avail_def)

lemma skip_space_avail: "skip_space ch is = (ch', is') \<Longrightarrow> avail ch' is' \<le> avail ch is"
proof (induction ch "is" rule: skip_space.induct)
  case (1 ch "is")
  obtain c s where b: "buf_read is = (c, s)" by (rule prod.exhaust)
  show ?case
  proof (cases "is_space_code ch")
    case True
    then have "avail ch' is' \<le> avail c s" using 1 b by (simp add: skip_space.simps [of ch])
    then show ?thesis using buf_read_avail [OF b] True by (simp add: avail_def is_space_code_def)
  next
    case False
    then show ?thesis using 1(2) by (simp add: skip_space.simps [of ch])
  qed
qed

lemma read_token_avail:
  "read_token P ch is = Inr (ch', is') \<Longrightarrow>
   avail ch' is' \<le> avail ch is \<and> (is_length is \<noteq> is_length is' \<longrightarrow> avail ch' is' < avail ch is)"
proof (induction P ch "is" rule: read_token.induct)
  case (1 P ch "is")
  show ?case
  proof (cases "0 \<le> ch \<and> P ch")
    case True
    obtain s where a: "buf_append is ch = Inr s" using 1(2) True by (subst (asm) read_token.simps) (auto simp: bindR_Inr_iff)
    obtain c s2 where b: "buf_read s = (c, s2)" by (rule prod.exhaust)
    have "read_token P c s2 = Inr (ch', is')" using 1(2) True a b by (subst (asm) read_token.simps) simp
    from 1(1) [OF True a b [symmetric] this] have "avail ch' is' \<le> avail c s2" by simp
    then have "avail ch' is' < avail ch is"
      using buf_read_avail [OF b] buf_append_input [OF a] avail_char [of ch "is"] True by simp
    then show ?thesis by simp
  next
    case False
    then show ?thesis using 1(2) by (subst (asm) read_token.simps) auto
  qed
qed

lemma get_token_input: "get_token is = Inr (str, is') \<Longrightarrow> is_input is' = is_input is"
  by (auto simp: get_token_def bindR_Inr_iff)

lemma set_value_input: "set_value node str is = Inr is' \<Longrightarrow> is_input is' = is_input is"
  by (auto simp: set_value_def bindR_Inr_iff)

lemma parse_error_input: "parse_error msg is = Inr is' \<Longrightarrow> is_input is' = is_input is"
  by (auto simp: parse_error_def bindR_Inr_iff)

lemma attribute_node_input: "attribute_node node str is = Inr (a, is') \<Longrightarrow> is_input is' = is_input is"
  by (auto simp: attribute_node_def bindR_Inr_iff split: if_splits)

lemma ungetc_input: "length (is_input (ungetc ch is)) = avail ch is"
  by (simp add: ungetc_def avail_def)

lemma parse_value_avail:
  assumes "parse_value attr is = Inr (ch', is')"
  shows "avail ch' is' \<le> length (is_input is)"
proof -
  obtain c1 s1 where r: "buf_read is = (c1, s1)" by (rule prod.exhaust)
  obtain c2 s2 where sk: "skip_space c1 s1 = (c2, s2)" by (rule prod.exhaust)
  have a2: "avail c2 s2 \<le> length (is_input is)" using buf_read_avail [OF r] skip_space_avail [OF sk] by simp
  note e = assms [unfolded parse_value_def r sk Let_def prod.case]
  consider "c2 < 0 \<or> c2 = code_of (CHR ''/'') \<or> c2 = code_of (CHR ''>'')"
    | "\<not> (c2 < 0 \<or> c2 = code_of (CHR ''/'') \<or> c2 = code_of (CHR ''>''))" "c2 = code_of (CHR 0x27) \<or> c2 = code_of (CHR 0x22)"
    | "\<not> (c2 < 0 \<or> c2 = code_of (CHR ''/'') \<or> c2 = code_of (CHR ''>''))" "\<not> (c2 = code_of (CHR 0x27) \<or> c2 = code_of (CHR 0x22))"
    by blast
  then show ?thesis
  proof cases
    case 1
    then show ?thesis using e a2 parse_error_input by (auto simp: bindR_Inr_iff avail_def)
  next
    case 2
    obtain c3 s3 where r3: "buf_read (s2\<lparr>is_length := 0\<rparr>) = (c3, s3)" by (rule prod.exhaust)
    obtain c4 s4 where t: "read_token (\<lambda>ch. ch \<noteq> c2) c3 s3 = Inr (c4, s4)"
      "(if c4 \<noteq> c2 then bindR (parse_error (''expected '' @ quoted c2 @ '' at '' @ quoted c4) s4) (\<lambda>is. Inr (-1, is))
        else bindR (get_token s4) (\<lambda>(str, is). bindR (set_value attr str is) (\<lambda>is. Inr (code_of (CHR '' ''), is)))) = Inr (ch', is')"
      using e 2 r3 by (auto simp: bindR_Inr_iff)
    have c2: "0 \<le> c2" using 2(1) by simp
    have a4: "avail c4 s4 < avail c2 s2"
      using read_token_avail [OF t(1)] buf_read_avail [OF r3] avail_char [OF c2, of s2] by simp
    have "length (is_input is') = length (is_input s4)"
      using t(2) by (auto simp: bindR_Inr_iff dest!: parse_error_input get_token_input set_value_input split: if_splits)
    then have "avail ch' is' \<le> Suc (length (is_input s4))" by (simp add: avail_def)
    moreover have "Suc (length (is_input s4)) \<le> avail c2 s2" using a4 by (auto simp: avail_def split: if_splits)
    ultimately show ?thesis using a2 by simp
  next
    case 3
    then obtain c4 s4 str s5 where t: "read_token in_word c2 (s2\<lparr>is_length := 0\<rparr>) = Inr (c4, s4)"
      "get_token s4 = Inr (str, s5)" "set_value attr str s5 = Inr is'" "ch' = c4"
      using e by (auto simp: bindR_Inr_iff)
    then have "avail ch' is' = avail c4 s4" by (simp add: avail_def get_token_input [OF t(2)] set_value_input [OF t(3)])
    then show ?thesis using read_token_avail [OF t(1)] a2 by simp
  qed
qed

lemma parse_attribute_avail:
  assumes "parse_attribute node ch is = Inr (ch', is')"
  shows "length (is_input is') \<le> avail ch is" "0 < ch' \<Longrightarrow> avail ch' is' < avail ch is"
proof -
  obtain c1 s1 where sk: "skip_space ch is = (c1, s1)" by (rule prod.exhaust)
  obtain c2 s2 where t: "read_token in_name c1 (s1\<lparr>is_length := 0\<rparr>) = Inr (c2, s2)"
    "(if is_length s2 = 0 then Inr (0, ungetc c2 s2)
        else bindR (get_token s2) (\<lambda>(str, is).
             bindR (attribute_node node str is) (\<lambda>(attr, is).
               let (ch, is) = skip_space c2 is in
               if ch \<noteq> code_of (CHR ''='') then Inr (0, ungetc ch is)
               else parse_value attr is))) = Inr (ch', is')"
    using assms sk by (auto simp: parse_attribute_def bindR_Inr_iff)
  have a1: "avail c1 s1 \<le> avail ch is" by (rule skip_space_avail [OF sk])
  have a2: "avail c2 s2 \<le> avail c1 s1" "is_length s2 \<noteq> 0 \<Longrightarrow> avail c2 s2 < avail c1 s1"
    using read_token_avail [OF t(1)] by simp_all
  have "length (is_input is') \<le> avail ch is \<and> (0 < ch' \<longrightarrow> avail ch' is' < avail ch is)"
  proof (cases "is_length s2 = 0")
    case True
    then show ?thesis using t(2) a1 a2(1) ungetc_input [of c2 s2] by auto
  next
    case False
    then obtain str s3 attr s4 where g: "get_token s2 = Inr (str, s3)" "attribute_node node str s3 = Inr (attr, s4)"
      "(let (ch, is) = skip_space c2 s4 in
          if ch \<noteq> code_of (CHR ''='') then Inr (0, ungetc ch is) else parse_value attr is) = Inr (ch', is')"
      using t(2) by (auto simp: bindR_Inr_iff)
    obtain c5 s5 where sk2: "skip_space c2 s4 = (c5, s5)" by (rule prod.exhaust)
    have "avail c2 s4 = avail c2 s2" by (simp add: avail_def get_token_input [OF g(1)] attribute_node_input [OF g(2)])
    then have a5: "avail c5 s5 < avail ch is" using skip_space_avail [OF sk2] a1 a2(2) [OF False] by simp
    show ?thesis
    proof (cases "c5 = code_of (CHR ''='')")
      case True
      then have "parse_value attr s5 = Inr (ch', is')" using g(3) sk2 by simp
      from parse_value_avail [OF this] have "avail ch' is' \<le> length (is_input s5)" .
      moreover have "length (is_input s5) \<le> avail c5 s5" by (simp add: avail_def)
      ultimately have "avail ch' is' < avail ch is" using a5 by linarith
      then show ?thesis by (auto simp: avail_def split: if_splits)
    next
      case False
      then show ?thesis using g(3) sk2 a5 ungetc_input [of c5 s5] by auto
    qed
  qed
  then show "length (is_input is') \<le> avail ch is" "0 < ch' \<Longrightarrow> avail ch' is' < avail ch is" by auto
qed

function attribute_loop :: "nat \<Rightarrow> int \<Rightarrow> rstream \<Rightarrow> (int \<times> rstream) res" where
  "attribute_loop node ch is =
     bindR (parse_attribute node ch is) (\<lambda>r. case r of (ch, is) \<Rightarrow>
       if ch > 0 then attribute_loop node ch is else Inr (ch, is))"
  by pat_completeness auto
termination
  by (relation "measure (\<lambda>(node, ch, is). avail ch is)") (auto dest: parse_attribute_avail(2))

declare attribute_loop.simps [simp del]

definition parse_tag :: "nat \<Rightarrow> int \<Rightarrow> rstream \<Rightarrow> (int \<times> nat \<times> rstream) res" where
  "parse_tag node ch is =
     bindR (read_token in_word ch (is\<lparr>is_length := 0\<rparr>)) (\<lambda>(ch, is).
       if is_length is = 0 then
         bindR (parse_error (''unexpected char at '' @ quoted ch) is) (\<lambda>is. Inr (-1, node, is))
       else
         bindR (get_token is) (\<lambda>(str, is).
         bindR (registry_add node str (is_heap is)) (\<lambda>(child, h).
         bindR (attribute_loop child ch (is\<lparr>is_heap := h\<rparr>)) (\<lambda>(ch, is).
           if ch < 0 then bindR (parse_error ''unexpected end of file'' is) (\<lambda>is. Inr (ch, node, is))
           else
             let (ch, is) = buf_read is;
                 (ch, is) = skip_space ch is
             in if ch = code_of (CHR ''>'') then Inr (0, child, is)
                else if ch \<noteq> code_of (CHR ''/'') then
                  bindR (parse_error (''expected '' @ quoted (code_of (CHR ''/'')) @ '' at '' @ quoted ch) is)
                    (\<lambda>is. Inr (-1, node, is))
                else
                  let (ch, is) = buf_read is in
                  if ch = code_of (CHR ''>'') then Inr (1, node, is)
                  else bindR (parse_error (''expected '' @ quoted (code_of (CHR ''>'')) @ '' at '' @ quoted ch) is)
                         (\<lambda>is. Inr (-1, node, is))))))"

definition parse_end_tag :: "nat \<Rightarrow> rstream \<Rightarrow> (int \<times> nat option \<times> rstream) res" where
  "parse_end_tag node is =
     (let (ch, is) = buf_read (is\<lparr>is_length := 0\<rparr>) in
      bindR (read_token in_word ch is) (\<lambda>(ch, is).
        if is_length is = 0 then
          bindR (parse_error (''expected end tag at '' @ quoted ch) is) (\<lambda>is. Inr (-1, Some node, is))
        else
          let (ch, is) = skip_space ch is in
          if ch \<noteq> code_of (CHR ''>'') then
            bindR (parse_error (''expected '' @ quoted (code_of (CHR ''>'')) @ '' at '' @ quoted ch) is)
              (\<lambda>is. Inr (-1, Some node, is))
          else
            bindR (get_token is) (\<lambda>(str, is).
            bindR (get_node (is_heap is) (Some node)) (\<lambda>nd. Inr (1, n_parent nd, is)))))"


subsection \<open>Comments, declarations and instructions\<close>

definition comment_measure :: "rstream + int \<times> rstream + int \<times> rstream \<Rightarrow> nat" where
  "comment_measure x = (case x of
     Inl is \<Rightarrow> 4 * length (is_input is)
   | Inr (Inl (ch, is)) \<Rightarrow> 4 * length (is_input is) + (if ch = code_of (CHR ''-'') then 3 else 1)
   | Inr (Inr (ch, is)) \<Rightarrow> 4 * length (is_input is) + (if ch = code_of (CHR ''-'') then 3 else 2))"

lemma buf_read_less: "buf_read is = (ch, is') \<Longrightarrow> length (is_input is') < length (is_input is) \<or> ch = -1 \<and> is' = is"
  by (auto simp: buf_read_def split: list.splits)

text \<open>The nested loops of \<open>skip_comment\<close>, outermost first.\<close>

function comment_text :: "rstream \<Rightarrow> rstream res"
  and comment_dash :: "int \<Rightarrow> rstream \<Rightarrow> rstream res"
  and comment_end :: "int \<Rightarrow> rstream \<Rightarrow> rstream res" where
  "comment_text is =
     (case buf_read is of (ch, is) \<Rightarrow>
        if ch \<ge> 0 then comment_dash ch is
        else parse_error ''expected comment end at end of file'' is)"
| "comment_dash ch is =
     (if ch = code_of (CHR ''-'') then (case buf_read is of (ch, is) \<Rightarrow> comment_end ch is)
      else comment_text is)"
| "comment_end ch is =
     (if ch = code_of (CHR ''-'') then (case buf_read is of (ch, is) \<Rightarrow>
        if ch = code_of (CHR ''>'') then Inr is else comment_end ch is)
      else comment_dash ch is)"
  by pat_completeness auto
termination
proof (relation "measure comment_measure", goal_cases)
  case (2 "is" ch is')
  have "buf_read is = (ch, is')" using 2 by simp
  then show ?case using buf_read_less [of "is" ch is'] 2(2-) by (auto simp: comment_measure_def)
next
  case (3 ch "is" ch' is')
  have "buf_read is = (ch', is')" using 3 by simp
  then show ?case using buf_read_less [of "is" ch' is'] 3(1) by (auto simp: comment_measure_def)
next
  case (5 ch "is" ch' is')
  have "buf_read is = (ch', is')" using 5 by simp
  then show ?case using buf_read_less [of "is" ch' is'] 5(1,3) by (auto simp: comment_measure_def)
qed (auto simp: comment_measure_def)

definition skip_comment :: "rstream \<Rightarrow> rstream res" where
  "skip_comment = comment_text"

text \<open>\<open>for (ch = buf_read (is); ch >= 0 && ch != quote; ch = buf_read (is))\<close>\<close>

function skip_quoted :: "char \<Rightarrow> rstream \<Rightarrow> rstream" where
  "skip_quoted quote is =
     (case buf_read is of (ch, is) \<Rightarrow> if ch \<ge> 0 \<and> ch \<noteq> code_of quote then skip_quoted quote is else is)"
  by pat_completeness auto
termination
  by (relation "measure (\<lambda>(quote, is). length (is_input is))") (auto dest: buf_read_less[OF sym])

lemma skip_quoted_length: "length (is_input (skip_quoted quote is)) \<le> length (is_input is)"
proof (induction quote "is" rule: skip_quoted.induct)
  case (1 quote "is")
  obtain c s where b: "buf_read is = (c, s)" by (rule prod.exhaust)
  show ?case using 1 [OF b [symmetric]] buf_read_less [OF b] b by (subst skip_quoted.simps) auto
qed

declare skip_quoted.simps [simp del]

function skip_doctype :: "rstream \<Rightarrow> rstream res" where
  "skip_doctype is =
     (case buf_read is of (ch, is) \<Rightarrow>
        if ch \<ge> 0 then
          (if ch = code_of (CHR ''>'') then Inr is
           else if ch = code_of (CHR 0x22) then skip_doctype (skip_quoted (CHR 0x22) is)
           else if ch = code_of (CHR 0x27) then skip_doctype (skip_quoted (CHR 0x27) is)
           else skip_doctype is)
        else parse_error ''expected doctype end at end of file'' is)"
  by pat_completeness auto
termination
  by (relation "measure (\<lambda>is. length (is_input is))")
    (auto dest!: buf_read_less[OF sym] intro: le_less_trans [OF skip_quoted_length])

function pi_text :: "rstream \<Rightarrow> rstream res"
  and pi_mark :: "int \<Rightarrow> rstream \<Rightarrow> rstream res" where
  "pi_text is =
     (case buf_read is of (ch, is) \<Rightarrow>
        if ch \<ge> 0 then pi_mark ch is
        else parse_error ''expected pi end at end of file'' is)"
| "pi_mark ch is =
     (if ch = code_of (CHR ''?'') then (case buf_read is of (ch, is) \<Rightarrow>
        if ch = code_of (CHR ''>'') then Inr is else pi_mark ch is)
      else pi_text is)"
  by pat_completeness auto
termination
proof (relation "measure (\<lambda>x. case x of Inl is \<Rightarrow> 4 * length (is_input is)
      | Inr (ch, is) \<Rightarrow> 4 * length (is_input is) + (if ch = code_of (CHR ''?'') then 3 else 1))", goal_cases)
  case (2 "is" ch is')
  have "buf_read is = (ch, is')" using 2 by simp
  then show ?case using buf_read_less [of "is" ch is'] 2(2-) by auto
next
  case (3 ch "is" ch' is')
  have "buf_read is = (ch', is')" using 3 by simp
  then show ?case using buf_read_less [of "is" ch' is'] 3(1,3) by auto
qed auto

definition skip_pi :: "rstream \<Rightarrow> rstream res" where
  "skip_pi = pi_text"

declare comment_text.simps [simp del] comment_dash.simps [simp del] comment_end.simps [simp del]
  skip_doctype.simps [simp del] pi_text.simps [simp del] pi_mark.simps [simp del]


subsection \<open>Included files\<close>

text \<open>
  The directory part of a path: up to the last separator, and nothing when there is none.
  A value is absolute when it starts with a separator or a drive letter.
\<close>

definition is_separator :: "char \<Rightarrow> bool" where
  "is_separator c \<longleftrightarrow> c = CHR ''/'' \<or> c = CHR 0x5C"

definition dir_of :: "string \<Rightarrow> string" where
  "dir_of path = rev (drop 1 (dropWhile (\<lambda>c. \<not> is_separator c) (rev path)))"

definition is_absolute :: "string \<Rightarrow> bool" where
  "is_absolute path =
     (case path of [] \<Rightarrow> False
      | c # cs \<Rightarrow> is_separator c \<or> (cs \<noteq> [] \<and> hd cs = CHR '':'' \<and>
          (97 \<le> code_of c \<and> code_of c \<le> 122 \<or> 65 \<le> code_of c \<and> code_of c \<le> 90)))"

definition include_path :: "string \<Rightarrow> string \<Rightarrow> string res" where
  "include_path path href =
     (if length path + 1 > 4096 then Inl OutOfBounds
      else if is_absolute href then Inr href
      else if length (dir_of path) + 1 + length href + 1 > 4096 then Inl OutOfBounds
      else Inr (dir_of path @ ''/'' @ href))"

text \<open>The included tree takes the place of the include node, in the order of the code's stores.\<close>

definition splice :: "nat \<Rightarrow> nat \<Rightarrow> heap \<Rightarrow> heap res" where
  "splice node subnode h =
     bindR (get_node h (Some node)) (\<lambda>nd.
     bindR (get_node h (n_parent nd)) (\<lambda>_.
       let parent = the (n_parent nd);
           h = upd_node subnode (\<lambda>n. n\<lparr>n_parent := Some parent\<rparr>) h
       in bindR (case n_prev nd of
                   Some q \<Rightarrow> bindR (get_node h (Some q)) (\<lambda>_.
                     Inr (upd_node q (\<lambda>n. n\<lparr>n_next := n_first (h ! subnode)\<rparr>) h))
                 | None \<Rightarrow> Inr (upd_node parent (\<lambda>n. n\<lparr>n_first := Some subnode\<rparr>) h)) (\<lambda>h.
            let h = upd_node subnode (\<lambda>n. n\<lparr>n_prev := n_prev nd\<rparr>) h;
                h = upd_node parent (\<lambda>n. n\<lparr>n_last := n_last (h ! subnode)\<rparr>) h
            in bindR (siblings h (n_first (h ! subnode))) (\<lambda>ptrs.
                 Inr (fold (\<lambda>ptr. upd_node ptr (\<lambda>n. n\<lparr>n_parent := Some parent\<rparr>)) ptrs h)))))"

text \<open>
  \<open>open_parse\<close> opens and parses a file: \<open>None\<close> when it cannot be opened, and else the root or
  \<open>None\<close> when the parse failed. The callers ignore the result of \<open>parse_include\<close>.
\<close>

type_synonym open_parse = "string \<Rightarrow> heap \<times> config \<Rightarrow> (nat option option \<times> heap \<times> config) res"

definition parse_include :: "open_parse \<Rightarrow> string \<Rightarrow> nat \<Rightarrow> heap \<times> config \<Rightarrow> (heap \<times> config) res" where
  "parse_include open_parse path node = (\<lambda>(h, config).
     bindR (get_node h (Some node)) (\<lambda>nd.
     bindR (cse_find_value h (n_first nd) ''href'') (\<lambda>href.
       if href = None \<or> href = Some [] then Inr (h, config)
       else
         bindR (include_path path (the href)) (\<lambda>subpath.
         bindR (open_parse subpath (h, config)) (\<lambda>(opened, h, config).
           case opened of
             Some (Some subnode) \<Rightarrow>
               bindR (get_node h (Some subnode)) (\<lambda>sn.
                 if n_first sn = None then Inr (h, config)
                 else bindR (splice node subnode h) (\<lambda>h. Inr (h, config)))
           | _ \<Rightarrow> Inr (h, config))))))"

subsection \<open>The parser\<close>

text \<open>At a \<open>'<'\<close>: the text before it becomes the node's value, if it has none and no child.\<close>

definition text_end :: "nat \<Rightarrow> bool \<Rightarrow> rstream \<Rightarrow> rstream res" where
  "text_end node spaceOnly is =
     (if spaceOnly then Inr (is\<lparr>is_length := 0\<rparr>)
      else bindR (get_node (is_heap is) (Some node)) (\<lambda>nd.
        if n_value nd = None \<and> n_first nd = None
        then bindR (get_token is) (\<lambda>(str, is). set_value node str is)
        else Inr is))"

definition check_include :: "(nat \<Rightarrow> heap \<times> config \<Rightarrow> (heap \<times> config) res) \<Rightarrow> nat option \<Rightarrow> rstream \<Rightarrow> rstream res" where
  "check_include inc node is =
     bindR (get_node (is_heap is) node) (\<lambda>nd.
       case n_last nd of
         None \<Rightarrow> Inr is
       | Some l \<Rightarrow> bindR (get_node (is_heap is) (Some l)) (\<lambda>ln.
           if n_key ln = ''resin:include''
           then bindR (inc l (is_heap is, is_config is)) (\<lambda>(h, config).
                  Inr (is\<lparr>is_heap := h, is_config := config\<rparr>))
           else Inr is))"

definition markup ::
    "(nat \<Rightarrow> heap \<times> config \<Rightarrow> (heap \<times> config) res) \<Rightarrow> nat \<Rightarrow> rstream \<Rightarrow> (bool \<times> nat \<times> rstream) res" where
  "markup inc node is =
     (let (ch, is) = buf_read is in
      if ch = code_of (CHR ''!'') then
        let (ch, is) = buf_read is in
        if ch = code_of (CHR ''D'') then bindR (skip_doctype is) (\<lambda>is. Inr (True, node, is))
        else
          bindR (if ch \<noteq> code_of (CHR ''-'') then parse_error (''expected comment start at '' @ quoted ch) is
                 else Inr is) (\<lambda>is.
            let (ch, is) = buf_read is in
            bindR (if ch \<noteq> code_of (CHR ''-'') then parse_error (''expected comment start at '' @ quoted ch) is
                   else Inr is) (\<lambda>is.
            bindR (skip_comment is) (\<lambda>is. Inr (True, node, is))))
      else if ch = code_of (CHR ''?'') then bindR (skip_pi is) (\<lambda>is. Inr (True, node, is))
      else if ch \<noteq> code_of (CHR ''/'') then
        bindR (parse_tag node ch is) (\<lambda>(result, node, is).
          if result < 0 then Inr (False, node, is)
          else bindR (check_include inc (Some node) is) (\<lambda>is. Inr (True, node, is)))
      else
        bindR (parse_end_tag node is) (\<lambda>(result, parent, is).
          if result < 0 then Inr (False, node, is)
          else bindR (check_include inc parent is) (\<lambda>is. Inr (True, the parent, is))))"

lemma comment_input:
  "comment_text is = Inr is' \<Longrightarrow> length (is_input is') \<le> length (is_input is)"
  "comment_dash ch is = Inr is' \<Longrightarrow> length (is_input is') \<le> length (is_input is)"
  "comment_end ch is = Inr is' \<Longrightarrow> length (is_input is') \<le> length (is_input is)"
proof (induction "is" and ch "is" and ch "is" rule: comment_text_comment_dash_comment_end.induct)
  case (1 "is")
  obtain c s where b: "buf_read is = (c, s)" by (rule prod.exhaust)
  show ?case using 1(1) [OF b [symmetric]] 1(2) [unfolded comment_text.simps [of "is"] b prod.case] buf_read_less [OF b]
    by (auto split: if_splits dest: parse_error_input)
next
  case (2 ch "is")
  obtain c s where b: "buf_read is = (c, s)" by (rule prod.exhaust)
  show ?case using 2(1) [OF _ b [symmetric]] 2(2) 2(3) [unfolded comment_dash.simps [of ch "is"] b prod.case] buf_read_less [OF b]
    by (auto split: if_splits)
next
  case (3 ch "is")
  obtain c s where b: "buf_read is = (c, s)" by (rule prod.exhaust)
  show ?case using 3(1) [OF _ b [symmetric]] 3(2) 3(3) [unfolded comment_end.simps [of ch "is"] b prod.case] buf_read_less [OF b]
    by (auto split: if_splits)
qed

lemma doctype_input: "skip_doctype is = Inr is' \<Longrightarrow> length (is_input is') \<le> length (is_input is)"
proof (induction "is" rule: skip_doctype.induct)
  case (1 "is")
  obtain c s where b: "buf_read is = (c, s)" by (rule prod.exhaust)
  note ih = 1(1-3) [OF b [symmetric]]
  show ?case using ih 1(4) [unfolded skip_doctype.simps [of "is"] b prod.case] buf_read_less [OF b]
      skip_quoted_length [of "CHR 0x22" s] skip_quoted_length [of "CHR 0x27" s]
    by (fastforce split: if_splits dest: parse_error_input)
qed

lemma pi_input:
  "pi_text is = Inr is' \<Longrightarrow> length (is_input is') \<le> length (is_input is)"
  "pi_mark ch is = Inr is' \<Longrightarrow> length (is_input is') \<le> length (is_input is)"
proof (induction "is" and ch "is" rule: pi_text_pi_mark.induct)
  case (1 "is")
  obtain c s where b: "buf_read is = (c, s)" by (rule prod.exhaust)
  show ?case using 1(1) [OF b [symmetric]] 1(2) [unfolded pi_text.simps [of "is"] b prod.case] buf_read_less [OF b]
    by (auto split: if_splits dest: parse_error_input)
next
  case (2 ch "is")
  obtain c s where b: "buf_read is = (c, s)" by (rule prod.exhaust)
  show ?case using 2(1) [OF _ b [symmetric]] 2(2) 2(3) [unfolded pi_mark.simps [of ch "is"] b prod.case] buf_read_less [OF b]
    by (auto split: if_splits)
qed

lemma attribute_loop_input: "attribute_loop node ch is = Inr (ch', is') \<Longrightarrow> length (is_input is') \<le> avail ch is"
proof (induction node ch "is" rule: attribute_loop.induct)
  case (1 node ch "is")
  obtain c s where p: "parse_attribute node ch is = Inr (c, s)"
    "(if c > 0 then attribute_loop node c s else Inr (c, s)) = Inr (ch', is')"
    using 1(2) by (subst (asm) attribute_loop.simps) (auto simp: bindR_Inr_iff)
  show ?case using 1(1) [OF p(1) refl] p(2) parse_attribute_avail [OF p(1)] by (fastforce split: if_splits)
qed

lemma parse_tag_input:
  assumes "parse_tag node ch is = Inr (r, node', is')"
  shows "length (is_input is') \<le> avail ch is"
proof -
  obtain c1 s1 where t: "read_token in_word ch (is\<lparr>is_length := 0\<rparr>) = Inr (c1, s1)"
    using assms by (auto simp: parse_tag_def bindR_Inr_iff)
  have a1: "avail c1 s1 \<le> avail ch is" using read_token_avail [OF t] by simp
  note e = assms [unfolded parse_tag_def t bindR_simps prod.case]
  show ?thesis
  proof (cases "is_length s1 = 0")
    case True
    then show ?thesis using e a1 by (auto simp: bindR_Inr_iff avail_def dest!: parse_error_input)
  next
    case False
    then obtain str s2 child h c3 s3 where g: "get_token s1 = Inr (str, s2)" "registry_add node str (is_heap s2) = Inr (child, h)"
      "attribute_loop child c1 (s2\<lparr>is_heap := h\<rparr>) = Inr (c3, s3)"
      using e by (auto simp: bindR_Inr_iff)
    have a3: "length (is_input s3) \<le> avail ch is"
      using attribute_loop_input [OF g(3)] a1 get_token_input [OF g(1)] by (simp add: avail_def)
    obtain c4 s4 where b4: "buf_read s3 = (c4, s4)" by (rule prod.exhaust)
    obtain c5 s5 where b5: "skip_space c4 s4 = (c5, s5)" by (rule prod.exhaust)
    obtain c6 s6 where b6: "buf_read s5 = (c6, s6)" by (rule prod.exhaust)
    have a5: "avail c5 s5 \<le> avail ch is" using buf_read_avail [OF b4] skip_space_avail [OF b5] a3 by simp
    have s5: "length (is_input s5) \<le> avail c5 s5" by (simp add: avail_def)
    have s6: "length (is_input s6) \<le> length (is_input s5)" using buf_read_less [OF b6] by auto
    show ?thesis using e False g b4 b5 b6 a3 a5 s5 s6
      by (auto simp: bindR_Inr_iff dest!: parse_error_input split: if_splits)
  qed
qed

lemma parse_end_tag_input:
  assumes "parse_end_tag node is = Inr (r, p, is')"
  shows "length (is_input is') \<le> length (is_input is)"
proof -
  obtain c0 s0 where b0: "buf_read (is\<lparr>is_length := 0\<rparr>) = (c0, s0)" by (rule prod.exhaust)
  obtain c1 s1 where t: "read_token in_word c0 s0 = Inr (c1, s1)"
    using assms b0 by (auto simp: parse_end_tag_def bindR_Inr_iff)
  obtain c2 s2 where b2: "skip_space c1 s1 = (c2, s2)" by (rule prod.exhaust)
  have a1: "avail c1 s1 \<le> length (is_input is)" using read_token_avail [OF t] buf_read_avail [OF b0] by simp
  have a2: "avail c2 s2 \<le> length (is_input is)" using skip_space_avail [OF b2] a1 by simp
  have "length (is_input s1) \<le> avail c1 s1" "length (is_input s2) \<le> avail c2 s2" by (simp_all add: avail_def)
  then show ?thesis using assms b0 t b2 a1 a2
    by (auto simp: parse_end_tag_def bindR_Inr_iff dest!: parse_error_input get_token_input split: if_splits)
qed

lemma check_include_input: "check_include inc node is = Inr is' \<Longrightarrow> is_input is' = is_input is"
  by (auto simp: check_include_def bindR_Inr_iff split: option.splits if_splits)

lemma markup_input:
  assumes "markup inc node is = Inr (ok, node', is')"
  shows "length (is_input is') \<le> length (is_input is)"
proof -
  obtain c0 s0 where b0: "buf_read is = (c0, s0)" by (rule prod.exhaust)
  obtain c1 s1 where b1: "buf_read s0 = (c1, s1)" by (rule prod.exhaust)
  have l: "length (is_input s0) \<le> length (is_input is)" "length (is_input s1) \<le> length (is_input s0)"
    using buf_read_less [OF b0] buf_read_less [OF b1] by auto
  have c: "length (is_input s4) \<le> length (is_input s)"
    if "buf_read s = (c3, s3)" "(if P then parse_error msg s3 else Inr s3) = Inr s5" "skip_comment s5 = Inr s4" for s c3 s3 P msg s4 s5
    using that comment_input(1) [of s5 s4] buf_read_less [OF that(1)]
    by (auto simp: skip_comment_def dest!: parse_error_input split: if_splits)
  note e = assms [unfolded markup_def b0 b1 Let_def prod.case]
  consider "c0 = code_of (CHR ''!'')" "c1 = code_of (CHR ''D'')"
    | "c0 = code_of (CHR ''!'')" "c1 \<noteq> code_of (CHR ''D'')"
    | "c0 = code_of (CHR ''?'')"
    | "c0 \<notin> {code_of (CHR ''!''), code_of (CHR ''?''), code_of (CHR ''/'')}"
    | "c0 = code_of (CHR ''/'')" by auto
  then show ?thesis
  proof cases
    case 1
    then show ?thesis using e l by (auto simp: bindR_Inr_iff dest!: doctype_input)
  next
    case 2
    then obtain s2 where s2: "(if c1 \<noteq> code_of (CHR ''-'') then parse_error (''expected comment start at '' @ quoted c1) s1
        else Inr s1) = Inr s2"
      using e by (auto simp: bindR_Inr_iff)
    obtain c3 s3 where b3: "buf_read s2 = (c3, s3)" by (rule prod.exhaust)
    obtain s5 where s5: "(if c3 \<noteq> code_of (CHR ''-'') then parse_error (''expected comment start at '' @ quoted c3) s3
        else Inr s3) = Inr s5" "skip_comment s5 = Inr is'"
      using e 2 s2 b3 by (auto simp: bindR_Inr_iff)
    have "is_input s2 = is_input s1" using s2 by (auto dest: parse_error_input split: if_splits)
    then show ?thesis using c [OF b3 s5] l by simp
  next
    case 3
    then show ?thesis using e l by (auto simp: bindR_Inr_iff skip_pi_def dest!: pi_input(1))
  next
    case 4
    then obtain r n s3 where t: "parse_tag node c0 s0 = Inr (r, n, s3)"
      "(if r < 0 then Inr (False, n, s3) else bindR (check_include inc (Some n) s3) (\<lambda>is. Inr (True, n, is))) = Inr (ok, node', is')"
      using e by (auto simp: bindR_Inr_iff)
    have "length (is_input is') = length (is_input s3)"
      using t(2) by (auto simp: bindR_Inr_iff dest: check_include_input split: if_splits)
    then show ?thesis using parse_tag_input [OF t(1)] buf_read_avail [OF b0] by simp
  next
    case 5
    then obtain r n s3 where t: "parse_end_tag node s0 = Inr (r, n, s3)"
      "(if r < 0 then Inr (False, node, s3) else bindR (check_include inc n s3) (\<lambda>is. Inr (True, the n, is))) = Inr (ok, node', is')"
      using e by (auto simp: bindR_Inr_iff)
    have "length (is_input is') = length (is_input s3)"
      using t(2) by (auto simp: bindR_Inr_iff dest: check_include_input split: if_splits)
    then show ?thesis using parse_end_tag_input [OF t(1)] l by simp
  qed
qed

lemma text_end_input: "text_end node spaceOnly is = Inr is' \<Longrightarrow> is_input is' = is_input is"
  by (auto simp: text_end_def bindR_Inr_iff dest!: get_token_input set_value_input split: if_splits)

function parse_loop ::
    "(nat \<Rightarrow> heap \<times> config \<Rightarrow> (heap \<times> config) res) \<Rightarrow> nat \<Rightarrow> bool \<Rightarrow> rstream \<Rightarrow> (bool \<times> rstream) res" where
  "parse_loop inc node spaceOnly is =
     (case buf_read is of (ch, is) \<Rightarrow>
        if ch < 0 then Inr (True, is)
        else if ch = code_of (CHR '' '') \<or> ch = 9 \<or> ch = 10 \<or> ch = 12 then
          bindR (buf_append is ch) (\<lambda>is. parse_loop inc node spaceOnly is)
        else if ch = code_of (CHR ''<'') then
          bindR (text_end node spaceOnly is) (\<lambda>is.
          bindR (markup inc node is) (\<lambda>r. case r of (ok, node, is) \<Rightarrow>
            if ok then parse_loop inc node spaceOnly is else Inr (False, is)))
        else bindR (buf_append is ch) (\<lambda>is. parse_loop inc node False is))"
  by pat_completeness auto
termination
proof (relation "measure (\<lambda>(inc, node, spaceOnly, is). length (is_input is))", goal_cases)
  case (2 inc node spaceOnly "is" ch is1 is2)
  have b: "buf_read is = (ch, is1)" and a: "buf_append is1 ch = Inr is2" and c: "\<not> ch < 0" using 2 by simp_all
  show ?case using buf_read_less [OF b] buf_append_input [OF a] c by auto
next
  case (3 inc node spaceOnly "is" ch is1 is2 r ok y node' is3)
  have b: "buf_read is = (ch, is1)" and a: "text_end node spaceOnly is1 = Inr is2" and c: "\<not> ch < 0"
    and m: "markup inc node is2 = Inr (ok, node', is3)" using 3 by simp_all
  show ?case using buf_read_less [OF b] text_end_input [OF a] markup_input [OF m] c by auto
next
  case (4 inc node spaceOnly "is" ch is1 is2)
  have b: "buf_read is = (ch, is1)" and a: "buf_append is1 ch = Inr is2" and c: "\<not> ch < 0" using 4 by simp_all
  show ?case using buf_read_less [OF b] buf_append_input [OF a] c by auto
qed simp

declare parse_loop.simps [simp del]

text \<open>
  \<open>cse_parse\<close> on a file that is open: the result is the root, or \<open>None\<close> for the 0 of a syntax
  error. \<open>handles\<close> is how many more files the process can open for inclusions.
\<close>

definition parse_file ::
    "(nat \<Rightarrow> char) \<Rightarrow> open_parse \<Rightarrow> string \<Rightarrow> string \<Rightarrow> heap \<times> config \<Rightarrow> (nat option \<times> heap \<times> config) res" where
  "parse_file junk open_parse content path = (\<lambda>(h, config).
     let is = \<lparr>is_config = config, is_heap = h @ [new_node []], is_input = content, is_path = path, is_line = 1,
           is_buf = fresh_memory junk 1024, is_length = 0, is_capacity = 1024, is_junk = junk\<rparr>;
         root = length h
     in bindR (parse_loop (parse_include open_parse path) root True is) (\<lambda>(ok, is).
          Inr (if ok then Some root else None, is_heap is, is_config is)))"

primrec cse_parse ::
    "(nat \<Rightarrow> char) \<Rightarrow> (string \<Rightarrow> string option) \<Rightarrow> nat \<Rightarrow> string \<Rightarrow> string \<Rightarrow> heap \<times> config \<Rightarrow>
     (nat option \<times> heap \<times> config) res" where
  "cse_parse junk files 0 = parse_file junk (\<lambda>subpath hc. Inr (None, hc))"
| "cse_parse junk files (Suc handles) = parse_file junk (\<lambda>subpath hc.
     case files subpath of
       None \<Rightarrow> Inr (None, hc)
     | Some content \<Rightarrow> bindR (cse_parse junk files handles content subpath hc) (\<lambda>(root, hc). Inr (Some root, hc)))"

end
