(* ===== verification/Cse_Parse.thy ===== *)
theory Cse_Parse
  imports Cse_Registry
begin

text \<open>
  What the parser does to the heap of registry nodes, whatever it reads: it ends, it leaves the
  nodes that were there before as they are, and its own nodes are linked such that every walk
  over them ends.
  \<^item> \<open>region b h\<close> is the invariant of the nodes from address \<open>b\<close> on: they point only to each
    other, \<open>next\<close>, \<open>first\<close> and \<open>last\<close> to later and \<open>parent\<close> and \<open>prev\<close> to earlier addresses, and a
    last child has a parent.
  \<^item> \<open>within b\<close> relates the state before and after a piece of the parser that works on nodes
    from \<open>b\<close> on.
\<close>

subsection \<open>Runs that end\<close>

definition lands :: "('a \<Rightarrow> bool) \<Rightarrow> 'a res \<Rightarrow> bool" where
  "lands P m \<longleftrightarrow> (case m of Inl e \<Rightarrow> e \<noteq> OutOfFuel | Inr x \<Rightarrow> P x)"

lemma lands_simps [simp]: "lands P (Inl e) \<longleftrightarrow> e \<noteq> OutOfFuel" "lands P (Inr x) \<longleftrightarrow> P x"
  by (simp_all add: lands_def)

lemma lands_bind [intro]: "lands P m \<Longrightarrow> (\<And>x. m = Inr x \<Longrightarrow> P x \<Longrightarrow> lands Q (f x)) \<Longrightarrow> lands Q (bindR m f)"
  by (auto simp: lands_def bindR_def split: sum.splits)

lemma lands_mono: "lands P m \<Longrightarrow> (\<And>x. m = Inr x \<Longrightarrow> P x \<Longrightarrow> Q x) \<Longrightarrow> lands Q m"
  by (auto simp: lands_def split: sum.splits)

lemma landsD: "lands P m \<Longrightarrow> m = Inr x \<Longrightarrow> P x"
  by simp

lemma lands_store: "lands (\<lambda>_. True) (store buf i bs)"
  by (simp add: store_def)

lemma lands_cstr_at: "lands (\<lambda>_. True) (cstr_at buf i)"
  by (simp add: cstr_at_def)

lemma lands_get_node: "lands (\<lambda>nd. \<exists>a. p = Some a \<and> a < length h \<and> nd = h ! a) (get_node h p)"
  by (auto simp: get_node_def split: option.split)

subsection \<open>The invariant of the heap\<close>

definition linked :: "nat \<Rightarrow> nat \<Rightarrow> nat \<Rightarrow> node \<Rightarrow> bool" where
  "linked b n a nd \<longleftrightarrow>
     (\<forall>q. n_parent nd = Some q \<longrightarrow> b \<le> q \<and> q < a) \<and> (\<forall>q. n_prev nd = Some q \<longrightarrow> b \<le> q \<and> q < a) \<and>
     (\<forall>q. n_next nd = Some q \<longrightarrow> a < q \<and> q < n) \<and> (\<forall>q. n_first nd = Some q \<longrightarrow> a < q \<and> q < n) \<and>
     (\<forall>q. n_last nd = Some q \<longrightarrow> a < q \<and> q < n)"

definition region :: "nat \<Rightarrow> heap \<Rightarrow> bool" where
  "region b h \<longleftrightarrow> (\<forall>a. b \<le> a \<and> a < length h \<longrightarrow> linked b (length h) a (h ! a) \<and>
     (\<forall>l. n_last (h ! a) = Some l \<longrightarrow> n_parent (h ! l) \<noteq> None))"

definition within :: "nat \<Rightarrow> heap \<times> config \<Rightarrow> heap \<times> config \<Rightarrow> bool" where
  "within b hc hc' \<longleftrightarrow> region b (fst hc') \<and> length (fst hc) \<le> length (fst hc') \<and>
     take b (fst hc') = take b (fst hc) \<and> (snd hc')\<lparr>c_error := None\<rparr> = (snd hc)\<lparr>c_error := None\<rparr>"

lemma within_refl: "region b (fst hc) \<Longrightarrow> within b hc hc"
  by (simp add: within_def)

lemma within_trans: "within b x y \<Longrightarrow> within b y z \<Longrightarrow> within b x z"
  by (simp add: within_def)

lemma region_empty: "length h \<le> b \<Longrightarrow> region b h"
  by (auto simp: region_def)

lemma linked_mono: "linked b n a nd \<Longrightarrow> n \<le> n' \<Longrightarrow> b' \<le> b \<Longrightarrow> linked b' n' a nd"
  by (fastforce simp: linked_def)

lemma within_new [simp]: "within (length (fst hc)) hc hc" "within (length h) (h, c) (h, c)"
  by (simp_all add: within_def region_empty)

lemma region_linked: "region b h \<Longrightarrow> b \<le> a \<Longrightarrow> a < length h \<Longrightarrow> linked b (length h) a (h ! a)"
  by (simp add: region_def)

lemma region_lastD: "region b h \<Longrightarrow> b \<le> a \<Longrightarrow> a < length h \<Longrightarrow> n_last (h ! a) = Some l \<Longrightarrow> n_parent (h ! l) \<noteq> None"
  by (simp add: region_def)

lemma nth_upd_node: "a < length h \<Longrightarrow> upd_node a f h ! i = (if i = a then f (h ! a) else h ! i)"
  by (simp add: upd_node_def nth_list_update)

lemma length_upd_node [simp]: "length (upd_node a f h) = length h"
  by (simp add: upd_node_def)

lemma take_upd_node [simp]: "b \<le> a \<Longrightarrow> take b (upd_node a f h) = take b h"
  by (simp add: upd_node_def)

lemma region_upd:
  assumes "region b h" "b \<le> a" "a < length h" "linked b (length h) a (f (h ! a))"
    and "\<And>l. n_last (f (h ! a)) = Some l \<Longrightarrow> n_parent (h ! l) \<noteq> None"
    and "n_parent (h ! a) \<noteq> None \<Longrightarrow> n_parent (f (h ! a)) \<noteq> None"
  shows "region b (upd_node a f h)"
  using assms by (auto simp: region_def nth_upd_node)

lemma region_join:
  assumes "region b h" "region (length h) h'" "take (length h) h' = h" "b \<le> length h"
  shows "region b h'"
proof -
  have len: "length h \<le> length h'" using arg_cong [OF assms(3), of length] by simp
  have old: "h' ! a = h ! a" if "a < length h" for a using assms(3) that nth_take by metis
  show ?thesis unfolding region_def
  proof (intro allI impI)
    fix a assume a: "b \<le> a \<and> a < length h'"
    show "linked b (length h') a (h' ! a) \<and> (\<forall>l. n_last (h' ! a) = Some l \<longrightarrow> n_parent (h' ! l) \<noteq> None)"
    proof (cases "a < length h")
      case True
      then have l: "linked b (length h) a (h ! a)" using assms(1) a by (simp add: region_linked)
      then show ?thesis using region_lastD [OF assms(1)] a True len by (auto simp: old linked_mono linked_def)
    next
      case False
      then have "linked (length h) (length h') a (h' ! a)" using assms(2) a by (simp add: region_linked)
      moreover have "n_parent (h' ! l) \<noteq> None" if "n_last (h' ! a) = Some l" for l
        by (rule region_lastD [OF assms(2) _ _ that]) (use a False in auto)
      ultimately show ?thesis using assms(4) by (auto intro: linked_mono)
    qed
  qed
qed

lemma region_snoc:
  assumes "region b h" "linked b (Suc (length h)) (length h) nd" "n_last nd = None"
  shows "region b (h @ [nd])"
  unfolding region_def
proof (intro allI impI)
  fix a assume a: "b \<le> a \<and> a < length (h @ [nd])"
  show "linked b (length (h @ [nd])) a ((h @ [nd]) ! a) \<and>
      (\<forall>l. n_last ((h @ [nd]) ! a) = Some l \<longrightarrow> n_parent ((h @ [nd]) ! l) \<noteq> None)"
  proof (cases "a < length h")
    case True
    then have l: "linked b (length h) a (h ! a)" using assms(1) a by (simp add: region_linked)
    moreover have "n_parent ((h @ [nd]) ! l) \<noteq> None" if "n_last (h ! a) = Some l" for l
    proof -
      have "l < length h" using that l by (simp add: linked_def)
      then show ?thesis using region_lastD [OF assms(1) _ True that] a by (simp add: nth_append)
    qed
    ultimately show ?thesis using True by (auto simp: nth_append intro: linked_mono)
  next
    case False
    then have "a = length h" using a by simp
    then show ?thesis using assms(2,3) by simp
  qed
qed

lemma within_upd:
  assumes "within b hc (h, c)" "b \<le> a" "region b (upd_node a f h)"
  shows "within b hc (upd_node a f h, c)"
  using assms by (simp add: within_def)

subsection \<open>Walks\<close>

text \<open>They never fault: the pointers are in bounds, and the addresses along a walk increase.\<close>

lemma returns_bind: "returns P m \<Longrightarrow> (\<And>x. m = Inr x \<Longrightarrow> P x \<Longrightarrow> returns Q (f x)) \<Longrightarrow> returns Q (bindR m f)"
  by (auto simp: returns_iff)

lemma returns_lands: "returns P m \<Longrightarrow> lands P m"
  by (auto simp: returns_iff)

lemma walk_next_link:
  assumes "region b h" "\<And>a. p = Some a \<Longrightarrow> b \<le> a \<and> a < length h \<and> length h - a < n" "0 < n"
  shows "returns (\<lambda>q. \<forall>a. q = Some a \<longrightarrow> b \<le> a \<and> a < length h) (next_link h n p key)"
  using assms
proof (induction h n p key rule: next_link.induct)
  case (3 h n a key)
  have a: "b \<le> a" "a < length h" "length h - a < Suc n" using 3(3) [of a] by auto
  have l: "linked b (length h) a (h ! a)" by (rule region_linked [OF 3(2) a(1,2)])
  show ?case
  proof (cases "n_key (h ! a) = key")
    case True
    then show ?thesis using a by (simp add: get_node_def)
  next
    case False
    have "returns (\<lambda>q. \<forall>a. q = Some a \<longrightarrow> b \<le> a \<and> a < length h) (next_link h n (n_next (h ! a)) key)"
      by (rule 3(1) [OF _ False 3(2)]) (use a l in \<open>auto simp: get_node_def linked_def\<close>)
    then show ?thesis using a False by (simp add: get_node_def)
  qed
qed auto

lemma walk_chain:
  assumes "region b h" "\<And>a. p = Some a \<Longrightarrow> b \<le> a \<and> a < length h \<and> length h - a < n" "0 < n"
  shows "returns (\<lambda>as. \<forall>x \<in> set as. x < length h \<and> (\<forall>a. p = Some a \<longrightarrow> a \<le> x)) (chain h n p)"
  using assms
proof (induction h n p rule: chain.induct)
  case (3 h n a)
  have a: "b \<le> a" "a < length h" "length h - a < Suc n" using 3(3) [of a] by auto
  have l: "linked b (length h) a (h ! a)" by (rule region_linked [OF 3(2) a(1,2)])
  have ih: "returns (\<lambda>as. \<forall>x \<in> set as. x < length h \<and> (\<forall>a'. n_next (h ! a) = Some a' \<longrightarrow> a' \<le> x)) (chain h n (n_next (h ! a)))"
    by (rule 3(1) [OF _ 3(2)]) (use a l in \<open>auto simp: get_node_def linked_def\<close>)
  have "returns (\<lambda>as. \<forall>x \<in> set as. x < length h \<and> a \<le> x) (bindR (chain h n (n_next (h ! a))) (\<lambda>as. Inr (a # as)))"
  proof (rule returns_bind [OF ih])
    fix as assume as: "chain h n (n_next (h ! a)) = Inr as"
      "\<forall>x \<in> set as. x < length h \<and> (\<forall>a'. n_next (h ! a) = Some a' \<longrightarrow> a' \<le> x)"
    show "returns (\<lambda>as. \<forall>x \<in> set as. x < length h \<and> a \<le> x) (Inr (a # as))"
    proof (cases "n_next (h ! a)")
      case None
      then have "as = []" using as(1) by (cases n) auto
      then show ?thesis using a by simp
    next
      case (Some q)
      then have "a < q" using l by (simp add: linked_def)
      then show ?thesis using as(2) Some a by auto
    qed
  qed
  then show ?case using a by (simp add: get_node_def)
qed auto

lemma walk_siblings:
  assumes "region b h" "\<And>a. p = Some a \<Longrightarrow> b \<le> a \<and> a < length h"
  shows "returns (\<lambda>as. \<forall>x \<in> set as. x < length h \<and> (\<forall>a. p = Some a \<longrightarrow> a \<le> x)) (siblings h p)"
  unfolding siblings_def by (rule walk_chain [OF assms(1)]) (use assms(2) in auto)

lemma walk_cse_next_link:
  assumes "region b h" "\<And>a. p = Some a \<Longrightarrow> b \<le> a \<and> a < length h"
  shows "returns (\<lambda>q. \<forall>a. q = Some a \<longrightarrow> b \<le> a \<and> a < length h) (cse_next_link h p key)"
  unfolding cse_next_link_def by (rule walk_next_link [OF assms(1)]) (use assms(2) in auto)

lemma walk_find_value:
  assumes "region b h" "\<And>a. p = Some a \<Longrightarrow> b \<le> a \<and> a < length h"
  shows "returns (\<lambda>_. True) (cse_find_value h p key)"
  unfolding cse_find_value_def
  by (rule returns_bind [OF walk_cse_next_link [where key = key, OF assms, unfolded cse_next_link_def]])
    (auto simp: get_node_def split: option.split)

lemma walk_print_nodes:
  assumes "region b h" "\<And>a. p = Some a \<Longrightarrow> b \<le> a \<and> a < length h \<and> length h - a < n" "0 < n"
  shows "returns (\<lambda>_. True) (print_nodes h n p)"
  using assms
proof (induction h n p rule: print_nodes.induct)
  case (3 h n a)
  have a: "b \<le> a" "a < length h" "length h - a < Suc n" using 3(4) [of a] by auto
  have l: "linked b (length h) a (h ! a)" by (rule region_linked [OF 3(3) a(1,2)])
  let ?val = "case n_value (h ! a) of Some v \<Rightarrow> v | None \<Rightarrow> []"
  let ?here = "case n_first (h ! a) of
                Some f \<Rightarrow> bindR (print_nodes h n (Some f)) (\<lambda>lines.
                  Inr ([''<'' @ n_key (h ! a) @ '' id='' @ ?val @ ''>'' @ [CHR 0x0A]] @ lines @
                       [''</'' @ n_key (h ! a) @ ''>'' @ [CHR 0x0A]]))
              | None \<Rightarrow> Inr [n_key (h ! a) @ ''='' @ ?val @ [CHR 0x0A]]"
  have g: "get_node h (Some a) = Inr (h ! a)" using a by (simp add: get_node_def)
  have fst: "returns (\<lambda>_. True) (print_nodes h n (Some f))" if "n_first (h ! a) = Some f" for f
    by (rule 3(1) [OF g refl that 3(3)]) (use that a l in \<open>auto simp: linked_def\<close>)
  have here: "returns (\<lambda>_. True) ?here"
    by (auto split: option.split intro!: returns_bind [OF fst])
  have "returns (\<lambda>_. True) (bindR ?here (\<lambda>here. bindR (print_nodes h n (n_next (h ! a))) (\<lambda>lines. Inr (here @ lines))))"
  proof (rule returns_bind [OF here])
    fix x assume x: "?here = Inr x"
    have "returns (\<lambda>_. True) (print_nodes h n (n_next (h ! a)))"
      by (rule 3(2) [OF g refl x 3(3)]) (use a l in \<open>auto simp: linked_def\<close>)
    then show "returns (\<lambda>_. True) (bindR (print_nodes h n (n_next (h ! a))) (\<lambda>lines. Inr (x @ lines)))"
      by (rule returns_bind) simp
  qed
  then show ?case by (simp add: g Let_def)
qed auto

lemma walk_print_registry:
  assumes "region b h" "\<And>a. p = Some a \<Longrightarrow> b \<le> a \<and> a < length h"
  shows "returns (\<lambda>_. True) (cse_print_registry h p)"
  unfolding cse_print_registry_def by (rule walk_print_nodes [OF assms(1)]) (use assms(2) in auto)

subsection \<open>Reading tokens\<close>

definition hc :: "rstream \<Rightarrow> heap \<times> config" where
  "hc is = (is_heap is, is_config is)"

lemma hc_simps [simp]:
  "hc (is\<lparr>is_length := n\<rparr>) = hc is" "hc (is\<lparr>is_input := cs\<rparr>) = hc is" "hc (is\<lparr>is_line := i\<rparr>) = hc is"
  "hc (is\<lparr>is_buf := buf\<rparr>) = hc is" "hc (is\<lparr>is_capacity := n\<rparr>) = hc is" "hc (ungetc ch is) = hc is"
  "hc (is\<lparr>is_heap := h\<rparr>) = (h, is_config is)" "hc (is\<lparr>is_config := c\<rparr>) = (is_heap is, c)"
  "fst (hc is) = is_heap is" "snd (hc is) = is_config is"
  by (simp_all add: hc_def ungetc_def)

lemma buf_read_hc [simp]: "hc (snd (buf_read is)) = hc is"
  by (simp add: buf_read_def split: list.split)

lemma buf_readD: "buf_read is = (ch, is') \<Longrightarrow> hc is' = hc is"
  using buf_read_hc [of "is"] by simp

lemma skip_spaceD: "skip_space ch is = (ch', is') \<Longrightarrow> hc is' = hc is"
proof (induction ch "is" rule: skip_space.induct)
  case (1 ch "is")
  obtain c s where b: "buf_read is = (c, s)" by (rule prod.exhaust)
  show ?case using 1(1) [OF _ b [symmetric]] 1(2) b buf_readD [OF b] skip_space.simps [of ch "is"]
    by (auto split: if_splits)
qed

lemma lands_buf_append: "lands (\<lambda>is'. hc is' = hc is) (buf_append is ch)"
  by (auto simp: buf_append_def Let_def intro!: lands_bind [OF lands_store])

lemma lands_read_token: "lands (\<lambda>(ch', is'). hc is' = hc is) (read_token P ch is)"
proof (induction P ch "is" rule: read_token.induct)
  case (1 P ch "is")
  have "lands (\<lambda>(ch', is'). hc is' = hc is) (case buf_read is2 of (ch, is3) \<Rightarrow> read_token P ch is3)"
    if "0 \<le> ch \<and> P ch" "buf_append is ch = Inr is2" "hc is2 = hc is" for is2
    using 1 [OF that(1,2)] buf_readD [of is2] that(3) by (cases "buf_read is2") auto
  then show ?case
    unfolding read_token.simps [of P ch "is"] by (auto intro!: lands_bind [OF lands_buf_append])
qed

lemma lands_get_token: "lands (\<lambda>(str, is'). hc is' = hc is) (get_token is)"
  by (auto simp: get_token_def intro!: lands_bind [OF lands_store] lands_bind [OF lands_cstr_at])

lemma lands_parse_error:
  "lands (\<lambda>is'. is_heap is' = is_heap is \<and> (is_config is')\<lparr>c_error := None\<rparr> = (is_config is)\<lparr>c_error := None\<rparr>)
     (parse_error msg is)"
  by (auto simp: parse_error_def cse_error_def bindR_def)

text \<open>With the invariant: the parts of the parser that leave the heap alone.\<close>

definition parses :: "nat \<Rightarrow> rstream \<Rightarrow> rstream \<Rightarrow> bool" where
  "parses b is is' \<longleftrightarrow> within b (hc is) (hc is')"

lemma parses_refl: "region b (is_heap is) \<Longrightarrow> hc is' = hc is \<Longrightarrow> parses b is is'"
  by (simp add: parses_def within_refl)

lemma parses_hc: "parses b is is' \<Longrightarrow> hc is'' = hc is' \<Longrightarrow> parses b is is''"
  "parses b is is' \<Longrightarrow> hc is0 = hc is \<Longrightarrow> parses b is0 is'"
  by (simp_all add: parses_def)

lemma ungetc_parses: "parses b is0 is \<Longrightarrow> parses b is0 (ungetc ch is)"
  by (simp add: parses_def)

lemma parses_trans: "parses b x y \<Longrightarrow> parses b y z \<Longrightarrow> parses b x z"
  unfolding parses_def by (rule within_trans)

lemma parsesD:
  "parses b is is' \<Longrightarrow> region b (is_heap is')" "parses b is is' \<Longrightarrow> length (is_heap is) \<le> length (is_heap is')"
  by (simp_all add: parses_def within_def)

lemma parse_error_parses:
  assumes "parses b is0 is"
  shows "lands (parses b is0) (parse_error msg is)"
  by (rule lands_mono [OF lands_parse_error]) (use assms in \<open>auto simp: parses_def within_def\<close>)

subsection \<open>Nodes, attributes and tags\<close>

lemma registry_add_region:
  assumes "region b h" "b \<le> node" "node < length h"
  shows "lands (\<lambda>(child, h'). child = length h \<and> region b h' \<and> length h' = Suc (length h) \<and> take b h' = take b h)
    (registry_add node key h)"
proof -
  let ?nd = "(new_node key)\<lparr>n_parent := Some node, n_prev := n_last (h ! node)\<rparr>"
  let ?h = "h @ [?nd]"
  have l: "linked b (length h) node (h ! node)" by (rule region_linked [OF assms])
  have nth: "?h ! i = h ! i" if "i < length h" for i using that by (simp add: nth_append)
  have r1: "region b ?h"
    by (rule region_snoc [OF assms(1)]) (use assms l in \<open>auto simp: linked_def new_node_def\<close>)
  have b: "b \<le> length h" using assms(2,3) by simp
  have nd: "?h ! node = h ! node" "linked b (length ?h) node (h ! node)"
    using nth [OF assms(3)] linked_mono [OF l, of "length ?h" b] by simp_all
  show ?thesis
  proof (cases "n_last (h ! node)")
    case None
    have "region b (upd_node node (\<lambda>n. n\<lparr>n_first := Some (length h), n_last := Some (length h)\<rparr>) ?h)"
      by (rule region_upd [OF r1 assms(2)]) (use assms(3) nd in \<open>auto simp: linked_def\<close>)
    then show ?thesis using None assms b by (simp add: registry_add_def get_node_def Let_def)
  next
    case (Some q)
    have q: "node < q" "q < length h" using l Some by (auto simp: linked_def)
    have bq: "b \<le> q" using q assms(2) by simp
    have lq: "linked b (length ?h) q (h ! q)"
      by (rule linked_mono [OF region_linked [OF assms(1) bq q(2)]]) simp_all
    let ?h2 = "upd_node q (\<lambda>n. n\<lparr>n_next := Some (length h)\<rparr>) ?h"
    have r2: "region b ?h2"
    proof (rule region_upd [OF r1 bq])
      show "linked b (length ?h) q ((?h ! q)\<lparr>n_next := Some (length h)\<rparr>)"
        using lq q(2) by (simp add: nth linked_def)
      fix x assume "n_last ((?h ! q)\<lparr>n_next := Some (length h)\<rparr>) = Some x"
      then have "n_last (?h ! q) = Some x" by simp
      then show "n_parent (?h ! x) \<noteq> None" by (rule region_lastD [OF r1 bq, rotated]) (use q in simp)
    qed (use q in simp_all)
    have n2: "?h2 ! node = h ! node" using q nd by (simp add: nth_upd_node)
    have "region b (upd_node node (\<lambda>n. n\<lparr>n_last := Some (length h)\<rparr>) ?h2)"
    proof (rule region_upd [OF r2 assms(2)])
      show "linked b (length ?h2) node ((?h2 ! node)\<lparr>n_last := Some (length h)\<rparr>)"
        using nd(2) assms(3) unfolding n2 by (simp add: linked_def)
    qed (use assms(3) q n2 in \<open>auto simp: nth_upd_node\<close>)
    then show ?thesis using Some assms q b by (simp add: registry_add_def get_node_def Let_def)
  qed
qed

text \<open>\<open>node\<close> is a node of the region, and stays one.\<close>

definition at :: "nat \<Rightarrow> nat \<Rightarrow> rstream \<Rightarrow> bool" where
  "at b node is \<longleftrightarrow> b \<le> node \<and> node < length (is_heap is)"

lemma at_parses: "parses b is is' \<Longrightarrow> at b node is \<Longrightarrow> at b node is'"
  by (auto simp: at_def dest: parsesD(2))

lemma at_hc: "at b node is \<Longrightarrow> hc is' = hc is \<Longrightarrow> at b node is'"
  by (simp add: at_def hc_def)

lemma parses_heap:
  assumes "parses b is0 is" "region b h" "length (is_heap is) \<le> length h" "take b h = take b (is_heap is)"
  shows "parses b is0 (is\<lparr>is_heap := h\<rparr>)"
  using assms by (simp add: parses_def within_def)

lemma registry_add_parses:
  assumes "parses b is0 is" "at b node is"
  shows "lands (\<lambda>(child, h). parses b is0 (is\<lparr>is_heap := h\<rparr>) \<and> at b child (is\<lparr>is_heap := h\<rparr>) \<and> at b node (is\<lparr>is_heap := h\<rparr>))
    (registry_add node key (is_heap is))"
  by (rule lands_mono [OF registry_add_region [OF parsesD(1) [OF assms(1)]]])
    (use assms in \<open>auto simp: at_def intro: parses_heap\<close>)

lemma set_value_parses:
  assumes "parses b is0 is" "at b node is"
  shows "lands (parses b is0) (set_value node str is)"
proof -
  have r: "region b (is_heap is)" by (rule parsesD(1) [OF assms(1)])
  have "region b (upd_node node (\<lambda>n. n\<lparr>n_value := Some str\<rparr>) (is_heap is))"
    by (rule region_upd [OF r])
      (use assms(2) region_linked [OF r, of node] region_lastD [OF r, of node] in \<open>auto simp: at_def linked_def\<close>)
  then show ?thesis using assms by (auto simp: set_value_def get_node_def at_def intro!: parses_heap)
qed

lemma get_token_parses: "parses b is0 is \<Longrightarrow> lands (\<lambda>(str, is'). parses b is0 is' \<and> hc is' = hc is) (get_token is)"
  by (rule lands_mono [OF lands_get_token]) (auto intro: parses_hc)

lemma read_token_parses: "parses b is0 is \<Longrightarrow> lands (\<lambda>(ch, is'). parses b is0 is' \<and> hc is' = hc is) (read_token P ch is)"
  by (rule lands_mono [OF lands_read_token]) (auto intro: parses_hc)

lemma attribute_node_parses:
  assumes "parses b is0 is" "at b node is"
  shows "lands (\<lambda>(attr, is'). parses b is0 is' \<and> at b attr is') (attribute_node node str is)"
  using assms by (auto simp: attribute_node_def intro!: lands_bind [OF registry_add_parses [OF assms]])

lemma parse_value_parses:
  assumes "parses b is0 is" "at b attr is"
  shows "lands (\<lambda>(ch, is'). parses b is0 is') (parse_value attr is)"
proof -
  obtain c1 s1 where b1: "buf_read is = (c1, s1)" by (rule prod.exhaust)
  obtain c2 s2 where sk: "skip_space c1 s1 = (c2, s2)" by (rule prod.exhaust)
  have h2: "hc s2 = hc is" using buf_readD [OF b1] skip_spaceD [OF sk] by simp
  obtain c3 s3 where b3: "buf_read (s2\<lparr>is_length := 0\<rparr>) = (c3, s3)" by (rule prod.exhaust)
  have h3: "hc s3 = hc is" using buf_readD [OF b3] h2 by simp
  have p: "parses b is0 s2" "parses b is0 s3" "parses b is0 (s2\<lparr>is_length := 0\<rparr>)"
    using assms(1) h2 h3 by (auto intro: parses_hc(1))
  have put: "lands (\<lambda>(ch, is'). parses b is0 is')
      (bindR (get_token s) (\<lambda>(str, is). bindR (set_value attr str is) (\<lambda>is. Inr (x, is))))"
    if "parses b is0 s" "hc s = hc is" for s x
    using that assms(2)
    by (auto intro!: lands_bind [OF get_token_parses] lands_bind [OF set_value_parses] intro: at_hc)
  have err: "lands (\<lambda>(ch, is'). parses b is0 is') (bindR (parse_error msg s) (\<lambda>is. Inr (x, is)))"
    if "parses b is0 s" for s msg x
    using that by (auto intro!: lands_bind [OF parse_error_parses])
  show ?thesis unfolding parse_value_def b1 sk b3 Let_def prod.case
    using p h2 h3
    by (auto intro!: put err lands_bind [OF read_token_parses] intro: parses_hc(1))
qed

lemma parse_attribute_parses:
  assumes "parses b is0 is" "at b node is"
  shows "lands (\<lambda>(ch, is'). parses b is0 is') (parse_attribute node ch is)"
proof -
  obtain c1 s1 where sk: "skip_space ch is = (c1, s1)" by (rule prod.exhaust)
  have p1: "parses b is0 (s1\<lparr>is_length := 0\<rparr>)" "at b node s1"
    using assms skip_spaceD [OF sk] by (auto intro: parses_hc(1) at_hc)
  have tail: "lands (\<lambda>(ch, is'). parses b is0 is')
      (let (ch, is) = skip_space c s in if ch \<noteq> code_of (CHR ''='') then Inr (0, ungetc ch is) else parse_value attr is)"
    if "parses b is0 s" "at b attr s" for c s attr
  proof -
    obtain c' s' where sk': "skip_space c s = (c', s')" by (rule prod.exhaust)
    have "parses b is0 s'" "parses b is0 (ungetc c' s')" "at b attr s'"
      using that skip_spaceD [OF sk'] by (auto intro: parses_hc(1) at_hc)
    then show ?thesis using sk' by (auto intro!: parse_value_parses)
  qed
  show ?thesis unfolding parse_attribute_def sk Let_def prod.case
    using p1
    by (auto intro!: lands_bind [OF read_token_parses] lands_bind [OF get_token_parses]
        lands_bind [OF attribute_node_parses] tail [unfolded Let_def, simplified]; blast intro: ungetc_parses at_hc)
qed

lemma attribute_loop_parses:
  assumes "parses b is0 is" "at b node is"
  shows "lands (\<lambda>(ch, is'). parses b is0 is') (attribute_loop node ch is)"
  using assms
proof (induction node ch "is" rule: attribute_loop.induct)
  case (1 node ch "is")
  show ?case unfolding attribute_loop.simps [of node ch "is"]
  proof (rule lands_bind [OF parse_attribute_parses])
    fix x assume x: "parse_attribute node ch is = Inr x" "case x of (ch, is') \<Rightarrow> parses b is is'"
    obtain c s where [simp]: "x = (c, s)" by (rule prod.exhaust)
    have "parses b is0 s" "at b node s" using 1(2,3) x(2) by (auto intro: parses_trans at_parses)
    then show "lands (\<lambda>(ch, is'). parses b is0 is') (case x of (ch, is) \<Rightarrow> if ch > 0 then attribute_loop node ch is else Inr (ch, is))"
      using 1(1) [OF x(1), of c s] by auto
  qed (use 1 parses_refl [OF parsesD(1) [OF 1(2)] refl] in auto)
qed

lemma skip_spaces_parses:
  assumes "parses b is0 is" "buf_read is = (c, s)" "skip_space c s = (c', s')"
  shows "parses b is0 s'" "hc s' = hc is"
  using assms buf_readD [OF assms(2)] skip_spaceD [OF assms(3)] by (auto intro: parses_hc(1))

lemma error_result_parses:
  "parses b is0 is \<Longrightarrow> (\<And>is'. parses b is0 is' \<Longrightarrow> parses b is is' \<Longrightarrow> P (f is')) \<Longrightarrow>
   lands P (bindR (parse_error msg is) (\<lambda>is. Inr (f is)))"
  by (rule lands_bind [OF parse_error_parses [OF parses_refl [OF parsesD(1) refl]]])
    (auto intro: parses_trans)

lemma parse_tag_parses:
  assumes "parses b is0 is" "at b node is"
  shows "lands (\<lambda>(r, node', is'). parses b is0 is' \<and> at b node' is') (parse_tag node ch is)"
proof -
  have p0: "parses b is0 (is\<lparr>is_length := 0\<rparr>)" using assms(1) by (rule parses_hc(1)) simp
  have tail: "lands (\<lambda>(r, node', is'). parses b is0 is' \<and> at b node' is')
      (if c < 0 then bindR (parse_error ''unexpected end of file'' s) (\<lambda>is. Inr (c, node, is))
       else
         let (ch, is) = buf_read s;
             (ch, is) = skip_space ch is
         in if ch = code_of (CHR ''>'') then Inr (0, child, is)
            else if ch \<noteq> code_of (CHR ''/'') then
              bindR (parse_error (''expected '' @ quoted (code_of (CHR ''/'')) @ '' at '' @ quoted ch) is)
                (\<lambda>is. Inr (-1, node, is))
            else
              let (ch, is) = buf_read is in
              if ch = code_of (CHR ''>'') then Inr (1, node, is)
              else bindR (parse_error (''expected '' @ quoted (code_of (CHR ''>'')) @ '' at '' @ quoted ch) is)
                     (\<lambda>is. Inr (-1, node, is)))"
    if s: "parses b is0 s" "at b node s" "at b child s" for c s child
  proof -
    obtain c1 s1 where b1: "buf_read s = (c1, s1)" by (rule prod.exhaust)
    obtain c2 s2 where b2: "skip_space c1 s1 = (c2, s2)" by (rule prod.exhaust)
    obtain c3 s3 where b3: "buf_read s2 = (c3, s3)" by (rule prod.exhaust)
    note p2 = skip_spaces_parses [OF s(1) b1 b2]
    have p3: "parses b is0 s3" "hc s3 = hc s" using p2 buf_readD [OF b3] by (auto intro: parses_hc(1))
    have at: "at b node s2" "at b child s2" "at b node s3" using s p2 p3 by (auto intro: at_hc)
    show ?thesis unfolding b1 b2 b3 Let_def prod.case
      using s p2 p3 at by (auto intro!: error_result_parses intro: at_parses)
  qed
  show ?thesis unfolding parse_tag_def Let_def
  proof (rule lands_bind [OF read_token_parses [OF p0]], goal_cases)
    case (1 x)
    obtain c1 s1 where [simp]: "x = (c1, s1)" by (rule prod.exhaust)
    have p1: "parses b is0 s1" "at b node s1" using 1(2) assms(2) by (auto intro: at_hc)
    show ?case
      using p1
      by (auto intro!: error_result_parses lands_bind [OF get_token_parses] lands_bind [OF registry_add_parses]
          lands_bind [OF attribute_loop_parses [OF parses_refl [OF parsesD(1) refl]]] tail [unfolded Let_def, simplified]
          intro: at_parses at_hc parses_trans)
  qed
qed

lemma parse_end_tag_parses:
  assumes "parses b is0 is" "at b node is"
  shows "lands (\<lambda>(r, p, is'). parses b is0 is' \<and> (\<forall>q. p = Some q \<longrightarrow> at b q is')) (parse_end_tag node is)"
proof -
  obtain c0 s0 where b0: "buf_read (is\<lparr>is_length := 0\<rparr>) = (c0, s0)" by (rule prod.exhaust)
  have p0: "parses b is0 s0" "hc s0 = hc is"
    using assms(1) buf_readD [OF b0] by (auto intro: parses_hc(1))
  show ?thesis unfolding parse_end_tag_def b0 Let_def prod.case
  proof (rule lands_bind [OF read_token_parses [OF p0(1)]], goal_cases)
    case (1 x)
    obtain c1 s1 where [simp]: "x = (c1, s1)" by (rule prod.exhaust)
    obtain c2 s2 where b2: "skip_space c1 s1 = (c2, s2)" by (rule prod.exhaust)
    have p: "parses b is0 s1" "parses b is0 s2" "at b node s1" "at b node s2"
      using 1(2) p0(2) assms(2) skip_spaceD [OF b2] by (auto intro: at_hc parses_hc(1))
    have up: "lands (\<lambda>(r, p, is'). parses b is0 is' \<and> (\<forall>q. p = Some q \<longrightarrow> at b q is'))
        (bindR (get_node (is_heap s) (Some node)) (\<lambda>nd. Inr (1, n_parent nd, s)))"
      if "parses b is0 s" "at b node s" for s
    proof -
      have "linked b (length (is_heap s)) node (is_heap s ! node)"
        using that by (intro region_linked) (auto simp: at_def dest: parsesD(1))
      then show ?thesis using that by (auto simp: get_node_def at_def linked_def)
    qed
    show ?case using p b2
      by (auto intro!: error_result_parses lands_bind [OF get_token_parses] up intro: at_parses at_hc)
  qed
qed

lemma comment_lands:
  assumes "region b (is_heap is)"
  shows "lands (parses b is) (skip_comment is)"
proof -
  have "parses b is0 s \<Longrightarrow> lands (parses b is0) (comment_text s)"
    "parses b is0 s \<Longrightarrow> lands (parses b is0) (comment_dash ch s)"
    "parses b is0 s \<Longrightarrow> lands (parses b is0) (comment_end ch s)" for is0 s ch
  proof (induction s and ch s and ch s rule: comment_text_comment_dash_comment_end.induct)
    case (1 s)
    obtain c s1 where b: "buf_read s = (c, s1)" by (rule prod.exhaust)
    have "parses b is0 s1" using 1(2) buf_readD [OF b] by (rule parses_hc(1))
    then show ?case using 1(1) [OF b [symmetric]] by (simp add: comment_text.simps [of s] b parse_error_parses)
  next
    case (2 ch s)
    obtain c s1 where b: "buf_read s = (c, s1)" by (rule prod.exhaust)
    have "parses b is0 s1" using 2(3) buf_readD [OF b] by (rule parses_hc(1))
    then show ?case using 2(1) [OF _ b [symmetric]] 2(2,3) by (simp add: comment_dash.simps [of ch s] b)
  next
    case (3 ch s)
    obtain c s1 where b: "buf_read s = (c, s1)" by (rule prod.exhaust)
    have "parses b is0 s1" using 3(3) buf_readD [OF b] by (rule parses_hc(1))
    then show ?case using 3(1) [OF _ b [symmetric]] 3(2,3) by (simp add: comment_end.simps [of ch s] b)
  qed
  then show ?thesis using parses_refl [OF assms refl] by (simp add: skip_comment_def)
qed

lemma skip_quoted_hc: "hc (skip_quoted q is) = hc is"
proof (induction q "is" rule: skip_quoted.induct)
  case (1 q "is")
  obtain c s where b: "buf_read is = (c, s)" by (rule prod.exhaust)
  show ?case using 1 [OF b [symmetric]] buf_readD [OF b] by (simp add: skip_quoted.simps [of q "is"] b)
qed

lemma doctype_lands: "parses b is0 is \<Longrightarrow> lands (parses b is0) (skip_doctype is)"
proof (induction "is" rule: skip_doctype.induct)
  case (1 "is")
  obtain c s where b: "buf_read is = (c, s)" by (rule prod.exhaust)
  have "parses b is0 s" "parses b is0 (skip_quoted q s)" for q
    using 1(4) buf_readD [OF b] by (auto intro: parses_hc(1) simp: skip_quoted_hc)
  then show ?case using 1(1-3) [OF b [symmetric]] by (simp add: skip_doctype.simps [of "is"] b parse_error_parses)
qed

lemma pi_lands:
  assumes "parses b is0 is"
  shows "lands (parses b is0) (skip_pi is)"
proof -
  have "parses b is0 s \<Longrightarrow> lands (parses b is0) (pi_text s)"
    "parses b is0 s \<Longrightarrow> lands (parses b is0) (pi_mark ch s)" for s ch
  proof (induction s and ch s rule: pi_text_pi_mark.induct)
    case (1 s)
    obtain c s1 where b: "buf_read s = (c, s1)" by (rule prod.exhaust)
    have "parses b is0 s1" using 1(2) buf_readD [OF b] by (rule parses_hc(1))
    then show ?case using 1(1) [OF b [symmetric]] by (simp add: pi_text.simps [of s] b parse_error_parses)
  next
    case (2 ch s)
    obtain c s1 where b: "buf_read s = (c, s1)" by (rule prod.exhaust)
    have "parses b is0 s1" using 2(3) buf_readD [OF b] by (rule parses_hc(1))
    then show ?case using 2(1) [OF _ b [symmetric]] 2(2,3) by (simp add: pi_mark.simps [of ch s] b)
  qed
  then show ?thesis using assms by (simp add: skip_pi_def)
qed

subsection \<open>Includes\<close>

lemma within_node:
  assumes "within b hc0 (h, c)" "b \<le> a" "a < length h"
    "linked b (length h) a (f (h ! a))"
    "\<And>l. n_last (f (h ! a)) = Some l \<Longrightarrow> n_parent (h ! l) \<noteq> None"
    "n_parent (h ! a) \<noteq> None \<Longrightarrow> n_parent (f (h ! a)) \<noteq> None"
  shows "within b hc0 (upd_node a f h, c)"
  by (rule within_upd [OF assms(1,2) region_upd]) (use assms in \<open>simp_all add: within_def\<close>)

lemma within_linked: "within b hc0 (h, c) \<Longrightarrow> b \<le> a \<Longrightarrow> a < length h \<Longrightarrow> linked b (length h) a (h ! a)"
  by (simp add: within_def region_linked)

lemma within_lastD: "within b hc0 (h, c) \<Longrightarrow> b \<le> a \<Longrightarrow> a < length h \<Longrightarrow> n_last (h ! a) = Some l \<Longrightarrow> n_parent (h ! l) \<noteq> None"
  unfolding within_def using region_lastD [of b h a l] by simp

lemma within_adopt:
  assumes "within b hc0 (h, c)" "\<forall>x \<in> set ptrs. x < length h \<and> par < x" "b \<le> par"
  shows "within b hc0 (fold (\<lambda>ptr. upd_node ptr (\<lambda>n. n\<lparr>n_parent := Some par\<rparr>)) ptrs h, c)"
  using assms
proof (induction ptrs arbitrary: h)
  case (Cons x ptrs)
  have x: "x < length h" "par < x" "b \<le> x" using Cons.prems by auto
  have "within b hc0 (upd_node x (\<lambda>n. n\<lparr>n_parent := Some par\<rparr>) h, c)"
    by (rule within_node [OF Cons.prems(1) x(3,1)])
      (use x Cons.prems(3) within_linked [OF Cons.prems(1) x(3,1)] within_lastD [OF Cons.prems(1) x(3,1)]
       in \<open>auto simp: linked_def\<close>)
  then show ?case using Cons by simp
qed simp

lemma splice_within:
  assumes w: "within b x (h, c)" and n: "b \<le> node" "node < subnode" "subnode < length h"
    and f: "n_first (h ! subnode) = Some f"
  shows "lands (\<lambda>h'. within b x (h', c)) (splice node subnode h)"
proof (cases "n_parent (h ! node)")
  case None
  then show ?thesis using n by (simp add: splice_def get_node_def)
next
  case (Some par)
  have ln: "linked b (length h) node (h ! node)" by (rule within_linked [OF w]) (use n in auto)
  have ls: "linked b (length h) subnode (h ! subnode)" by (rule within_linked [OF w]) (use n in auto)
  have par: "b \<le> par" "par < node" using ln Some by (auto simp: linked_def)
  have f': "subnode < f" "f < length h" using ls f by (auto simp: linked_def)
  let ?h1 = "upd_node subnode (\<lambda>n. n\<lparr>n_parent := Some par\<rparr>) h"
  have w1: "within b x (?h1, c)"
    by (rule within_node [OF w _ n(3)]) (use n par ls within_lastD [OF w _ n(3)] in \<open>auto simp: linked_def\<close>)
  have s1: "n_first (?h1 ! subnode) = Some f" using n f by (simp add: nth_upd_node)
  have relink: "within b x (upd_node q (\<lambda>n. n\<lparr>n_next := Some f\<rparr>) ?h1, c)"
    if "n_prev (h ! node) = Some q" for q
  proof -
    have q: "b \<le> q" "q < node" using ln that by (auto simp: linked_def)
    have q1: "q < length ?h1" using q n by simp
    show ?thesis
      by (rule within_node [OF w1 q(1) q1])
        (use q n f' within_linked [OF w1 q(1) q1] within_lastD [OF w1 q(1) q1] in \<open>auto simp: linked_def\<close>)
  qed
  have reroot: "within b x (upd_node par (\<lambda>n. n\<lparr>n_first := Some subnode\<rparr>) ?h1, c)"
  proof -
    have p1: "par < length ?h1" using par n by simp
    show ?thesis
      by (rule within_node [OF w1 par(1) p1])
        (use par n within_linked [OF w1 par(1) p1] within_lastD [OF w1 par(1) p1] in \<open>auto simp: linked_def\<close>)
  qed
  have finish: "lands (\<lambda>h'. within b x (h', c))
      (let h = upd_node subnode (\<lambda>n. n\<lparr>n_prev := n_prev nd\<rparr>) h2;
           h = upd_node par (\<lambda>n. n\<lparr>n_last := n_last (h ! subnode)\<rparr>) h
       in bindR (siblings h (n_first (h ! subnode))) (\<lambda>ptrs.
            Inr (fold (\<lambda>ptr. upd_node ptr (\<lambda>n. n\<lparr>n_parent := Some par\<rparr>)) ptrs h)))"
    if w2: "within b x (h2, c)" and l2: "length h2 = length h" and f2: "n_first (h2 ! subnode) = Some f"
      and nd: "nd = h ! node" for h2 nd
  proof -
    let ?h3 = "upd_node subnode (\<lambda>n. n\<lparr>n_prev := n_prev nd\<rparr>) h2"
    let ?h4 = "upd_node par (\<lambda>n. n\<lparr>n_last := n_last (?h3 ! subnode)\<rparr>) ?h3"
    have sub: "b \<le> subnode" "subnode < length h2" "subnode < length ?h3" "par < length ?h3" "par \<noteq> subnode"
      using n l2 par by auto
    have w3: "within b x (?h3, c)"
      by (rule within_node [OF w2 sub(1,2)])
        (use nd n ln within_linked [OF w2 sub(1,2)] within_lastD [OF w2 sub(1,2)] in \<open>auto simp: linked_def\<close>)
    have w4: "within b x (?h4, c)"
      by (rule within_node [OF w3 par(1) sub(4)])
        (use par n within_linked [OF w3 sub(1,3)] within_lastD [OF w3 sub(1,3)] within_linked [OF w3 par(1) sub(4)]
         in \<open>auto simp: linked_def\<close>)
    have f4: "n_first (?h4 ! subnode) = Some f"
      using sub f2 by (simp add: nth_upd_node)
    have r4: "region b ?h4" using w4 by (simp add: within_def)
    have sib: "lands (\<lambda>as. \<forall>x \<in> set as. x < length ?h4 \<and> (\<forall>a. n_first (?h4 ! subnode) = Some a \<longrightarrow> a \<le> x))
        (siblings ?h4 (n_first (?h4 ! subnode)))"
      by (rule returns_lands [OF walk_siblings [OF r4]]) (use f4 f' l2 sub in auto)
    show ?thesis unfolding Let_def
    proof (rule lands_bind [OF sib], simp only: lands_simps, rule within_adopt [OF w4 _ par(1)])
      fix as assume "\<forall>x \<in> set as. x < length ?h4 \<and> (\<forall>a. n_first (?h4 ! subnode) = Some a \<longrightarrow> a \<le> x)"
      then show "\<forall>x \<in> set as. x < length ?h4 \<and> par < x" using f4 f' n par by fastforce
    qed
  qed
  show ?thesis
  proof (cases "n_prev (h ! node)")
    case None
    then show ?thesis using Some n par s1 finish [OF reroot]
      by (simp add: splice_def get_node_def Let_def nth_upd_node)
  next
    case q: (Some q)
    then have "b \<le> q" "q < node" using ln by (auto simp: linked_def)
    then show ?thesis using Some q n par s1 finish [OF relink [OF q]]
      by (simp add: splice_def get_node_def Let_def nth_upd_node)
  qed
qed

text \<open>What the parser relies on when it opens an included file.\<close>

definition opens_well :: "open_parse \<Rightarrow> bool" where
  "opens_well f \<longleftrightarrow> (\<forall>path hc. lands (\<lambda>(opened, hc'). within (length (fst hc)) hc hc' \<and>
     (\<forall>r. opened = Some (Some r) \<longrightarrow> length (fst hc) \<le> r \<and> r < length (fst hc'))) (f path hc))"

lemma within_join:
  assumes "within b x (h, c)" "b \<le> length h" "within (length h) (h, c) hc'"
  shows "within b x hc'"
proof -
  have t: "take (length h) (fst hc') = h" using assms(3) by (simp add: within_def)
  then have "take b (fst hc') = take b h" using assms(2) by (metis min.absorb1 take_take)
  moreover have "region b (fst hc')"
    using region_join [of b h "fst hc'"] assms t by (simp add: within_def)
  ultimately show ?thesis using assms(1,3) by (simp add: within_def)
qed

lemma parse_include_within:
  assumes "opens_well f" "within b x (h, c)" "b \<le> node" "node < length h"
  shows "lands (within b x) (parse_include f path node (h, c))"
proof -
  have r: "region b h" using assms(2) by (simp add: within_def)
  have ln: "linked b (length h) node (h ! node)" by (rule region_linked [OF r assms(3,4)])
  have fv: "lands (\<lambda>_. True) (cse_find_value h (n_first (h ! node)) ''href'')"
    by (rule returns_lands [OF walk_find_value [OF r]]) (use ln assms(3) in \<open>auto simp: linked_def\<close>)
  have ip: "lands (\<lambda>_. True) (include_path path v)" for v
    by (simp add: include_path_def)
  have op: "lands (\<lambda>(opened, hc'). within (length h) (h, c) hc' \<and>
      (\<forall>r. opened = Some (Some r) \<longrightarrow> length h \<le> r \<and> r < length (fst hc'))) (f sub (h, c))" for sub
    using assms(1) unfolding opens_well_def by (auto dest!: spec [of _ sub] spec [of _ "(h, c)"])
  have body: "lands (within b x) (case opened of
        Some (Some subnode) \<Rightarrow>
          bindR (get_node h' (Some subnode)) (\<lambda>sn.
            if n_first sn = None then Inr (h', c') else bindR (splice node subnode h') (\<lambda>h. Inr (h, c')))
      | _ \<Rightarrow> Inr (h', c'))"
    if w: "within (length h) (h, c) (h', c')" and sub: "\<forall>r. opened = Some (Some r) \<longrightarrow> length h \<le> r \<and> r < length h'"
    for opened h' c'
  proof -
    have w': "within b x (h', c')" by (rule within_join [OF assms(2) _ w]) (use assms(3,4) in simp)
    show ?thesis
      using w' sub assms(3,4)
      by (auto simp: get_node_def split: option.split intro!: lands_bind [OF splice_within])
  qed
  show ?thesis unfolding parse_include_def
    using assms(2,4) body
    by (auto simp: get_node_def intro!: lands_bind [OF fv] lands_bind [OF ip] lands_bind [OF op] split del: option.split)
qed

subsection \<open>The parser\<close>

definition includes_within :: "nat \<Rightarrow> (nat \<Rightarrow> heap \<times> config \<Rightarrow> (heap \<times> config) res) \<Rightarrow> bool" where
  "includes_within b inc \<longleftrightarrow> (\<forall>x l h c. within b x (h, c) \<longrightarrow> b \<le> l \<longrightarrow> l < length h \<longrightarrow> lands (within b x) (inc l (h, c)))"

lemma check_include_parses:
  assumes "includes_within b inc" "parses b is0 is" "\<forall>q. node = Some q \<longrightarrow> at b q is"
  shows "lands (parses b is0) (check_include inc node is)"
proof (cases node)
  case (Some a)
  then have a: "b \<le> a" "a < length (is_heap is)" using assms(3) by (auto simp: at_def)
  have "linked b (length (is_heap is)) a (is_heap is ! a)"
    by (rule region_linked [OF parsesD(1) [OF assms(2)] a])
  then have l: "b \<le> l \<and> l < length (is_heap is)" if "n_last (is_heap is ! a) = Some l" for l
    using that a by (auto simp: linked_def)
  have "lands (within b (hc is0)) (inc l (is_heap is, is_config is))" if "n_last (is_heap is ! a) = Some l" for l
    using assms(1,2) l [OF that] unfolding includes_within_def parses_def hc_def by blast
  then show ?thesis
    using Some a l assms(2)
    by (auto simp: check_include_def get_node_def split: option.split intro!: lands_bind [where m = "inc _ _"])
      (auto simp: parses_def hc_def)
qed (simp add: check_include_def get_node_def)

lemma markup_parses:
  assumes "includes_within b inc" "parses b is0 is" "at b node is"
  shows "lands (\<lambda>(ok, node', is'). parses b is0 is' \<and> (ok \<longrightarrow> at b node' is')) (markup inc node is)"
proof -
  obtain c0 s0 where b0: "buf_read is = (c0, s0)" by (rule prod.exhaust)
  have p0: "parses b is0 s0" "at b node s0" using assms(2,3) buf_readD [OF b0] by (auto intro: parses_hc(1) at_hc)
  obtain c1 s1 where b1: "buf_read s0 = (c1, s1)" by (rule prod.exhaust)
  have p1: "parses b is0 s1" "at b node s1" using p0 buf_readD [OF b1] by (auto intro: parses_hc(1) at_hc)
  let ?R = "\<lambda>(ok, node', is'). parses b is0 is' \<and> (ok \<longrightarrow> at b node' is')"
  have stay: "lands ?R (bindR m (\<lambda>is. Inr (True, node, is)))" if "lands (parses b s) m" "parses b is0 s" "at b node s" for m s
    using that by (auto intro!: lands_bind [OF that(1)] intro: parses_trans at_parses)
  have warn: "lands (parses b s) (if P then parse_error msg s else Inr s)" if "parses b is0 s" for s P msg
    using parses_refl [OF parsesD(1) [OF that] refl] by (simp add: parse_error_parses)
  have comment: "lands ?R
      (bindR (if c1 \<noteq> code_of (CHR ''-'') then parse_error (''expected comment start at '' @ quoted c1) s1 else Inr s1) (\<lambda>is.
            let (ch, is) = buf_read is in
            bindR (if ch \<noteq> code_of (CHR ''-'') then parse_error (''expected comment start at '' @ quoted ch) is
                   else Inr is) (\<lambda>is.
            bindR (skip_comment is) (\<lambda>is. Inr (True, node, is)))))"
  proof (rule lands_bind [OF warn [OF p1(1)]], goal_cases)
    case (1 s2)
    obtain c3 s3 where b3: "buf_read s2 = (c3, s3)" by (rule prod.exhaust)
    have p3: "parses b is0 s3" "at b node s3"
      using parses_trans [OF p1(1) 1(2)] at_parses [OF 1(2) p1(2)] buf_readD [OF b3] by (auto intro: parses_hc(1) at_hc)
    show ?case unfolding b3 Let_def prod.case
    proof (rule lands_bind [OF warn [OF p3(1)]], goal_cases)
      case (1 s4)
      have "parses b is0 s4" "at b node s4" using parses_trans [OF p3(1) 1(2)] at_parses [OF 1(2) p3(2)] by auto
      then show ?case by (intro stay [OF comment_lands]) (auto dest: parsesD(1))
    qed
  qed
  have tag: "lands ?R (bindR (parse_tag node c0 s0) (\<lambda>(result, node, is).
          if result < 0 then Inr (False, node, is)
          else bindR (check_include inc (Some node) is) (\<lambda>is. Inr (True, node, is))))"
  proof (rule lands_bind [OF parse_tag_parses [OF p0]], goal_cases)
    case (1 x)
    obtain r n s where [simp]: "x = (r, n, s)" by (rule prod_cases3)
    have p: "parses b is0 s" "at b n s" using 1(2) by auto
    have "lands ?R (bindR (check_include inc (Some n) s) (\<lambda>is. Inr (True, n, is)))"
      by (rule lands_bind [OF check_include_parses [OF assms(1) parses_refl [OF parsesD(1) [OF p(1)] refl]]])
        (use p in \<open>auto intro: parses_trans at_parses\<close>)
    then show ?case using p by simp
  qed
  have end_tag: "lands ?R (bindR (parse_end_tag node s0) (\<lambda>(result, parent, is).
          if result < 0 then Inr (False, node, is)
          else bindR (check_include inc parent is) (\<lambda>is. Inr (True, the parent, is))))"
  proof (rule lands_bind [OF parse_end_tag_parses [OF p0]], goal_cases)
    case (1 x)
    obtain r n s where [simp]: "x = (r, n, s)" by (rule prod_cases3)
    have p: "parses b is0 s" "\<forall>q. n = Some q \<longrightarrow> at b q s" using 1(2) by auto
    have "lands ?R (bindR (check_include inc n s) (\<lambda>is. Inr (True, the n, is)))"
    proof (cases n)
      case None
      then show ?thesis by (simp add: check_include_def get_node_def)
    next
      case (Some q)
      show ?thesis
        by (rule lands_bind [OF check_include_parses [OF assms(1) parses_refl [OF parsesD(1) [OF p(1)] refl]]])
          (use p Some in \<open>auto intro: parses_trans at_parses\<close>)
    qed
    then show ?case using p by simp
  qed
  show ?thesis unfolding markup_def b0 b1 Let_def prod.case
    using stay [OF doctype_lands [OF parses_refl [OF parsesD(1) [OF p1(1)] refl]] p1]
      stay [OF pi_lands [OF parses_refl [OF parsesD(1) [OF p0(1)] refl]] p0]
      comment [unfolded Let_def] tag end_tag
    by simp
qed

lemma text_end_parses:
  assumes "parses b is0 is" "at b node is"
  shows "lands (parses b is0) (text_end node spaceOnly is)"
proof -
  have "parses b is0 (is\<lparr>is_length := 0\<rparr>)" using assms(1) by (rule parses_hc(1)) simp
  then show ?thesis using assms
    by (auto simp: text_end_def get_node_def at_def intro!: lands_bind [OF get_token_parses] set_value_parses)
      (auto simp: hc_def)
qed

lemma parse_loop_parses:
  assumes "includes_within b inc" "parses b is0 is" "at b node is"
  shows "lands (\<lambda>(ok, is'). parses b is0 is') (parse_loop inc node spaceOnly is)"
  using assms
proof (induction inc node spaceOnly "is" rule: parse_loop.induct)
  case (1 inc node spaceOnly "is")
  obtain c s where b: "buf_read is = (c, s)" by (rule prod.exhaust)
  have p: "parses b is0 s" "at b node s" using 1(5,6) buf_readD [OF b] by (auto intro: parses_hc(1) at_hc)
  have more: "lands (\<lambda>(ok, is'). parses b is0 is') (bindR (buf_append s c) f)"
    if "\<And>s'. buf_append s c = Inr s' \<Longrightarrow> parses b is0 s' \<Longrightarrow> at b node s' \<Longrightarrow> lands (\<lambda>(ok, is'). parses b is0 is') (f s')" for f
  proof (rule lands_bind [OF lands_buf_append])
    fix s' assume s': "buf_append s c = Inr s'" "hc s' = hc s"
    then have "parses b is0 s'" "at b node s'" using p by (auto intro: parses_hc(1) at_hc)
    then show "lands (\<lambda>(ok, is'). parses b is0 is') (f s')" using that s'(1) by blast
  qed
  have tag: "lands (\<lambda>(ok, is'). parses b is0 is')
      (bindR (text_end node spaceOnly s) (\<lambda>is.
          bindR (markup inc node is) (\<lambda>r. case r of (ok, node, is) \<Rightarrow>
            if ok then parse_loop inc node spaceOnly is else Inr (False, is))))"
    if c: "\<not> c < 0" "\<not> (c = code_of (CHR '' '') \<or> c = 9 \<or> c = 10 \<or> c = 12)" "c = code_of (CHR ''<'')"
  proof (rule lands_bind [OF text_end_parses [OF parses_refl [OF parsesD(1) [OF p(1)] refl] p(2)]])
    fix s2 assume s2: "text_end node spaceOnly s = Inr s2" "parses b s s2"
    have p2: "parses b is0 s2" "at b node s2" using p s2(2) by (auto intro: parses_trans at_parses)
    show "lands (\<lambda>(ok, is'). parses b is0 is') (bindR (markup inc node s2) (\<lambda>r. case r of (ok, node, is) \<Rightarrow>
            if ok then parse_loop inc node spaceOnly is else Inr (False, is)))"
    proof (rule lands_bind [OF markup_parses [OF 1(4) p2]])
      fix r assume r: "markup inc node s2 = Inr r" "case r of (ok, node', is') \<Rightarrow> parses b is0 is' \<and> (ok \<longrightarrow> at b node' is')"
      obtain ok n s3 where [simp]: "r = (ok, n, s3)" by (rule prod_cases3)
      show "lands (\<lambda>(ok, is'). parses b is0 is') (case r of (ok, node, is) \<Rightarrow>
            if ok then parse_loop inc node spaceOnly is else Inr (False, is))"
        using 1(2) [OF b [symmetric] c s2(1) r(1), of ok "(n, s3)" n s3] r(2) 1(4) by auto
    qed
  qed
  show ?case unfolding parse_loop.simps [of inc node spaceOnly "is"] b prod.case
    using p(1) more [of "\<lambda>is. parse_loop inc node spaceOnly is"] more [of "\<lambda>is. parse_loop inc node False is"] tag
      1(1) [OF b [symmetric]] 1(3) [OF b [symmetric]] 1(4)
    by simp
qed

lemma opens_well_includes: "opens_well f \<Longrightarrow> includes_within b (parse_include f path)"
  by (simp add: includes_within_def parse_include_within)

lemma parse_file_lands:
  assumes "opens_well f"
  shows "lands (\<lambda>(root, h', c'). within (length h) (h, c) (h', c') \<and> length h < length h' \<and>
      (root = None \<or> root = Some (length h))) (parse_file junk f content path (h, c))"
proof -
  let ?is = "\<lparr>is_config = c, is_heap = h @ [new_node []], is_input = content, is_path = path, is_line = 1,
           is_buf = fresh_memory junk 1024, is_length = 0, is_capacity = 1024, is_junk = junk\<rparr>"
  have r: "region (length h) (is_heap ?is)"
    using region_snoc [OF region_empty [OF order_refl], of h "new_node []"] by (simp add: linked_def new_node_def)
  have at: "at (length h) (length h) ?is" by (simp add: at_def)
  have "lands (\<lambda>(ok, is'). parses (length h) ?is is') (parse_loop (parse_include f path) (length h) True ?is)"
    by (rule parse_loop_parses [OF opens_well_includes [OF assms] parses_refl [OF r refl] at])
  then show ?thesis unfolding parse_file_def Let_def prod.case
    by (rule lands_bind) (auto simp: parses_def within_def hc_def)
qed

lemma cse_parse_lands:
  "lands (\<lambda>(root, h', c'). within (length h) (h, c) (h', c') \<and> length h < length h' \<and>
      (root = None \<or> root = Some (length h))) (cse_parse junk files handles content path (h, c))"
proof (induction handles arbitrary: content path h c)
  case 0
  show ?case unfolding cse_parse.simps
    by (rule parse_file_lands) (simp add: opens_well_def)
next
  case (Suc handles)
  show ?case unfolding cse_parse.simps
  proof (rule parse_file_lands)
    have "lands (\<lambda>(opened, hc'). within (length h) (h, c) hc' \<and> (\<forall>r. opened = Some (Some r) \<longrightarrow> length h \<le> r \<and> r < length (fst hc')))
        (bindR (cse_parse junk files handles content path (h, c)) (\<lambda>(root, hc). Inr (Some root, hc)))" for h c content path
      by (rule lands_bind [OF Suc]) auto
    then show "opens_well (\<lambda>subpath hc. case files subpath of None \<Rightarrow> Inr (None, hc)
        | Some content \<Rightarrow> bindR (cse_parse junk files handles content subpath hc) (\<lambda>(root, hc). Inr (Some root, hc)))"
      by (auto simp: opens_well_def split: option.split)
  qed
qed

subsection \<open>Comments and processing instructions\<close>

text \<open>\<open>n\<close> characters of the input have been read.\<close>

definition advanced :: "nat \<Rightarrow> rstream \<Rightarrow> rstream" where
  "advanced n is = is\<lparr>is_input := drop n (is_input is),
     is_line := is_line is + int (count_list (take n (is_input is)) (CHR 0x0A))\<rparr>"

definition through :: "string \<Rightarrow> nat \<Rightarrow> string \<Rightarrow> string \<Rightarrow> rstream \<Rightarrow> rstream res" where
  "through pat k lead msg is =
     (case strstr (lead @ is_input is) pat of
        Some n \<Rightarrow> Inr (advanced (n + length pat - k) is)
      | None \<Rightarrow> parse_error msg (advanced (length (is_input is)) is))"

lemma advanced_0 [simp]: "advanced 0 is = is"
  by (simp add: advanced_def)

lemma buf_read_Nil: "is_input is = [] \<Longrightarrow> buf_read is = (-1, is)"
  by (simp add: buf_read_def)

lemma buf_read_Cons: "is_input is = c # cs \<Longrightarrow> buf_read is = (code_of c, advanced (Suc 0) is)"
  by (simp add: buf_read_def advanced_def)

lemma advanced_Suc: "is_input is = c # cs \<Longrightarrow> advanced n (advanced (Suc 0) is) = advanced (Suc n) is"
  by (simp add: advanced_def)

lemma advanced_input [simp]: "is_input (advanced n is) = drop n (is_input is)"
  by (simp add: advanced_def)

text \<open>The characters the two scans look for, as numbers.\<close>

lemma mark_codes:
  "code_of c = 45 \<longleftrightarrow> c = CHR ''-''" "code_of c = 62 \<longleftrightarrow> c = CHR ''>''" "code_of c = 63 \<longleftrightarrow> c = CHR ''?''"
  using of_char_eq_iff [of c "CHR ''-''", where 'a = int] of_char_eq_iff [of c "CHR ''>''", where 'a = int]
    of_char_eq_iff [of c "CHR ''?''", where 'a = int]
  by simp_all

text \<open>How the search moves on by one character.\<close>

abbreviation (input) comment_msg :: string where "comment_msg \<equiv> ''expected comment end at end of file''"
abbreviation (input) pi_msg :: string where "pi_msg \<equiv> ''expected pi end at end of file''"

lemma through_end:
  "is_input is = [] \<Longrightarrow> k < 3 \<Longrightarrow> through ''-->'' k (replicate k (CHR ''-'')) msg is = parse_error msg is"
  "is_input is = [] \<Longrightarrow> k < 2 \<Longrightarrow> through ''?>'' k (replicate k (CHR ''?'')) msg is = parse_error msg is"
  by (auto simp: through_def numeral_eq_Suc less_Suc_eq)

lemma through_comment:
  assumes "is_input is = c # cs"
  shows "through ''-->'' 0 [] msg is =
      (if c = CHR ''-'' then through ''-->'' (Suc 0) ''-'' msg (advanced (Suc 0) is) else through ''-->'' 0 [] msg (advanced (Suc 0) is))"
    "through ''-->'' (Suc 0) ''-'' msg is =
      (if c = CHR ''-'' then through ''-->'' 2 ''--'' msg (advanced (Suc 0) is) else through ''-->'' 0 [] msg (advanced (Suc 0) is))"
    "through ''-->'' 2 ''--'' msg is =
      (if c = CHR ''>'' then Inr (advanced (Suc 0) is) else if c = CHR ''-'' then through ''-->'' 2 ''--'' msg (advanced (Suc 0) is)
       else through ''-->'' 0 [] msg (advanced (Suc 0) is))"
  using assms by (auto simp: through_def advanced_Suc [OF assms] Suc_diff_le split: option.split)

lemma through_pi:
  assumes "is_input is = c # cs"
  shows "through ''?>'' 0 [] msg is =
      (if c = CHR ''?'' then through ''?>'' (Suc 0) ''?'' msg (advanced (Suc 0) is) else through ''?>'' 0 [] msg (advanced (Suc 0) is))"
    "through ''?>'' (Suc 0) ''?'' msg is =
      (if c = CHR ''>'' then Inr (advanced (Suc 0) is) else if c = CHR ''?'' then through ''?>'' (Suc 0) ''?'' msg (advanced (Suc 0) is)
       else through ''?>'' 0 [] msg (advanced (Suc 0) is))"
  using assms by (auto simp: through_def advanced_Suc [OF assms] Suc_diff_le split: option.split)

lemma comment_through:
  "comment_text is = through ''-->'' 0 [] comment_msg is"
  "comment_dash ch is = (if ch = code_of (CHR ''-'') then through ''-->'' (Suc 0) ''-'' comment_msg is
     else through ''-->'' 0 [] comment_msg is)"
  "comment_end ch is = (if ch = code_of (CHR ''-'') then through ''-->'' 2 ''--'' comment_msg is
     else through ''-->'' 0 [] comment_msg is)"
proof (induction "is" and ch "is" and ch "is" rule: comment_text_comment_dash_comment_end.induct)
  case (1 "is")
  show ?case
  proof (cases "is_input is")
    case Nil
    then show ?thesis using through_end(1) [OF Nil, of 0] by (simp add: comment_text.simps [of "is"] buf_read_Nil)
  next
    case (Cons c cs)
    then show ?thesis using 1 [OF buf_read_Cons [OF Cons, symmetric]]
      by (simp add: comment_text.simps [of "is"] buf_read_Cons through_comment(1) mark_codes of_char_less)
  qed
next
  case (2 ch "is")
  show ?case
  proof (cases "is_input is")
    case Nil
    then show ?thesis using through_end(1) [OF Nil, of 0] through_end(1) [OF Nil, of "Suc 0"] 2
      by (simp add: comment_dash.simps [of ch "is"] buf_read_Nil)
  next
    case (Cons c cs)
    then show ?thesis using 2(1) [OF _ buf_read_Cons [OF Cons, symmetric]] 2(2)
      by (simp add: comment_dash.simps [of ch "is"] buf_read_Cons through_comment(2) mark_codes)
  qed
next
  case (3 ch "is")
  show ?case
  proof (cases "is_input is")
    case Nil
    then show ?thesis using through_end(1) [OF Nil, of 0] through_end(1) [OF Nil, of 2] 3
      by (simp add: comment_end.simps [of ch "is"] buf_read_Nil numeral_eq_Suc)
  next
    case (Cons c cs)
    then show ?thesis using 3(1) [OF _ buf_read_Cons [OF Cons, symmetric]] 3(2)
      by (simp add: comment_end.simps [of ch "is"] buf_read_Cons through_comment(3) mark_codes)
  qed
qed

lemma pi_through:
  "pi_text is = through ''?>'' 0 [] pi_msg is"
  "pi_mark ch is = (if ch = code_of (CHR ''?'') then through ''?>'' (Suc 0) ''?'' pi_msg is else through ''?>'' 0 [] pi_msg is)"
proof (induction "is" and ch "is" rule: pi_text_pi_mark.induct)
  case (1 "is")
  show ?case
  proof (cases "is_input is")
    case Nil
    then show ?thesis using through_end(2) [OF Nil, of 0] by (simp add: pi_text.simps [of "is"] buf_read_Nil)
  next
    case (Cons c cs)
    then show ?thesis using 1 [OF buf_read_Cons [OF Cons, symmetric]]
      by (simp add: pi_text.simps [of "is"] buf_read_Cons through_pi(1) mark_codes of_char_less)
  qed
next
  case (2 ch "is")
  show ?case
  proof (cases "is_input is")
    case Nil
    then show ?thesis using through_end(2) [OF Nil, of 0] through_end(2) [OF Nil, of "Suc 0"] 2
      by (simp add: pi_mark.simps [of ch "is"] buf_read_Nil)
  next
    case (Cons c cs)
    then show ?thesis using 2(1) [OF _ buf_read_Cons [OF Cons, symmetric]] 2(2)
      by (simp add: pi_mark.simps [of ch "is"] buf_read_Cons through_pi(2) mark_codes)
  qed
qed

subsection \<open>Properties\<close>



text \<open>
  C37: the nested loops of the comment and the instruction scanner find the first end mark, like a
  substring search, also behind runs of dashes or question marks; the input continues right
  after it, with the lines counted. Without an end mark the rest of the file is skipped and the
  error recorded.
\<close>

theorem skips_to_first_end_mark:
  "skip_comment is = (case strstr (is_input is) ''-->'' of
       Some n \<Rightarrow> Inr (advanced (n + 3) is)
     | None \<Rightarrow> parse_error ''expected comment end at end of file'' (advanced (length (is_input is)) is)) \<and>
   skip_pi is = (case strstr (is_input is) ''?>'' of
       Some n \<Rightarrow> Inr (advanced (n + 2) is)
     | None \<Rightarrow> parse_error ''expected pi end at end of file'' (advanced (length (is_input is)) is))"
  by (auto simp: skip_comment_def skip_pi_def comment_through(1) pi_through(1) through_def numeral_eq_Suc split: option.split)

end
