(* ===== verification/Cse_Tree.thy ===== *)
theory Cse_Tree
  imports Cse_Parse
begin

text \<open>
  Documents, the trees they stand for, and the trees on the heap.
  \<^item> An \<open>elem\<close> is an element as it is written, \<open>render\<close> its text; \<open>tree\<close> is a registry node with
    its children, without the pointers.
  \<^item> \<open>denote\<close> says which trees a document stands for, with the parser's rules for attributes and
    text: an \<open>id\<close> attribute is the value of its element, the other attributes come before the
    children, text counts only directly behind the start tag, and an include stands for the trees
    of its file. \<open>file_trees\<close> is the meaning of a file among other files.
  \<^item> \<open>laid\<close> is a segment of siblings on the heap, \<open>built\<close> a node with its trees, while it is being
    filled: the nodes of a tree follow each other in the order of the document. There are gaps
    between them where an include has been.
  \<^item> The last part is the splice that puts an included tree in place of its include.
\<close>

subsection \<open>Documents and trees\<close>

datatype tree = Node (tree_key: string) (tree_value: "string option") (tree_kids: "tree list")

datatype elem =
    Elem string "(string \<times> string) list" string "elem list" string
  | Empty string "(string \<times> string) list" string
  | Include string string

definition render_attr :: "string \<times> string \<Rightarrow> string" where
  "render_attr a = '' '' @ fst a @ [CHR ''='', CHR 0x22] @ snd a @ [CHR 0x22]"

text \<open>
  The strings are the text after the start tag and the text after the element; for an include
  the path and the text after it.
\<close>

fun render :: "elem list \<Rightarrow> string" where
  "render [] = []"
| "render (Elem k as body kids tail # es) =
     ''<'' @ k @ concat (map render_attr as) @ ''>'' @ body @ render kids @ ''</'' @ k @ ''>'' @ tail @ render es"
| "render (Empty k as tail # es) = ''<'' @ k @ concat (map render_attr as) @ ''/>'' @ tail @ render es"
| "render (Include f tail # es) = ''<resin:include'' @ render_attr (''href'', f) @ ''/>'' @ tail @ render es"

definition white_char :: "char \<Rightarrow> bool" where
  "white_char c \<longleftrightarrow> c \<in> {CHR '' '', CHR 0x09, CHR 0x0A, CHR 0x0C}"

definition white :: "string \<Rightarrow> bool" where
  "white s \<longleftrightarrow> list_all white_char s"

definition attr_step :: "string option \<times> tree list \<Rightarrow> string \<times> string \<Rightarrow> string option \<times> tree list" where
  "attr_step x a = (if fst a = ''id'' then (Some (snd a), snd x) else (fst x, snd x @ [Node (fst a) (Some (snd a)) []]))"

text \<open>The value of a node when the text before the next tag has been seen.\<close>

definition settle :: "bool \<Rightarrow> string option \<Rightarrow> tree list \<Rightarrow> string \<Rightarrow> string option" where
  "settle spaceOnly v ts body = (if spaceOnly \<or> v \<noteq> None \<or> ts \<noteq> [] then v else Some body)"

text \<open>
  What an include stands for, when \<open>ts\<close> are the trees of its file: these, or itself when the file
  has none or is not there.
\<close>

definition included :: "string \<Rightarrow> tree list \<Rightarrow> tree list" where
  "included f ts = (if ts = [] then [Node ''resin:include'' None [Node ''href'' (Some f) []]] else ts)"

text \<open>
  The flag is the parser's \<open>spaceOnly\<close>, which is never set again; \<open>I\<close> gives the trees of the
  included files.
\<close>

fun denote :: "(string \<Rightarrow> tree list) \<Rightarrow> bool \<Rightarrow> elem list \<Rightarrow> bool \<times> tree list" where
  "denote I so [] = (so, [])"
| "denote I so (Elem k as body kids tail # es) =
     (let (v, ats) = foldl attr_step (None, []) as;
          so1 = (so \<and> white body);
          (so2, ts) = denote I so1 kids;
          (so3, us) = denote I (so2 \<and> white tail) es
      in (so3, Node k (settle so1 v ats body) (ats @ ts) # us))"
| "denote I so (Empty k as tail # es) =
     (let (v, ats) = foldl attr_step (None, []) as;
          (so3, us) = denote I (so \<and> white tail) es
      in (so3, Node k v ats # us))"
| "denote I so (Include f tail # es) =
     (let (so3, us) = denote I (so \<and> white tail) es in (so3, included f (I f) @ us))"

text \<open>Files that hold documents: the white space before the first element, and the elements.\<close>

type_synonym docs = "string \<Rightarrow> (string \<times> elem list) option"

text \<open>\<open>n\<close> is the number of files that can still be opened for includes.\<close>

primrec file_trees :: "docs \<Rightarrow> nat \<Rightarrow> string \<Rightarrow> tree list" where
  "file_trees docs 0 path = (case docs path of None \<Rightarrow> [] | Some (lead, es) \<Rightarrow> snd (denote (\<lambda>f. []) True es))"
| "file_trees docs (Suc n) path =
     (case docs path of
        None \<Rightarrow> []
      | Some (lead, es) \<Rightarrow>
          snd (denote (\<lambda>f. case include_path path f of Inl _ \<Rightarrow> [] | Inr sub \<Rightarrow> file_trees docs n sub) True es))"

text \<open>Names, attribute values and text that the parser reads as they stand.\<close>

definition tag_ok :: "string \<Rightarrow> bool" where
  "tag_ok k \<longleftrightarrow> k \<noteq> [] \<and> length k \<le> 1022 \<and> is_cstring k \<and> (\<forall>c \<in> set k. in_name (code_of c))"

definition name_ok :: "string \<Rightarrow> bool" where
  "name_ok k \<longleftrightarrow> tag_ok k \<and> k \<noteq> ''resin:include''"

definition attr_ok :: "string \<times> string \<Rightarrow> bool" where
  "attr_ok a \<longleftrightarrow> name_ok (fst a) \<and> length (snd a) \<le> 1022 \<and> is_cstring (snd a) \<and> CHR 0x22 \<notin> set (snd a)"

text \<open>
  Elements that the parser reads as they stand. The flag says that the parent has no child yet:
  there an include would hide what follows it.
\<close>

fun elems_ok :: "bool \<Rightarrow> elem list \<Rightarrow> bool" where
  "elems_ok first [] = True"
| "elems_ok first (Elem k as body kids tail # es) =
     (name_ok k \<and> hd k \<noteq> CHR ''!'' \<and> hd k \<noteq> CHR ''?'' \<and> list_all attr_ok as \<and> length body \<le> 1022 \<and>
      is_cstring body \<and> CHR ''<'' \<notin> set body \<and> CHR ''<'' \<notin> set tail \<and>
      elems_ok (snd (foldl attr_step (None, []) as) = []) kids \<and> elems_ok False es)"
| "elems_ok first (Empty k as tail # es) =
     (name_ok k \<and> hd k \<noteq> CHR ''!'' \<and> hd k \<noteq> CHR ''?'' \<and> list_all attr_ok as \<and> CHR ''<'' \<notin> set tail \<and> elems_ok False es)"
| "elems_ok first (Include f tail # es) =
     (\<not> first \<and> f \<noteq> [] \<and> attr_ok (''href'', f) \<and> CHR ''<'' \<notin> set tail \<and> elems_ok False es)"

fun hrefs :: "elem list \<Rightarrow> string list" where
  "hrefs [] = []"
| "hrefs (Elem k as body kids tail # es) = hrefs kids @ hrefs es"
| "hrefs (Empty k as tail # es) = hrefs es"
| "hrefs (Include f tail # es) = f # hrefs es"

text \<open>
  Files that are documents, and whose includes name other such files or none at all, by paths
  that fit the parser's array.
\<close>

definition docs_ok :: "(string \<Rightarrow> string option) \<Rightarrow> docs \<Rightarrow> bool" where
  "docs_ok files docs \<longleftrightarrow> (\<forall>path lead es. docs path = Some (lead, es) \<longrightarrow>
     files path = Some (lead @ render es) \<and> white lead \<and> elems_ok True es \<and>
     (\<forall>f \<in> set (hrefs es). \<exists>sub. include_path path f = Inr sub \<and> (docs sub = None \<longrightarrow> files sub = None)))"

subsection \<open>Trees on the heap\<close>

text \<open>
  \<open>laid h p lo hi q ts e\<close>: from the pointer \<open>q\<close> on, the links lead along the trees \<open>ts\<close> to the
  pointer \<open>e\<close>. The trees are children of the node \<open>p\<close>, and their nodes follow each other at addresses from \<open>lo\<close> to
  before \<open>hi\<close>.
\<close>

fun laid :: "heap \<Rightarrow> nat \<Rightarrow> nat \<Rightarrow> nat \<Rightarrow> nat option \<Rightarrow> tree list \<Rightarrow> nat option \<Rightarrow> bool" where
  "laid h p lo hi q [] e \<longleftrightarrow> q = e \<and> lo \<le> hi"
| "laid h p lo hi q (Node k v us # ts) e \<longleftrightarrow> (\<exists>a m. q = Some a \<and> lo \<le> a \<and>
     n_key (h ! a) = k \<and> n_value (h ! a) = v \<and> n_parent (h ! a) = Some p \<and>
     laid h a (Suc a) m (n_first (h ! a)) us None \<and> laid h p m hi (n_next (h ! a)) ts e)"

fun last_root :: "heap \<Rightarrow> nat option \<Rightarrow> tree list \<Rightarrow> nat option" where
  "last_root h q [] = None"
| "last_root h q (t # ts) = (if ts = [] then q else last_root h (n_next (h ! the q)) ts)"

text \<open>The node \<open>p\<close> at the end of the heap, with everything behind it below it.\<close>

definition built :: "heap \<Rightarrow> nat \<Rightarrow> nat option \<Rightarrow> string \<Rightarrow> string option \<Rightarrow> tree list \<Rightarrow> bool" where
  "built h p par k v ts \<longleftrightarrow>
     p < length h \<and> n_parent (h ! p) = par \<and> n_key (h ! p) = k \<and> n_value (h ! p) = v \<and> n_next (h ! p) = None \<and>
     n_last (h ! p) = last_root h (n_first (h ! p)) ts \<and> laid h p (Suc p) (length h) (n_first (h ! p)) ts None"

text \<open>The same with a further child at the address \<open>c\<close>, behind the child \<open>z\<close>.\<close>

definition building :: "heap \<Rightarrow> nat \<Rightarrow> nat option \<Rightarrow> string \<Rightarrow> string option \<Rightarrow> tree list \<Rightarrow> nat \<Rightarrow> nat option \<Rightarrow> bool" where
  "building h p par k v ts c z \<longleftrightarrow>
     p < c \<and> n_parent (h ! p) = par \<and> n_key (h ! p) = k \<and> n_value (h ! p) = v \<and> n_next (h ! p) = None \<and>
     n_last (h ! p) = Some c \<and> laid h p (Suc p) c (n_first (h ! p)) ts (Some c) \<and> last_root h (n_first (h ! p)) ts = z"

lemma laid_le: "laid h p lo hi q ts e \<Longrightarrow> lo \<le> hi"
proof (induction h p lo hi q ts e rule: laid.induct)
  case (2 h p lo hi q k v us ts e)
  then obtain a m where "lo \<le> a" "laid h a (Suc a) m (n_first (h ! a)) us None" "laid h p m hi (n_next (h ! a)) ts e" by auto
  then show ?case using 2(1) 2(2) by fastforce
qed simp

lemma laid_mono: "laid h p lo hi q ts e \<Longrightarrow> lo' \<le> lo \<Longrightarrow> hi \<le> hi' \<Longrightarrow> laid h p lo' hi' q ts e"
proof (induction ts arbitrary: q lo lo')
  case (Cons t ts)
  then show ?case by (cases t) (fastforce intro: order_trans)
qed simp

lemma laid_cong:
  "laid h p lo hi q ts e \<Longrightarrow> (\<And>i. lo \<le> i \<Longrightarrow> i < hi \<Longrightarrow> h' ! i = h ! i) \<Longrightarrow> laid h' p lo hi q ts e"
proof (induction h p lo hi q ts e rule: laid.induct)
  case (2 h p lo hi q k v us ts e)
  then obtain a m where a: "q = Some a" "lo \<le> a" "n_key (h ! a) = k" "n_value (h ! a) = v" "n_parent (h ! a) = Some p"
    "laid h a (Suc a) m (n_first (h ! a)) us None" "laid h p m hi (n_next (h ! a)) ts e" by auto
  have le: "Suc a \<le> m" "m \<le> hi" using laid_le a(6,7) by blast+
  have "h' ! a = h ! a" using 2(4) a(2) le by simp
  moreover have "laid h' a (Suc a) m (n_first (h ! a)) us None" by (rule 2(1) [OF a(6)]) (use 2(4) a(2) le in simp)
  moreover have "laid h' p m hi (n_next (h ! a)) ts e" by (rule 2(2) [OF a(7)]) (use 2(4) a(2) le in simp)
  ultimately show ?case using a by auto
qed simp

lemma laid_append: "laid h p lo hi q (ts @ us) e \<longleftrightarrow> (\<exists>m r. laid h p lo m q ts r \<and> laid h p m hi r us e)"
proof (induction ts arbitrary: lo q)
  case Nil
  then show ?case using laid_le laid_mono by (fastforce intro: exI [of _ lo])
next
  case (Cons t ts)
  then show ?case by (cases t) (simp, blast)
qed

lemma laid_length: "laid h p lo hi q ts e \<Longrightarrow> lo + length ts \<le> hi"
proof (induction ts arbitrary: lo q)
  case (Cons t ts)
  obtain k v us where t: "t = Node k v us" by (cases t)
  obtain a m where a: "lo \<le> a" "laid h a (Suc a) m (n_first (h ! a)) us None" "laid h p m hi (n_next (h ! a)) ts e"
    using Cons.prems by (auto simp: t)
  show ?case using Cons.IH [OF a(3)] laid_le [OF a(2)] a(1) by simp
qed simp

lemma last_root_append: "laid h p lo hi q ts e \<Longrightarrow> us \<noteq> [] \<Longrightarrow> last_root h q (ts @ us) = last_root h e us"
proof (induction ts arbitrary: lo q)
  case (Cons t ts)
  then show ?case by (cases t) auto
qed simp

lemma laid_last:
  assumes "laid h p lo hi q ts e" "ts \<noteq> []"
  obtains l where "last_root h q ts = Some l" "lo \<le> l" "l < hi" "n_next (h ! l) = e" "n_key (h ! l) = tree_key (last ts)"
proof -
  obtain us t where ts: "ts = us @ [t]" using assms(2) by (metis rev_exhaust)
  obtain m r where u: "laid h p lo m q us r" "laid h p m hi r [t] e" using assms(1) unfolding ts laid_append by blast
  obtain k v ws where t: "t = Node k v ws" by (cases t)
  obtain a n where a: "r = Some a" "m \<le> a" "n_key (h ! a) = k" "laid h a (Suc a) n (n_first (h ! a)) ws None" "n_next (h ! a) = e" "n \<le> hi"
    using u(2) by (auto simp: t)
  have "last_root h q ts = Some a" using last_root_append [OF u(1), of "[t]"] a(1) by (simp add: ts)
  then show thesis by (rule that) (use a laid_le [OF u(1)] laid_le [OF a(4)] in \<open>auto simp: ts t\<close>)
qed

text \<open>Two heaps that differ in the link of the last node.\<close>

lemma laid_relink:
  assumes "laid h p lo hi q ts e" "last_root h q ts = Some l"
    and "\<And>i. lo \<le> i \<Longrightarrow> i < hi \<Longrightarrow> i \<noteq> l \<Longrightarrow> h' ! i = h ! i" "h' ! l = (h ! l)\<lparr>n_next := e'\<rparr>"
  shows "laid h' p lo hi q ts e' \<and> last_root h' q ts = Some l"
  using assms
proof (induction ts arbitrary: lo q)
  case (Cons t ts)
  obtain k v us where t: "t = Node k v us" by (cases t)
  obtain a m where a: "q = Some a" "lo \<le> a" "n_key (h ! a) = k" "n_value (h ! a) = v" "n_parent (h ! a) = Some p"
    "laid h a (Suc a) m (n_first (h ! a)) us None" "laid h p m hi (n_next (h ! a)) ts e"
    using Cons.prems(1) by (auto simp: t)
  note le = laid_le [OF a(6)] laid_le [OF a(7)]
  have l: "a \<le> l" "a < l \<longrightarrow> m \<le> l"
  proof -
    have "m \<le> l \<and> l < hi" if "ts \<noteq> []"
      by (rule laid_last [OF a(7) that]) (use Cons.prems(2) a(1) that in auto)
    then show "a \<le> l" "a < l \<longrightarrow> m \<le> l" using Cons.prems(2) a(1) le by (cases "ts = []"; simp)+
  qed
  have us: "laid h' a (Suc a) m (n_first (h ! a)) us None"
    by (rule laid_cong [OF a(6)]) (use Cons.prems(3) a(2) le l in auto)
  show ?case
  proof (cases "ts = []")
    case True
    then have "l = a" using Cons.prems(2) a(1) by simp
    then show ?thesis using a us le Cons.prems(4) True by (auto simp: t)
  next
    case False
    then have "last_root h (n_next (h ! a)) ts = Some l" using Cons.prems(2) a(1) by simp
    moreover have "a \<noteq> l" using laid_last [OF a(7) False] le calculation by force
    ultimately have "laid h' p m hi (n_next (h ! a)) ts e' \<and> last_root h' (n_next (h ! a)) ts = Some l" "h' ! a = h ! a"
      using Cons.IH [OF a(7)] Cons.prems(3,4) a(2) le by simp_all
    then show ?thesis using a us False by (auto simp: t)
  qed
qed simp

lemma last_root_cong:
  assumes "laid h p lo hi q ts e" "\<And>i. lo \<le> i \<Longrightarrow> i < hi \<Longrightarrow> n_next (h' ! i) = n_next (h ! i)"
  shows "last_root h' q ts = last_root h q ts"
  using assms
proof (induction ts arbitrary: lo q)
  case (Cons t ts)
  obtain k v us where t: "t = Node k v us" by (cases t)
  obtain a m where a: "q = Some a" "lo \<le> a" "laid h a (Suc a) m (n_first (h ! a)) us None" "laid h p m hi (n_next (h ! a)) ts e"
    using Cons.prems(1) by (auto simp: t)
  note le = laid_le [OF a(3)] laid_le [OF a(4)]
  have "last_root h' (n_next (h ! a)) ts = last_root h (n_next (h ! a)) ts"
    by (rule Cons.IH [OF a(4)]) (use Cons.prems(2) a(2) le in auto)
  moreover have "n_next (h' ! a) = n_next (h ! a)" using Cons.prems(2) a(2) le by simp
  ultimately show ?case using a(1) by (simp add: t)
qed simp

text \<open>The roots of the trees, and giving them another parent.\<close>

fun roots :: "heap \<Rightarrow> nat option \<Rightarrow> tree list \<Rightarrow> nat list" where
  "roots h q [] = []"
| "roots h q (t # ts) = the q # roots h (n_next (h ! the q)) ts"

lemma siblings_laid:
  assumes "laid h p lo hi q ts None" "hi \<le> length h"
  shows "siblings h q = Inr (roots h q ts)"
proof -
  have "chain h n q = Inr (roots h q ts)" if "length ts < n" for n
    using assms(1) that
  proof (induction ts arbitrary: lo q n)
    case Nil
    then show ?case by (cases n) simp_all
  next
    case (Cons t ts)
    obtain k v us where t: "t = Node k v us" by (cases t)
    obtain a m where a: "q = Some a" "laid h a (Suc a) m (n_first (h ! a)) us None" "laid h p m hi (n_next (h ! a)) ts None"
      using Cons.prems(1) by (auto simp: t)
    obtain n' where n: "n = Suc n'" "length ts < n'" using Cons.prems(2) by (cases n) auto
    have "a < length h" using laid_le [OF a(2)] laid_le [OF a(3)] assms(2) by simp
    then show ?case using a(1) Cons.IH [OF a(3) n(2)] n(1) by (simp add: get_node_def)
  qed
  moreover have "length ts < Suc (length h)" using laid_length [OF assms(1)] assms(2) by simp
  ultimately show ?thesis by (simp add: siblings_def)
qed

lemma roots_bounds: "laid h p lo hi q ts e \<Longrightarrow> i \<in> set (roots h q ts) \<Longrightarrow> lo \<le> i \<and> i < hi"
proof (induction ts arbitrary: lo q)
  case (Cons t ts)
  obtain k v us where t: "t = Node k v us" by (cases t)
  obtain a m where a: "q = Some a" "lo \<le> a" "laid h a (Suc a) m (n_first (h ! a)) us None" "laid h p m hi (n_next (h ! a)) ts e"
    using Cons.prems(1) by (auto simp: t)
  note le = laid_le [OF a(3)] laid_le [OF a(4)]
  show ?case
  proof (cases "i = a")
    case True
    then show ?thesis using a(2) le by simp
  next
    case False
    then have "i \<in> set (roots h (n_next (h ! a)) ts)" using Cons.prems(2) a(1) by simp
    from Cons.IH [OF a(4) this] show ?thesis using a(2) le by simp
  qed
qed simp

lemma laid_adopt:
  assumes "laid h r lo hi q ts e"
    and "\<And>i. lo \<le> i \<Longrightarrow> i < hi \<Longrightarrow> h' ! i = (if i \<in> set (roots h q ts) then (h ! i)\<lparr>n_parent := Some p\<rparr> else h ! i)"
  shows "laid h' p lo hi q ts e"
  using assms
proof (induction ts arbitrary: lo q)
  case (Cons t ts)
  obtain k v us where t: "t = Node k v us" by (cases t)
  obtain a m where a: "q = Some a" "lo \<le> a" "n_key (h ! a) = k" "n_value (h ! a) = v"
    "laid h a (Suc a) m (n_first (h ! a)) us None" "laid h r m hi (n_next (h ! a)) ts e"
    using Cons.prems(1) by (auto simp: t)
  note le = laid_le [OF a(5)] laid_le [OF a(6)]
  have ha: "h' ! a = (h ! a)\<lparr>n_parent := Some p\<rparr>" using Cons.prems(2) [of a] a(1,2) le by simp
  have rest: "m \<le> i" if "i \<in> set (roots h (n_next (h ! a)) ts)" for i using roots_bounds [OF a(6) that] by simp
  have "laid h' a (Suc a) m (n_first (h ! a)) us None"
  proof (rule laid_cong [OF a(5)])
    fix i assume i: "Suc a \<le> i" "i < m"
    then have "i \<notin> set (roots h q (t # ts))" using rest [of i] a(1) by auto
    then show "h' ! i = h ! i" using Cons.prems(2) [of i] i a(2) le by simp
  qed
  moreover have "laid h' p m hi (n_next (h ! a)) ts e"
  proof (rule Cons.IH [OF a(6)])
    fix i assume i: "m \<le> i" "i < hi"
    then show "h' ! i = (if i \<in> set (roots h (n_next (h ! a)) ts) then (h ! i)\<lparr>n_parent := Some p\<rparr> else h ! i)"
      using Cons.prems(2) [of i] a(1,2) le by auto
  qed
  ultimately show ?case using a(1-4) ha by (auto simp: t)
qed simp

lemma built_value: "built h p par k v ts \<Longrightarrow> built (upd_node p (\<lambda>n. n\<lparr>n_value := Some x\<rparr>) h) p par k (Some x) ts"
proof -
  assume b: "built h p par k v ts"
  let ?h = "upd_node p (\<lambda>n. n\<lparr>n_value := Some x\<rparr>) h"
  have l: "laid h p (Suc p) (length h) (n_first (h ! p)) ts None" using b by (simp add: built_def)
  have "laid ?h p (Suc p) (length h) (n_first (h ! p)) ts None" by (rule laid_cong [OF l]) (simp add: nth_upd_node)
  moreover have "last_root ?h (n_first (h ! p)) ts = last_root h (n_first (h ! p)) ts"
    by (rule last_root_cong [OF l]) (simp add: nth_upd_node)
  ultimately show ?thesis using b by (simp add: built_def nth_upd_node)
qed

lemma built_bounds: "built h p par k v ts \<Longrightarrow> p < length h"
  by (simp add: built_def)

lemma laid_start: "laid h p lo hi q ts None \<Longrightarrow> q = None \<longleftrightarrow> ts = []"
  by (cases ts; cases "hd ts") auto

lemma built_first: "built h p par k v ts \<Longrightarrow> n_first (h ! p) = None \<longleftrightarrow> ts = []"
  using laid_start [of h p "Suc p" "length h" "n_first (h ! p)" ts] by (simp add: built_def)

lemma building_cong:
  assumes "building h p par k v ts c z" "\<And>i. i < c \<Longrightarrow> h' ! i = h ! i"
  shows "building h' p par k v ts c z"
proof -
  have l: "laid h p (Suc p) c (n_first (h ! p)) ts (Some c)" "p < c" using assms(1) by (simp_all add: building_def)
  have "laid h' p (Suc p) c (n_first (h ! p)) ts (Some c)" by (rule laid_cong [OF l(1)]) (simp add: assms(2))
  moreover have "last_root h' (n_first (h ! p)) ts = last_root h (n_first (h ! p)) ts"
    by (rule last_root_cong [OF l(1)]) (simp add: assms(2))
  ultimately show ?thesis using assms by (simp add: building_def)
qed

text \<open>A new child is open; when it is complete, it is one more tree of its parent.\<close>

lemma building_close:
  assumes "building h p par k v ts c z" "built h c (Some p) key v' us"
  shows "built h p par k v (ts @ [Node key v' us])"
proof -
  have l: "laid h p (Suc p) c (n_first (h ! p)) ts (Some c)" "p < c" using assms(1) by (simp_all add: building_def)
  have "laid h p c (length h) (Some c) [Node key v' us] None" using assms(2) by (auto simp: built_def)
  then have "laid h p (Suc p) (length h) (n_first (h ! p)) (ts @ [Node key v' us]) None"
    using l(1) unfolding laid_append by blast
  moreover have "last_root h (n_first (h ! p)) (ts @ [Node key v' us]) = Some c"
    by (subst last_root_append [OF l(1)]) simp_all
  ultimately show ?thesis using assms by (simp add: built_def building_def)
qed

lemma built_push_ex:
  assumes p: "built h p par k v ts"
  shows "\<exists>h1. registry_add p key h = Inr (length h, h1) \<and> built h1 (length h) (Some p) key None [] \<and>
    (\<forall>i < p. h1 ! i = h ! i) \<and> n_prev (h1 ! p) = n_prev (h ! p) \<and> n_prev (h1 ! length h) = n_last (h ! p) \<and>
    building h1 p par k v ts (length h) (n_last (h ! p))"
proof -
  let ?c = "length h" let ?q = "n_first (h ! p)"
  let ?nd = "(new_node key)\<lparr>n_parent := Some p, n_prev := n_last (h ! p)\<rparr>"
  have b: "p < ?c" "laid h p (Suc p) ?c ?q ts None" "n_last (h ! p) = last_root h ?q ts" using p by (simp_all add: built_def)
  show ?thesis
  proof (cases "ts = []")
    case True
    let ?h1 = "upd_node p (\<lambda>n. n\<lparr>n_first := Some ?c, n_last := Some ?c\<rparr>) (h @ [?nd])"
    have "registry_add p key h = Inr (?c, ?h1)" using b True by (simp add: registry_add_def get_node_def Let_def)
    then show ?thesis using p True
      by (intro exI [of _ ?h1]) (simp add: built_def building_def nth_upd_node nth_append new_node_def)
  next
    case False
    obtain l where l: "last_root h ?q ts = Some l" "Suc p \<le> l" "l < ?c" by (rule laid_last [OF b(2) False])
    define h1 where "h1 = upd_node p (\<lambda>n. n\<lparr>n_last := Some ?c\<rparr>) (upd_node l (\<lambda>n. n\<lparr>n_next := Some ?c\<rparr>) (h @ [?nd]))"
    have h1: "h1 ! i = (if i = p then (h ! p)\<lparr>n_last := Some ?c\<rparr> else if i = l then (h ! l)\<lparr>n_next := Some ?c\<rparr> else h ! i)"
      if "i < ?c" for i
      using that l by (simp add: h1_def nth_upd_node nth_append)
    have new: "h1 ! ?c = ?nd" "length h1 = Suc ?c" using b(1) l(3) by (simp_all add: h1_def nth_upd_node)
    have "registry_add p key h = Inr (?c, h1)" using b l by (simp add: registry_add_def get_node_def Let_def h1_def)
    moreover have "laid h1 p (Suc p) ?c ?q ts (Some ?c) \<and> last_root h1 ?q ts = Some l"
      by (rule laid_relink [OF b(2) l(1)]) (use h1 l in auto)
    ultimately show ?thesis using p l(1,2,3) h1 new
      by (intro exI [of _ h1]) (simp add: built_def building_def new_node_def)
  qed
qed

subsection \<open>Splicing an included tree\<close>

lemma fold_upd_node:
  assumes "\<And>n. f (f n) = f n" "\<forall>x \<in> set ptrs. x < length h"
  shows "fold (\<lambda>x. upd_node x f) ptrs h ! i = (if i \<in> set ptrs then f (h ! i) else h ! i) \<and>
    length (fold (\<lambda>x. upd_node x f) ptrs h) = length h"
  using assms(2)
proof (induction ptrs arbitrary: h)
  case (Cons x ptrs)
  have "\<forall>y \<in> set ptrs. y < length (upd_node x f h)" "x < length h" using Cons.prems by simp_all
  from Cons.IH [OF this(1)] this(2) show ?case by (auto simp: nth_upd_node assms(1))
qed simp

lemma find_href:
  assumes "built h c par k v [Node ''href'' (Some f) []]"
  shows "cse_find_value h (n_first (h ! c)) ''href'' = Inr (Some f)"
proof -
  obtain a m where a: "n_first (h ! c) = Some a" "n_key (h ! a) = ''href''" "n_value (h ! a) = Some f"
    "Suc a \<le> m" "m \<le> length h"
    using assms by (auto simp: built_def)
  then show ?thesis by (simp add: cse_find_value_def get_node_def)
qed

text \<open>What \<open>splice\<close> leaves, node by node.\<close>

lemma splice_nodes:
  assumes "n_parent (h ! c) = Some p" "n_prev (h ! c) = Some z" "p < z" "z < c" "c < r"
    and r: "built h r par k v us"
  obtains h2 where "splice c r h = Inr h2" "length h2 = length h"
    "\<And>i. i < r \<Longrightarrow> h2 ! i = (if i = p then (h ! p)\<lparr>n_last := n_last (h ! r)\<rparr> else if i = z then (h ! z)\<lparr>n_next := n_first (h ! r)\<rparr> else h ! i)"
    "\<And>i. r < i \<Longrightarrow> h2 ! i = (if i \<in> set (roots h (n_first (h ! r)) us) then (h ! i)\<lparr>n_parent := Some p\<rparr> else h ! i)"
proof -
  let ?q = "n_first (h ! r)"
  have b: "r < length h" "laid h r (Suc r) (length h) ?q us None" using r by (simp_all add: built_def)
  define h4 where "h4 = upd_node p (\<lambda>n. n\<lparr>n_last := n_last (h ! r)\<rparr>) (upd_node r (\<lambda>n. n\<lparr>n_prev := Some z\<rparr>)
    (upd_node z (\<lambda>n. n\<lparr>n_next := ?q\<rparr>) (upd_node r (\<lambda>n. n\<lparr>n_parent := Some p\<rparr>) h)))"
  have len: "length h4 = length h" by (simp add: h4_def)
  have high: "h4 ! i = h ! i" if "r < i" for i
    using that assms(3-5) b(1) by (simp add: h4_def nth_upd_node)
  have low: "h4 ! i = (if i = p then (h ! p)\<lparr>n_last := n_last (h ! r)\<rparr> else if i = z then (h ! z)\<lparr>n_next := ?q\<rparr> else h ! i)" if "i < r" for i
    using that assms(3-5) b(1) by (simp add: h4_def nth_upd_node)
  have f4: "n_first (h4 ! r) = ?q" using assms(3-5) b(1) by (simp add: h4_def nth_upd_node)
  have l4: "laid h4 r (Suc r) (length h4) ?q us None" unfolding len by (rule laid_cong [OF b(2)]) (simp add: high)
  have sib: "siblings h4 ?q = Inr (roots h4 ?q us)" by (rule siblings_laid [OF l4]) simp
  have same: "roots h4 ?q us = roots h ?q us"
  proof -
    have "siblings h ?q = Inr (roots h ?q us)" by (rule siblings_laid [OF b(2)]) simp
    moreover have "roots h4 ?q us = roots h ?q us" if "laid h r lo hi q us None" "Suc r \<le> lo" "q = ?q" for lo hi q
      using that unfolding that(3) [symmetric]
    proof (induction us arbitrary: lo q)
      case (Cons t ts)
      obtain k v ws where t: "t = Node k v ws" by (cases t)
      obtain a m where a: "q = Some a" "lo \<le> a" "laid h a (Suc a) m (n_first (h ! a)) ws None" "laid h r m hi (n_next (h ! a)) ts None"
        using Cons.prems(1) by (auto simp: t)
      have "Suc r \<le> m" using laid_le [OF a(3)] a(2) Cons.prems(2) by simp
      then show ?case using Cons.IH [OF a(4)] a(1,2) high [of a] Cons.prems(2) by simp
    qed simp
    ultimately show ?thesis using b(2) by blast
  qed
  let ?ptrs = "roots h ?q us"
  let ?h5 = "fold (\<lambda>x. upd_node x (\<lambda>n. n\<lparr>n_parent := Some p\<rparr>)) ?ptrs h4"
  have "\<forall>x \<in> set ?ptrs. x < length h4" using roots_bounds [OF b(2)] len by simp
  note f = fold_upd_node [where f = "\<lambda>n. n\<lparr>n_parent := Some p\<rparr>", OF _ this, simplified]
  have ptrs: "Suc r \<le> x" if "x \<in> set ?ptrs" for x using roots_bounds [OF b(2) that] by simp
  have h3: "n_first (upd_node r (\<lambda>n. n\<lparr>n_parent := Some p\<rparr>) h ! r) = ?q"
    "n_last (upd_node r (\<lambda>n. n\<lparr>n_prev := Some z\<rparr>) (upd_node z (\<lambda>n. n\<lparr>n_next := ?q\<rparr>) (upd_node r (\<lambda>n. n\<lparr>n_parent := Some p\<rparr>) h)) ! r) = n_last (h ! r)"
    using b(1) assms(3-5) by (simp_all add: nth_upd_node)
  have run: "splice c r h = Inr ?h5"
    using assms(1-5) b(1) h3 f4 sib same by (simp add: splice_def get_node_def Let_def h4_def)
  show thesis
  proof (rule that [OF run])
    show "length ?h5 = length h" using f len by simp
    show "?h5 ! i = (if i = p then (h ! p)\<lparr>n_last := n_last (h ! r)\<rparr> else if i = z then (h ! z)\<lparr>n_next := ?q\<rparr> else h ! i)" if "i < r" for i
      using f [of i] low [OF that] ptrs [of i] that by auto
    show "?h5 ! i = (if i \<in> set ?ptrs then (h ! i)\<lparr>n_parent := Some p\<rparr> else h ! i)" if "r < i" for i
      using f [of i] high [OF that] by simp
  qed
qed

lemma splice_built:
  assumes o: "building h p par k v ts c (Some z)" "ts \<noteq> []" "n_parent (h ! c) = Some p" "n_prev (h ! c) = Some z" "c < r"
    and r: "built h r rp rk rv us" "us \<noteq> []"
  shows "\<exists>h2. splice c r h = Inr h2 \<and> (\<forall>i < p. h2 ! i = h ! i) \<and> n_prev (h2 ! p) = n_prev (h ! p) \<and> built h2 p par k v (ts @ us)"
proof -
  let ?q = "n_first (h ! p)" let ?f = "n_first (h ! r)"
  have p: "p < c" "laid h p (Suc p) c ?q ts (Some c)" "last_root h ?q ts = Some z" using o(1) by (simp_all add: building_def)
  have z: "Suc p \<le> z" "z < c" using laid_last [OF p(2) o(2)] p(3) by auto
  have b: "r < length h" "laid h r (Suc r) (length h) ?f us None" "n_last (h ! r) = last_root h ?f us"
    using r(1) by (simp_all add: built_def)
  have zp: "p < z" using z(1) by simp
  obtain h2 where h2: "splice c r h = Inr h2" "length h2 = length h"
    "\<And>i. i < r \<Longrightarrow> h2 ! i = (if i = p then (h ! p)\<lparr>n_last := n_last (h ! r)\<rparr> else if i = z then (h ! z)\<lparr>n_next := n_first (h ! r)\<rparr> else h ! i)"
    "\<And>i. r < i \<Longrightarrow> h2 ! i = (if i \<in> set (roots h (n_first (h ! r)) us) then (h ! i)\<lparr>n_parent := Some p\<rparr> else h ! i)"
    using splice_nodes [OF o(3,4) zp z(2) o(5) r(1)] by metis
  have l1: "laid h2 p (Suc p) c ?q ts ?f \<and> last_root h2 ?q ts = Some z"
    by (rule laid_relink [OF p(2,3)]) (use h2(3) z o(5) in auto)
  have l2: "laid h2 p (Suc r) (length h) ?f us None" by (rule laid_adopt [OF b(2)]) (use h2(4) in auto)
  have l2c: "laid h2 p c (length h) ?f us None" by (rule laid_mono [OF l2]) (use o(5) in simp_all)
  have "laid h2 p (Suc p) (length h) ?q (ts @ us) None" unfolding laid_append using l1 l2c by blast
  moreover have "last_root h2 ?q (ts @ us) = n_last (h ! r)"
  proof -
    have "last_root h2 ?q (ts @ us) = last_root h2 ?f us" using last_root_append [OF _ r(2)] l1 by blast
    also have "\<dots> = last_root h ?f us" by (rule last_root_cong [OF b(2)]) (use h2(4) in auto)
    finally show ?thesis using b(3) by simp
  qed
  moreover have "h2 ! p = (h ! p)\<lparr>n_last := n_last (h ! r)\<rparr>" using h2(3) [of p] p(1) o(5) by simp
  ultimately have "built h2 p par k v (ts @ us)" using o(1) b(1) h2(2) o(5) p(1) by (simp add: built_def building_def)
  then show ?thesis using h2(1,3) z p(1) o(5) by (intro exI [of _ h2]) simp
qed

text \<open>An include behind a sibling: the trees of its file take its place.\<close>

lemma include_placed:
  assumes o: "building h p par k v ts c (Some z)" "ts \<noteq> []" "built h c (Some p) ''resin:include'' None [Node ''href'' (Some f) []]"
    and f: "n_prev (h ! c) = Some z" "f \<noteq> []" "include_path path f = Inr sub"
    and s: "open_parse sub (h, cfg) = Inr (Some (Some (length h)), h', cfg)" "take (length h) h' = h" "built h' (length h) None [] rv us"
      "us \<noteq> []"
  shows "\<exists>h2. parse_include open_parse path c (h, cfg) = Inr (h2, cfg) \<and> (\<forall>i < p. h2 ! i = h ! i) \<and> n_prev (h2 ! p) = n_prev (h ! p) \<and>
    built h2 p par k v (ts @ us)"
proof -
  let ?r = "length h"
  have c: "c < ?r" "n_parent (h ! c) = Some p" "p < c" using o by (simp_all add: built_def building_def)
  have same: "h' ! i = h ! i" if "i < ?r" for i using s(2) that by (metis nth_take)
  have r: "?r < length h'" "n_first (h' ! ?r) \<noteq> None" using built_bounds [OF s(3)] built_first [OF s(3)] s(4) by simp_all
  have o': "building h' p par k v ts c (Some z)" by (rule building_cong [OF o(1)]) (use same c(1) in simp)
  have "n_parent (h' ! c) = Some p" "n_prev (h' ! c) = Some z" using same [OF c(1)] c(2) f(1) by simp_all
  from splice_built [OF o' o(2) this c(1) s(3,4)]
  obtain h2 where h2: "splice c ?r h' = Inr h2" "\<forall>i < p. h2 ! i = h' ! i" "n_prev (h2 ! p) = n_prev (h' ! p)" "built h2 p par k v (ts @ us)"
    by blast
  have "get_node h (Some c) = Inr (h ! c)" "get_node h' (Some ?r) = Inr (h' ! ?r)" using c(1) r(1) by (simp_all add: get_node_def)
  then have "parse_include open_parse path c (h, cfg) = Inr (h2, cfg)"
    using find_href [OF o(3)] f(2,3) s(1) r(2) h2(1) by (auto simp: parse_include_def)
  then show ?thesis using h2(2-4) same c(1,3) by (intro exI [of _ h2]) simp
qed

text \<open>An include whose file is not there, or has no element.\<close>

lemma include_left:
  assumes "built h c par ''resin:include'' None [Node ''href'' (Some f) []]" "f \<noteq> []" "include_path path f = Inr sub"
    and "open_parse sub (h, cfg) = Inr (opn, h', cfg)"
    and "opn = None \<and> h' = h \<or> opn = Some (Some (length h)) \<and> built h' (length h) None [] rv []"
  shows "parse_include open_parse path c (h, cfg) = Inr (h', cfg)"
proof -
  have "get_node h (Some c) = Inr (h ! c)" using built_bounds [OF assms(1)] by (simp add: get_node_def)
  moreover have "get_node h' (Some (length h)) = Inr (h' ! length h) \<and> n_first (h' ! length h) = None" if "built h' (length h) None [] rv []"
    using built_bounds [OF that] built_first [OF that] by (simp add: get_node_def)
  ultimately show ?thesis using find_href [OF assms(1)] assms(2-5) by (auto simp: parse_include_def)
qed

lemma built_grow:
  assumes "built h p par k v ts" "take (length h) h' = h"
  shows "built h' p par k v ts"
proof -
  have l: "p < length h" "laid h p (Suc p) (length h) (n_first (h ! p)) ts None" using assms(1) by (simp_all add: built_def)
  have same: "h' ! i = h ! i" if "i < length h" for i using assms(2) that by (metis nth_take)
  have le: "length h \<le> length h'" using assms(2) by (metis length_take min.cobounded1)
  have "laid h' p (Suc p) (length h) (n_first (h ! p)) ts None" by (rule laid_cong [OF l(2)]) (simp add: same)
  then have "laid h' p (Suc p) (length h') (n_first (h ! p)) ts None" using laid_mono le by blast
  moreover have "last_root h' (n_first (h ! p)) ts = last_root h (n_first (h ! p)) ts" by (rule last_root_cong [OF l(2)]) (simp add: same)
  ultimately show ?thesis using assms(1) l(1) le same [OF l(1)] by (simp add: built_def)
qed

text \<open>
  An include that is the first child: the root of the included file becomes the first child
  itself. It has no next sibling, and its key is empty.
\<close>

lemma splice_first:
  assumes "n_parent (h ! c) = Some p" "n_prev (h ! c) = None" "p < c" "c < r" and r: "built h r par k v us"
  shows "\<exists>h2. splice c r h = Inr h2 \<and> length h2 = length h \<and> n_first (h2 ! p) = Some r \<and> n_next (h2 ! r) = None \<and> n_key (h2 ! r) = k"
proof -
  let ?q = "n_first (h ! r)"
  have b: "r < length h" "laid h r (Suc r) (length h) ?q us None" "n_next (h ! r) = None" "n_key (h ! r) = k" using r by (simp_all add: built_def)
  define h4 where "h4 = upd_node p (\<lambda>n. n\<lparr>n_last := n_last (h ! r)\<rparr>) (upd_node r (\<lambda>n. n\<lparr>n_prev := None\<rparr>)
    (upd_node p (\<lambda>n. n\<lparr>n_first := Some r\<rparr>) (upd_node r (\<lambda>n. n\<lparr>n_parent := Some p\<rparr>) h)))"
  have len: "length h4 = length h" by (simp add: h4_def)
  have l4: "laid h4 r (Suc r) (length h4) ?q us None"
    unfolding len by (rule laid_cong [OF b(2)]) (use assms(3,4) b(1) in \<open>simp add: h4_def nth_upd_node\<close>)
  have nodes: "n_first (h4 ! r) = ?q" "n_next (h4 ! r) = None" "n_key (h4 ! r) = k" "n_first (h4 ! p) = Some r"
    using assms(3,4) b by (simp_all add: h4_def nth_upd_node)
  have sib: "siblings h4 ?q = Inr (roots h4 ?q us)" by (rule siblings_laid [OF l4]) simp
  let ?h5 = "fold (\<lambda>x. upd_node x (\<lambda>n. n\<lparr>n_parent := Some p\<rparr>)) (roots h4 ?q us) h4"
  have "\<forall>x \<in> set (roots h4 ?q us). x < length h4" using roots_bounds [OF l4] by simp
  note f = fold_upd_node [where f = "\<lambda>n. n\<lparr>n_parent := Some p\<rparr>", OF _ this, simplified]
  have h3: "n_last (upd_node r (\<lambda>n. n\<lparr>n_prev := None\<rparr>) (upd_node p (\<lambda>n. n\<lparr>n_first := Some r\<rparr>) (upd_node r (\<lambda>n. n\<lparr>n_parent := Some p\<rparr>) h)) ! r) = n_last (h ! r)"
    using assms(3,4) b(1) by (simp add: nth_upd_node)
  have "splice c r h = Inr ?h5"
    using assms(1-4) b(1) h3 nodes(1) sib by (simp add: splice_def get_node_def Let_def h4_def)
  then show ?thesis using f [of r] f [of p] nodes len by (intro exI [of _ ?h5]) (simp split: if_split)
qed

lemma next_link_end: "0 < n \<Longrightarrow> next_link h n None key = Inr None"
  by (cases n) simp_all

lemma include_first:
  assumes o: "building h p par k v [] c None" "built h c (Some p) ''resin:include'' None [Node ''href'' (Some f) []]" "n_prev (h ! c) = None"
    and f: "f \<noteq> []" "include_path path f = Inr sub"
    and s: "open_parse sub (h, cfg) = Inr (Some (Some (length h)), h', cfg)" "take (length h) h' = h" "built h' (length h) None [] rv us"
    and key: "key \<noteq> []" "key \<noteq> ''resin:include''"
  shows "\<exists>h2. parse_include open_parse path c (h, cfg) = Inr (h2, cfg) \<and> p < length h2 \<and> cse_next_link h2 (n_first (h2 ! p)) key = Inr None"
proof -
  let ?r = "length h"
  have c: "c < ?r" "n_parent (h ! c) = Some p" "p < c" "n_first (h ! p) = Some c" "n_next (h ! c) = None" "n_key (h ! c) = ''resin:include''"
    using o by (simp_all add: built_def building_def)
  have same: "h' ! i = h ! i" if "i < ?r" for i using s(2) that by (metis nth_take)
  have r: "?r < length h'" by (rule built_bounds [OF s(3)])
  have g: "get_node h (Some c) = Inr (h ! c)" "get_node h' (Some ?r) = Inr (h' ! ?r)" using c(1) r by (simp_all add: get_node_def)
  have ends: "next_link g (length h') None key = Inr None" for g by (rule next_link_end) (use r in linarith)
  show ?thesis
  proof (cases "us = []")
    case True
    have "parse_include open_parse path c (h, cfg) = Inr (h', cfg)"
      by (rule include_left [where open_parse = open_parse, OF o(2) f(1,2) s(1)]) (use s(3) True in simp)
    moreover have "cse_next_link h' (n_first (h' ! p)) key = Inr None"
      using c same [of c] same [of p] r key ends by (simp add: cse_next_link_def get_node_def)
    ultimately show ?thesis using c(1,3) r by (intro exI [of _ h']) simp
  next
    case False
    have "n_parent (h' ! c) = Some p" "n_prev (h' ! c) = None" using same [OF c(1)] c(2) o(3) by simp_all
    from splice_first [OF this c(3,1) s(3)] obtain h2 where h2: "splice c ?r h' = Inr h2" "length h2 = length h'"
      "n_first (h2 ! p) = Some ?r" "n_next (h2 ! ?r) = None" "n_key (h2 ! ?r) = []" by blast
    have "parse_include open_parse path c (h, cfg) = Inr (h2, cfg)"
      using find_href [OF o(2)] f s(1) g h2(1) built_first [OF s(3)] False by (auto simp: parse_include_def)
    moreover have "cse_next_link h2 (n_first (h2 ! p)) key = Inr None"
      using h2 r key(1) ends by (simp add: cse_next_link_def get_node_def)
    ultimately show ?thesis using c(1,3) r h2(2) by (intro exI [of _ h2]) simp
  qed
qed

end
