(* ===== verification/Cse_Document.thy ===== *)
theory Cse_Document
  imports Cse_Tree
begin

text \<open>
  The parser against the documents of Cse_Tree: what it does on the text of a document, step by
  step and as a whole, for a file with the files it includes; and on texts that are no documents.
\<close>

subsection \<open>Steps of the scanner\<close>

definition scanner_ok :: "rstream \<Rightarrow> bool" where
  "scanner_ok is \<longleftrightarrow> Suc (is_length is) < is_capacity is \<and> is_capacity is \<le> length (is_buf is) \<and> 1024 \<le> is_capacity is"

definition token :: "rstream \<Rightarrow> string \<Rightarrow> bool" where
  "token is s \<longleftrightarrow> is_length is = length s \<and> take (length s) (is_buf is) = s"

text \<open>\<open>eats is rest is'\<close>: only input has been read, and \<open>rest\<close> is left of it.\<close>

definition eats :: "rstream \<Rightarrow> string \<Rightarrow> rstream \<Rightarrow> bool" where
  "eats is rest is' \<longleftrightarrow> is_input is' = rest \<and> hc is' = hc is \<and> (scanner_ok is \<longrightarrow> scanner_ok is')"

lemma length_fresh_memory [simp]: "length (fresh_memory junk n) = n"
  by (simp add: fresh_memory_def)

lemma eats_trans: "eats is r1 is1 \<Longrightarrow> eats is1 r2 is2 \<Longrightarrow> eats is r2 is2"
  by (simp add: eats_def)

lemma eats_buf: "is_input is = c # cs \<Longrightarrow> \<exists>is'. buf_read is = (code_of c, is') \<and> eats is cs is' \<and> (token is' s \<longleftrightarrow> token is s)"
  by (auto simp: buf_read_def eats_def scanner_ok_def token_def)

lemma append_ready:
  assumes "scanner_ok is"
  shows "\<exists>is'. buf_append is ch = Inr is' \<and> eats is (is_input is) is'"
  using assms by (auto simp: buf_append_def Let_def store_def scanner_ok_def eats_def hc_def)

lemma append_token:
  assumes "scanner_ok is" "token is s" "length s < 1022"
  shows "\<exists>is'. buf_append is (code_of c) = Inr is' \<and> eats is (is_input is) is' \<and> token is' (s @ [c])"
  using assms
  by (auto simp: buf_append_def Let_def store_def scanner_ok_def eats_def token_def hc_def min_def)

lemma get_token_ready:
  assumes "scanner_ok is" "token is s" "is_cstring s"
  shows "\<exists>is'. get_token is = Inr (s, is') \<and> eats is (is_input is) is' \<and> token is' s"
proof -
  have l: "length s < length (is_buf is)" using assms(1,2) by (simp add: scanner_ok_def token_def)
  let ?buf = "s @ NUL # drop (Suc (length s)) (is_buf is)"
  have "store (is_buf is) (int (is_length is)) [NUL] = Inr ?buf"
    using assms(2) l by (simp add: store_def token_def)
  moreover have "cstr_at ?buf 0 = Inr s" using assms(3) by (simp add: cstr_at_def cstr_of_terminated)
  ultimately show ?thesis using assms(1,2) l
    by (auto simp: get_token_def eats_def scanner_ok_def token_def hc_def)
qed

lemma read_token_ready:
  assumes "scanner_ok is" "token is t" "length t + length s \<le> 1022" "c # is_input is = s @ d # rest"
    and "\<And>x. x \<in> set s \<Longrightarrow> P (code_of x)" "\<not> P (code_of d)"
  shows "\<exists>is'. read_token P (code_of c) is = Inr (code_of d, is') \<and> eats is rest is' \<and> token is' (t @ s)"
  using assms
proof (induction s arbitrary: c t "is")
  case Nil
  then show ?case by (auto simp: read_token.simps [of P _ "is"] eats_def)
next
  case (Cons x s)
  then have x: "x = c" "is_input is = s @ d # rest" by auto
  obtain s1 where s1: "buf_append is (code_of c) = Inr s1" "eats is (is_input is) s1" "token s1 (t @ [c])"
    using append_token [OF Cons.prems(1,2), of c] Cons.prems(3) by auto
  obtain e es where e: "is_input s1 = e # es" "e # es = s @ d # rest"
    using s1(2) x(2) by (cases "is_input s1") (auto simp: eats_def)
  obtain s2 where s2: "buf_read s1 = (code_of e, s2)" "eats s1 es s2" "token s2 (t @ [c])"
    using eats_buf [OF e(1), of "t @ [c]"] s1(3) by blast
  have "\<exists>is'. read_token P (code_of e) s2 = Inr (code_of d, is') \<and> eats s2 rest is' \<and> token is' ((t @ [c]) @ s)"
    by (rule Cons.IH) (use Cons.prems s1 s2 e in \<open>auto simp: eats_def\<close>)
  then obtain is' where is': "read_token P (code_of e) s2 = Inr (code_of d, is')" "eats s2 rest is'" "token is' (t @ x # s)"
    using x(1) by auto
  have "read_token P (code_of c) is = Inr (code_of d, is')"
    using Cons.prems(5) [of x] x(1) s1(1) s2(1) is'(1) by (simp add: read_token.simps [of P "code_of c" "is"] of_char_less)
  then show ?case using eats_trans [OF s1(2) eats_trans [OF s2(2) is'(2)]] is'(3) by blast
qed

subsection \<open>Attributes\<close>

lemma eats_simps: "eats is rest is' \<Longrightarrow> is_input is' = rest" "eats is rest is' \<Longrightarrow> hc is' = hc is"
  "eats is rest is' \<Longrightarrow> scanner_ok is \<Longrightarrow> scanner_ok is'" "eats is rest is' \<Longrightarrow> is_heap is' = is_heap is"
  "eats is rest is' \<Longrightarrow> is_config is' = is_config is"
  by (simp_all add: eats_def hc_def)

lemma ready_restart: "scanner_ok is \<Longrightarrow> scanner_ok (is\<lparr>is_length := 0\<rparr>)" "token (is\<lparr>is_length := 0\<rparr>) []"
  by (simp_all add: scanner_ok_def token_def)

lemma skip_no_space: "\<not> is_space_code ch \<Longrightarrow> skip_space ch is = (ch, is)"
  by (simp add: skip_space.simps [of ch])

lemma skip_one_space:
  assumes "is_input is = c # cs" "\<not> is_space_code (code_of c)"
  shows "\<exists>is'. skip_space 32 is = (code_of c, is') \<and> eats is cs is'"
proof -
  obtain s where s: "buf_read is = (code_of c, s)" "eats is cs s" using eats_buf [OF assms(1)] by blast
  then show ?thesis using assms(2) by (simp add: skip_space.simps [of 32] skip_no_space is_space_code_def)
qed

lemma quote_codes: "is_space_code 34 = False" "is_space_code 61 = False" "is_space_code 62 = False" "is_space_code 47 = False"
  by (simp_all add: is_space_code_def)

lemma parse_value_ready:
  assumes "scanner_ok is" "is_input is = CHR 0x22 # x @ CHR 0x22 # rest" "length x \<le> 1022" "is_cstring x" "CHR 0x22 \<notin> set x"
    and "node < length (is_heap is)"
  shows "\<exists>is'. parse_value node is = Inr (32, is') \<and> is_input is' = rest \<and> scanner_ok is' \<and>
    hc is' = (upd_node node (\<lambda>n. n\<lparr>n_value := Some x\<rparr>) (is_heap is), is_config is)"
proof -
  obtain s1 where s1: "buf_read is = (34, s1)" "eats is (x @ CHR 0x22 # rest) s1"
    using eats_buf [OF assms(2)] by auto
  let ?s = "s1\<lparr>is_length := 0\<rparr>"
  obtain c cs where c: "is_input ?s = c # cs" "c # cs = x @ CHR 0x22 # rest"
    using eats_simps(1) [OF s1(2)] by (cases "is_input ?s") auto
  obtain s2 where s2: "buf_read ?s = (code_of c, s2)" "eats ?s cs s2" "token s2 []"
    using eats_buf [OF c(1), of "[]"] ready_restart by blast
  have r2: "scanner_ok s2" using eats_simps(3) [OF s1(2) assms(1)] ready_restart eats_simps(3) [OF s2(2)] by blast
  have q: "code_of y \<noteq> 34" if "y \<in> set x" for y
    using assms(5) that of_char_eq_iff [of y "CHR 0x22", where 'a = int] by auto
  have "\<exists>is'. read_token (\<lambda>ch. ch \<noteq> 34) (code_of c) s2 = Inr (code_of (CHR 0x22), is') \<and> eats s2 rest is' \<and> token is' ([] @ x)"
    by (rule read_token_ready) (use r2 s2 c assms(3) q in \<open>auto simp: eats_simps(1) [OF s2(2)]\<close>)
  then obtain s3 where s3: "read_token (\<lambda>ch. ch \<noteq> 34) (code_of c) s2 = Inr (34, s3)" "eats s2 rest s3" "token s3 x"
    by auto
  obtain s4 where s4: "get_token s3 = Inr (x, s4)" "eats s3 (is_input s3) s4"
    using get_token_ready [OF eats_simps(3) [OF s3(2) r2] s3(3) assms(4)] by blast
  have h4: "is_heap s4 = is_heap is" "is_config s4 = is_config is"
    using eats_simps(4,5) [OF s1(2)] eats_simps(4,5) [OF s2(2)] eats_simps(4,5) [OF s3(2)] eats_simps(4,5) [OF s4(2)]
    by simp_all
  let ?r = "s4\<lparr>is_heap := upd_node node (\<lambda>n. n\<lparr>n_value := Some x\<rparr>) (is_heap s4)\<rparr>"
  have "set_value node x s4 = Inr ?r" using assms(6) h4 by (simp add: set_value_def get_node_def)
  moreover have "is_input ?r = rest" using eats_simps(1) [OF s4(2)] eats_simps(1) [OF s3(2)] by simp
  moreover have "scanner_ok ?r" using eats_simps(3) [OF s4(2) eats_simps(3) [OF s3(2) r2]] by (simp add: scanner_ok_def)
  ultimately show ?thesis using s1(1) s2(1) s3(1) s4(1) h4
    by (simp add: parse_value_def Let_def skip_no_space quote_codes hc_def)
qed

text \<open>\<open>goes p is rest is'\<close>: the parser has read up to \<open>rest\<close> and changed nodes from \<open>p\<close> on only.\<close>

definition goes :: "nat \<Rightarrow> rstream \<Rightarrow> string \<Rightarrow> rstream \<Rightarrow> bool" where
  "goes p is rest is' \<longleftrightarrow> is_input is' = rest \<and> scanner_ok is' \<and> is_config is' = is_config is \<and>
     (\<forall>i < p. is_heap is' ! i = is_heap is ! i) \<and> n_prev (is_heap is' ! p) = n_prev (is_heap is ! p)"

lemma goes_trans: "goes p is r1 is1 \<Longrightarrow> goes q is1 r2 is2 \<Longrightarrow> p \<le> q \<Longrightarrow> goes p is r2 is2"
  by (cases "p = q") (auto simp: goes_def)

lemma goes_eats: "scanner_ok is \<Longrightarrow> eats is rest is' \<Longrightarrow> goes p is rest is'"
  by (simp add: goes_def eats_def hc_def)

lemma goesD: "goes p is rest is' \<Longrightarrow> is_input is' = rest" "goes p is rest is' \<Longrightarrow> scanner_ok is'"
  by (simp_all add: goes_def)

lemma tag_codes:
  assumes "tag_ok k"
  shows "k \<noteq> []" "is_cstring k" "length k \<le> 1022" "x \<in> set k \<Longrightarrow> in_name (code_of x)" "x \<in> set k \<Longrightarrow> in_word (code_of x)"
    "x \<in> set k \<Longrightarrow> \<not> is_space_code (code_of x)"
  using assms by (auto simp: tag_ok_def in_name_def in_word_def)

lemma name_codes:
  assumes "name_ok k"
  shows "k \<noteq> []" "is_cstring k" "length k \<le> 1022" "k \<noteq> ''resin:include''"
    "x \<in> set k \<Longrightarrow> in_name (code_of x)" "x \<in> set k \<Longrightarrow> in_word (code_of x)" "x \<in> set k \<Longrightarrow> \<not> is_space_code (code_of x)" "tag_ok k"
  using assms tag_codes by (auto simp: name_ok_def)

lemma attribute_read:
  assumes "scanner_ok is" "skip_space ch is = (code_of c, s1)" "eats is (is_input s1) s1"
    and "c # is_input s1 = fst a @ [CHR ''='', CHR 0x22] @ snd a @ CHR 0x22 # rest" "attr_ok a"
    and "built (is_heap is) p par k v ts"
  shows "\<exists>is'. parse_attribute p ch is = Inr (32, is') \<and> goes p is rest is' \<and>
    built (is_heap is') p par k (fst (attr_step (v, ts) a)) (snd (attr_step (v, ts) a))"
proof -
  note n = name_codes [of "fst a"]
  have a: "name_ok (fst a)" "length (snd a) \<le> 1022" "is_cstring (snd a)" "CHR 0x22 \<notin> set (snd a)"
    using assms(5) by (auto simp: attr_ok_def)
  have r1: "scanner_ok (s1\<lparr>is_length := 0\<rparr>)" using eats_simps(3) [OF assms(3,1)] by (rule ready_restart)
  have "\<exists>is'. read_token in_name (code_of c) (s1\<lparr>is_length := 0\<rparr>) = Inr (code_of (CHR ''=''), is') \<and>
      eats (s1\<lparr>is_length := 0\<rparr>) (CHR 0x22 # snd a @ CHR 0x22 # rest) is' \<and> token is' ([] @ fst a)"
    by (rule read_token_ready [OF r1 ready_restart(2)]) (use n a assms(4) in \<open>auto simp: in_name_def\<close>)
  then obtain s2 where s2: "read_token in_name (code_of c) (s1\<lparr>is_length := 0\<rparr>) = Inr (61, s2)"
    "eats (s1\<lparr>is_length := 0\<rparr>) (CHR 0x22 # snd a @ CHR 0x22 # rest) s2" "token s2 (fst a)" by auto
  have r2: "scanner_ok s2" by (rule eats_simps(3) [OF s2(2) r1])
  obtain s3 where s3: "get_token s2 = Inr (fst a, s3)" "eats s2 (is_input s2) s3"
    using get_token_ready [OF r2 s2(3)] n(2) a(1) by blast
  have i3: "is_input s3 = CHR 0x22 # snd a @ CHR 0x22 # rest" "scanner_ok s3" "is_heap s3 = is_heap is" "is_config s3 = is_config is"
    using eats_simps [OF s3(2)] eats_simps [OF s2(2)] eats_simps [OF assms(3)] r2 by simp_all
  have len: "is_length s2 \<noteq> 0" using s2(3) n(1) a(1) by (simp add: token_def)
  have start: "parse_attribute p ch is =
      bindR (attribute_node p (fst a) s3) (\<lambda>(attr, is). parse_value attr is)"
    using assms(2) s2(1) s3(1) len
    by (simp add: parse_attribute_def skip_no_space quote_codes)
  show ?thesis
  proof (cases "fst a = ''id''")
    case True
    have p: "p < length (is_heap s3)" using i3(3) built_bounds [OF assms(6)] by simp
    obtain is' where is': "parse_value p s3 = Inr (32, is')" "is_input is' = rest" "scanner_ok is'"
      "hc is' = (upd_node p (\<lambda>n. n\<lparr>n_value := Some (snd a)\<rparr>) (is_heap s3), is_config s3)"
      using parse_value_ready [OF i3(2,1) a(2-4) p] by blast
    have h: "is_heap is' = upd_node p (\<lambda>n. n\<lparr>n_value := Some (snd a)\<rparr>) (is_heap is)" "is_config is' = is_config is"
      using is'(4) i3(3,4) by (simp_all add: hc_def)
    then show ?thesis
      using is' start True built_value [OF assms(6)] built_bounds [OF assms(6)]
      by (simp add: attribute_node_def goes_def attr_step_def nth_upd_node)
  next
    case False
    let ?c = "length (is_heap is)"
    obtain h1 where h1: "registry_add p (fst a) (is_heap is) = Inr (?c, h1)" "built h1 ?c (Some p) (fst a) None []"
      "\<forall>i < p. h1 ! i = is_heap is ! i" "building h1 p par k v ts ?c (n_last (is_heap is ! p))" "n_prev (h1 ! p) = n_prev (is_heap is ! p)"
      using built_push_ex [OF assms(6), of "fst a"] by blast
    let ?s = "s3\<lparr>is_heap := h1\<rparr>"
    have c: "?c < length (is_heap ?s)" "scanner_ok ?s" "is_input ?s = is_input s3"
      using built_bounds [OF h1(2)] i3(2) by (simp_all add: scanner_ok_def)
    obtain is' where is': "parse_value ?c ?s = Inr (32, is')" "is_input is' = rest" "scanner_ok is'"
      "hc is' = (upd_node ?c (\<lambda>n. n\<lparr>n_value := Some (snd a)\<rparr>) (is_heap ?s), is_config ?s)"
      using parse_value_ready [OF c(2) _ a(2-4) c(1)] i3(1) by fastforce
    have h: "is_heap is' = upd_node ?c (\<lambda>n. n\<lparr>n_value := Some (snd a)\<rparr>) h1" "is_config is' = is_config is"
      using is'(4) i3(4) by (simp_all add: hc_def)
    have "built (is_heap is') p par k v (ts @ [Node (fst a) (Some (snd a)) []])"
      unfolding h(1)
      by (rule building_close [OF building_cong [OF h1(4)] built_value [OF h1(2)]])
        (use built_bounds [OF h1(2)] in \<open>simp add: nth_upd_node\<close>)
    moreover have "is_heap is' ! i = is_heap is ! i" if "i < p" for i
      using that h h1(3) built_bounds [OF assms(6)] built_bounds [OF h1(2)] by (simp add: nth_upd_node)
    moreover have "n_prev (is_heap is' ! p) = n_prev (is_heap is ! p)"
      using h h1(5) built_bounds [OF assms(6)] built_bounds [OF h1(2)] by (simp add: nth_upd_node)
    ultimately show ?thesis using is' start False h1(1) h i3(3)
      by (simp add: attribute_node_def goes_def attr_step_def)
  qed
qed

lemma skip_start:
  assumes "ch = 32 \<and> is_input is = w @ e # r \<or> ch = code_of c \<and> c # is_input is = w @ e # r"
    and "w = [] \<or> w = '' ''" "\<not> is_space_code (code_of e)"
  shows "\<exists>s1. skip_space ch is = (code_of e, s1) \<and> eats is r s1"
proof -
  have blank: "\<exists>s1. skip_space 32 is' = (code_of e, s1) \<and> eats is' r s1" if i: "is_input is' = '' '' @ e # r" for is'
  proof -
    obtain s where s: "buf_read is' = (32, s)" "eats is' (e # r) s" using eats_buf [of is' "CHR '' ''" "e # r"] i by force
    then show ?thesis using skip_one_space [OF eats_simps(1) [OF s(2)] assms(3)] eats_trans [OF s(2)]
      by (auto simp: skip_space.simps [of 32 is'] is_space_code_def)
  qed
  show ?thesis
    using assms blank [of "is"] skip_one_space [OF _ assms(3), of "is" r] skip_no_space [OF assms(3), of "is"]
    by (auto simp: eats_def)
qed

lemma render_attr_step: "concat (map render_attr (a # as)) @ r = '' '' @ fst a @ [CHR ''='', CHR 0x22] @ snd a @ CHR 0x22 # concat (map render_attr as) @ r"
  by (simp add: render_attr_def)

lemma attribute_loop_step:
  "parse_attribute p ch is = Inr (ch', is') \<Longrightarrow> attribute_loop p ch is = (if ch' > 0 then attribute_loop p ch' is' else Inr (ch', is'))"
  by (simp add: attribute_loop.simps [of p ch "is"])

lemma attributes_read:
  assumes "scanner_ok is" "list_all attr_ok as" "d = CHR ''>'' \<or> d = CHR ''/''"
    and "ch = 32 \<and> is_input is = concat (map render_attr as) @ d # rest \<or>
      ch = code_of c \<and> c # is_input is = concat (map render_attr as) @ d # rest"
    and "built (is_heap is) p par k v ts"
  shows "\<exists>is'. attribute_loop p ch is = Inr (0, is') \<and> goes p is (d # rest) is' \<and> token is' [] \<and>
    built (is_heap is') p par k (fst (foldl attr_step (v, ts) as)) (snd (foldl attr_step (v, ts) as))"
  using assms
proof (induction as arbitrary: ch "is" c v ts)
  case Nil
  have d: "\<not> is_space_code (code_of d)" "\<not> in_name (code_of d)" using Nil(3) by (auto simp: quote_codes in_name_def)
  obtain s1 where s1: "skip_space ch is = (code_of d, s1)" "eats is rest s1"
    using skip_start [of ch "is" "[]" d rest c] Nil(4) d(1) by auto
  let ?s = "s1\<lparr>is_length := 0\<rparr>"
  have "parse_attribute p ch is = Inr (0, ungetc (code_of d) ?s)"
    using s1(1) d(2) by (simp add: parse_attribute_def read_token.simps [of in_name "code_of d"])
  moreover have "goes p is (d # rest) (ungetc (code_of d) ?s) \<and> token (ungetc (code_of d) ?s) []"
    using eats_simps [OF s1(2)] Nil(1) of_char_less(2) [of d]
    by (auto simp: goes_def ungetc_def scanner_ok_def token_def not_less)
  moreover have "is_heap (ungetc (code_of d) ?s) = is_heap is"
    using eats_simps(4) [OF s1(2)] by (simp add: ungetc_def)
  ultimately show ?case using Nil(5) by (auto simp: attribute_loop_step)
next
  case (Cons a as)
  have a: "attr_ok a" "list_all attr_ok as" using Cons.prems(2) by simp_all
  then have n: "name_ok (fst a)" by (simp add: attr_ok_def)
  obtain e es where e: "fst a = e # es" using name_codes(1) [OF n] by (cases "fst a") auto
  let ?rest = "concat (map render_attr as) @ d # rest"
  let ?r = "es @ [CHR ''='', CHR 0x22] @ snd a @ CHR 0x22 # ?rest"
  have t: "concat (map render_attr (a # as)) @ d # rest = '' '' @ e # ?r"
    unfolding render_attr_step using e by simp
  obtain s1 where s1: "skip_space ch is = (code_of e, s1)" "eats is ?r s1"
    using skip_start [of ch "is" "'' ''" e ?r c] Cons.prems(4) name_codes(7) [OF n, of e] e unfolding t by auto
  obtain s2 where s2: "parse_attribute p ch is = Inr (32, s2)" "goes p is ?rest s2"
    "built (is_heap s2) p par k (fst (attr_step (v, ts) a)) (snd (attr_step (v, ts) a))"
    using attribute_read [OF Cons.prems(1) s1(1), of a ?rest p par k v ts] eats_simps(1) [OF s1(2)] s1(2) e a Cons.prems(5) by auto
  obtain s3 where s3: "attribute_loop p 32 s2 = Inr (0, s3)" "goes p s2 (d # rest) s3" "token s3 []"
    "built (is_heap s3) p par k (fst (foldl attr_step (attr_step (v, ts) a) as)) (snd (foldl attr_step (attr_step (v, ts) a) as))"
    using Cons.IH [OF goesD(2) [OF s2(2)] a(2) Cons.prems(3) _ s2(3), of 32 undefined] goesD(1) [OF s2(2)] by auto
  then show ?case using goes_trans [OF s2(2) s3(2)] by (auto simp: attribute_loop_step [OF s2(1)])
qed

subsection \<open>Text and tags\<close>

lemma white_codes: "white_char c \<longleftrightarrow> code_of c = 32 \<or> code_of c = 9 \<or> code_of c = 10 \<or> code_of c = 12"
  using of_char_eq_iff [of c "CHR '' ''", where 'a = int] of_char_eq_iff [of c "CHR 0x09", where 'a = int]
    of_char_eq_iff [of c "CHR 0x0A", where 'a = int] of_char_eq_iff [of c "CHR 0x0C", where 'a = int]
  by (auto simp: white_char_def)

lemma less_code: "code_of c = 60 \<longleftrightarrow> c = CHR ''<''"
  using of_char_eq_iff [of c "CHR ''<''", where 'a = int] by simp

lemma text_read:
  assumes "scanner_ok is" "is_input is = body @ rest" "CHR ''<'' \<notin> set body"
  shows "\<exists>is'. parse_loop inc p so is = parse_loop inc p (so \<and> white body) is' \<and> eats is rest is' \<and>
    (\<forall>t. token is t \<longrightarrow> length t + length body \<le> 1022 \<longrightarrow> token is' (t @ body))"
  using assms
proof (induction body arbitrary: "is" so)
  case Nil
  then show ?case by (auto simp: white_def eats_def)
next
  case (Cons c body)
  have inp: "is_input is = c # body @ rest" using Cons.prems(2) by simp
  obtain s1 where s1: "buf_read is = (code_of c, s1)" "eats is (body @ rest) s1"
    using eats_buf [OF inp] by blast
  have t1: "token s1 t \<longleftrightarrow> token is t" for t
  proof -
    obtain s where "buf_read is = (code_of c, s)" "token s t \<longleftrightarrow> token is t" using eats_buf [OF inp, of t] by blast
    then show ?thesis using s1(1) by simp
  qed
  have r1: "scanner_ok s1" by (rule eats_simps(3) [OF s1(2) Cons.prems(1)])
  obtain s2 where s2: "buf_append s1 (code_of c) = Inr s2" "eats s1 (is_input s1) s2"
    using append_ready [OF r1] by blast
  have t2: "token s2 (t @ [c])" if "token is t" "length t < 1022" for t
    using append_token [OF r1, of t c] t1 that s2(1) by auto
  have step: "parse_loop inc p so is = parse_loop inc p (so \<and> white_char c) s2"
    using s1(1) s2(1) Cons.prems(3) white_codes [of c] less_code [of c] of_char_less [of c]
    by (auto simp: parse_loop.simps [of inc p so "is"])
  have r2: "scanner_ok s2" "is_input s2 = body @ rest"
    using eats_simps(3) [OF s2(2) r1] eats_simps(1) [OF s2(2)] eats_simps(1) [OF s1(2)] by simp_all
  obtain s3 where s3: "parse_loop inc p (so \<and> white_char c) s2 = parse_loop inc p ((so \<and> white_char c) \<and> white body) s3"
    "eats s2 rest s3" "\<forall>t. token s2 t \<longrightarrow> length t + length body \<le> 1022 \<longrightarrow> token s3 (t @ body)"
    using Cons.IH [OF r2, of "so \<and> white_char c"] Cons.prems(3) by auto
  have "token s3 (t @ c # body)" if "token is t" "length t + length (c # body) \<le> 1022" for t
  proof -
    have "token s2 (t @ [c])" by (rule t2) (use that in auto)
    then show ?thesis using s3(3) that(2) by fastforce
  qed
  moreover have "eats is rest s3" using eats_trans [OF s1(2) eats_trans [OF s2(2) s3(2)]] .
  ultimately show ?case using step s3(1) by (intro exI [of _ s3]) (simp add: white_def conj_assoc)
qed

lemma tag_start:
  assumes "is_input is = CHR ''<'' # r"
  shows "\<exists>s. parse_loop inc p so is = bindR (text_end p so s) (\<lambda>is. bindR (markup inc p is) (\<lambda>r. case r of (ok, node, is) \<Rightarrow>
      if ok then parse_loop inc node so is else Inr (False, is))) \<and> eats is r s \<and> (token s t \<longleftrightarrow> token is t)"
proof -
  obtain s where "buf_read is = (code_of (CHR ''<''), s)" "eats is r s" "token s t \<longleftrightarrow> token is t"
    using eats_buf [OF assms] by blast
  then show ?thesis by (intro exI [of _ s]) (simp add: parse_loop.simps [of inc p so "is"])
qed

lemma text_end_ready:
  assumes "scanner_ok s" "built (is_heap s) p par k v ts" "\<not> so \<and> v = None \<and> ts = [] \<longrightarrow> token s body \<and> is_cstring body"
  shows "\<exists>s'. text_end p so s = Inr s' \<and> goes p s (is_input s) s' \<and> built (is_heap s') p par k (settle so v ts body) ts"
proof (cases so)
  case True
  then show ?thesis using assms ready_restart(1) [OF assms(1)] by (simp add: text_end_def goes_def settle_def)
next
  case False
  have n: "get_node (is_heap s) (Some p) = Inr (is_heap s ! p)" "n_value (is_heap s ! p) = v"
    "n_first (is_heap s ! p) = None \<longleftrightarrow> ts = []" "p < length (is_heap s)"
    using assms(2) built_bounds [OF assms(2)] built_first [OF assms(2)] by (simp_all add: get_node_def built_def)
  show ?thesis
  proof (cases "v = None \<and> ts = []")
    case True
    then obtain s1 where s1: "get_token s = Inr (body, s1)" "eats s (is_input s) s1"
      using get_token_ready [OF assms(1)] assms(3) False by blast
    let ?s = "s1\<lparr>is_heap := upd_node p (\<lambda>n. n\<lparr>n_value := Some body\<rparr>) (is_heap s)\<rparr>"
    have "set_value p body s1 = Inr ?s"
      using n(4) eats_simps(4) [OF s1(2)] by (simp add: set_value_def get_node_def)
    then have "text_end p so s = Inr ?s" using False True n s1(1) by (simp add: text_end_def)
    moreover have "goes p s (is_input s) ?s"
      using eats_simps [OF s1(2)] assms(1) n(4) by (simp add: goes_def scanner_ok_def nth_upd_node)
    ultimately show ?thesis using built_value [OF assms(2)] False True by (auto simp: settle_def)
  next
    case 2: False
    then show ?thesis using assms(1,2) False n by (auto simp: text_end_def settle_def goes_def)
  qed
qed

lemma check_include_none:
  assumes "built (is_heap s) p par k v ts" "ts \<noteq> [] \<Longrightarrow> tree_key (last ts) \<noteq> ''resin:include''"
  shows "check_include inc (Some p) s = Inr s"
proof -
  have p: "p < length (is_heap s)" "n_last (is_heap s ! p) = last_root (is_heap s) (n_first (is_heap s ! p)) ts"
    "laid (is_heap s) p (Suc p) (length (is_heap s)) (n_first (is_heap s ! p)) ts None"
    using assms(1) by (simp_all add: built_def)
  show ?thesis
  proof (cases "ts = []")
    case True
    then show ?thesis using p by (simp add: check_include_def get_node_def)
  next
    case False
    obtain l where "last_root (is_heap s) (n_first (is_heap s ! p)) ts = Some l" "l < length (is_heap s)"
      "n_key (is_heap s ! l) = tree_key (last ts)"
      by (rule laid_last [OF p(3) False])
    then show ?thesis using p(1,2) assms(2) [OF False] by (simp add: check_include_def get_node_def)
  qed
qed

lemma attr_keys:
  assumes "list_all attr_ok as" "\<forall>t \<in> set ts. tree_key t \<noteq> ''resin:include''"
  shows "\<forall>t \<in> set (snd (foldl attr_step (v, ts) as)). tree_key t \<noteq> ''resin:include''"
  using assms
proof (induction as arbitrary: v ts)
  case (Cons a as)
  obtain v1 ts1 where s: "attr_step (v, ts) a = (v1, ts1)" by (rule prod.exhaust)
  have "\<forall>t \<in> set ts1. tree_key t \<noteq> ''resin:include''"
    using s Cons.prems by (auto simp: attr_step_def attr_ok_def name_ok_def split: if_splits)
  then show ?case using Cons.IH [of ts1 v1] Cons.prems(1) s by simp
qed simp

text \<open>The end of a tag, behind its attributes.\<close>

definition tag_rest :: "nat \<Rightarrow> nat \<Rightarrow> rstream \<Rightarrow> (int \<times> nat \<times> rstream) res" where
  "tag_rest p child s =
     (let (ch, is) = buf_read s;
          (ch, is) = skip_space ch is
      in if ch = code_of (CHR ''>'') then Inr (0, child, is)
         else if ch \<noteq> code_of (CHR ''/'') then
           bindR (parse_error (''expected '' @ quoted (code_of (CHR ''/'')) @ '' at '' @ quoted ch) is)
             (\<lambda>is. Inr (-1, p, is))
         else
           let (ch, is) = buf_read is in
           if ch = code_of (CHR ''>'') then Inr (1, p, is)
           else bindR (parse_error (''expected '' @ quoted (code_of (CHR ''>'')) @ '' at '' @ quoted ch) is)
                  (\<lambda>is. Inr (-1, p, is)))"

lemma tag_name:
  assumes "scanner_ok s" "c # is_input s = k @ concat (map render_attr as) @ d # rest" "tag_ok k" "list_all attr_ok as"
    and "d = CHR ''>'' \<or> d = CHR ''/''" "built (is_heap s) p par kp v ts"
  shows "\<exists>s1. parse_tag p (code_of c) s = tag_rest p (length (is_heap s)) s1 \<and>
      goes p s (d # rest) s1 \<and> token s1 [] \<and>
      built (is_heap s1) (length (is_heap s)) (Some p) k (fst (foldl attr_step (None, []) as)) (snd (foldl attr_step (None, []) as)) \<and>
      n_prev (is_heap s1 ! length (is_heap s)) = n_last (is_heap s ! p) \<and>
      building (is_heap s1) p par kp v ts (length (is_heap s)) (n_last (is_heap s ! p))"
proof -
  let ?c = "length (is_heap s)"
  note n = tag_codes [OF assms(3)]
  obtain e es where e: "concat (map render_attr as) @ d # rest = e # es"
    by (cases "concat (map render_attr as) @ d # rest") auto
  have e': "\<not> in_word (code_of e)"
    using e assms(5) by (cases as) (auto simp: render_attr_def in_word_def is_space_code_def)
  let ?s = "s\<lparr>is_length := 0\<rparr>"
  have r: "scanner_ok ?s" "token ?s []" using ready_restart assms(1) by auto
  have "\<exists>is'. read_token in_word (code_of c) ?s = Inr (code_of e, is') \<and> eats ?s es is' \<and> token is' ([] @ k)"
    by (rule read_token_ready [OF r]) (use n assms(2) e e' in auto)
  then obtain s2 where s2: "read_token in_word (code_of c) ?s = Inr (code_of e, s2)" "eats ?s es s2" "token s2 k" by auto
  have r2: "scanner_ok s2" by (rule eats_simps(3) [OF s2(2) r(1)])
  obtain s3 where s3: "get_token s2 = Inr (k, s3)" "eats s2 (is_input s2) s3"
    using get_token_ready [OF r2 s2(3) n(2)] by blast
  have h3: "is_heap s3 = is_heap s" "is_config s3 = is_config s" "scanner_ok s3" "is_input s3 = es"
    using eats_simps [OF s2(2)] eats_simps [OF s3(2)] r2 by simp_all
  obtain h1 where h1: "registry_add p k (is_heap s) = Inr (?c, h1)" "built h1 ?c (Some p) k None []"
    "\<forall>i < p. h1 ! i = is_heap s ! i" "n_prev (h1 ! p) = n_prev (is_heap s ! p)" "n_prev (h1 ! ?c) = n_last (is_heap s ! p)"
    "building h1 p par kp v ts ?c (n_last (is_heap s ! p))"
    using built_push_ex [OF assms(6), of k] by blast
  let ?s3 = "s3\<lparr>is_heap := h1\<rparr>"
  have r3: "scanner_ok ?s3" using h3(3) by (simp add: scanner_ok_def)
  obtain s4 where s4: "attribute_loop ?c (code_of e) ?s3 = Inr (0, s4)" "goes ?c ?s3 (d # rest) s4" "token s4 []"
    "built (is_heap s4) ?c (Some p) k (fst (foldl attr_step (None, []) as)) (snd (foldl attr_step (None, []) as))"
    using attributes_read [OF r3 assms(4,5), of "code_of e" rest e ?c "Some p" k None "[]"] e h3(4) h1(2) by auto
  have p: "p < ?c" by (rule built_bounds [OF assms(6)])
  have "goes p s (d # rest) s4"
    using s4(2) h1(3,4) h3 p by (simp add: goes_def)
  moreover have "building (is_heap s4) p par kp v ts ?c (n_last (is_heap s ! p))"
    by (rule building_cong [OF h1(6)]) (use s4(2) in \<open>simp add: goes_def\<close>)
  moreover have "n_prev (is_heap s4 ! ?c) = n_last (is_heap s ! p)" using s4(2) h1(5) by (simp add: goes_def)
  ultimately show ?thesis using s2(1,3) s3(1) s4 h1(1) h3(1) n(1)
    by (intro exI [of _ s4]) (simp add: parse_tag_def tag_rest_def token_def)
qed

lemma markup_tag:
  assumes "is_input s = k @ r" "tag_ok k" "hd k \<noteq> CHR ''!''" "hd k \<noteq> CHR ''?''"
  shows "\<exists>s0. markup inc p s = bindR (parse_tag p (code_of (hd k)) s0) (\<lambda>(result, node, is).
          if result < 0 then Inr (False, node, is)
          else bindR (check_include inc (Some node) is) (\<lambda>is. Inr (True, node, is))) \<and>
    eats s (tl k @ r) s0"
proof -
  have k: "is_input s = hd k # tl k @ r" using assms(1) tag_codes(1) [OF assms(2)] by simp
  obtain s0 where s0: "buf_read s = (code_of (hd k), s0)" "eats s (tl k @ r) s0" using eats_buf [OF k] by blast
  have "code_of (hd k) \<noteq> 33" "code_of (hd k) \<noteq> 63" "code_of (hd k) \<noteq> 47"
    using assms(3,4) tag_codes(4) [OF assms(2), of "hd k"] tag_codes(1) [OF assms(2)]
      of_char_eq_iff [of "hd k" "CHR ''!''", where 'a = int] of_char_eq_iff [of "hd k" "CHR ''?''", where 'a = int]
    by (auto simp: in_name_def)
  then show ?thesis using s0 by (intro exI [of _ s0]) (simp add: markup_def)
qed

text \<open>A start tag opens a child; an empty element's tag adds a complete one.\<close>

text \<open>Both kinds of tag up to their end, with the new child at the end of the heap.\<close>

definition child_building :: "nat \<Rightarrow> nat option \<Rightarrow> string \<Rightarrow> string option \<Rightarrow> tree list \<Rightarrow> string \<Rightarrow> (string \<times> string) list \<Rightarrow> heap \<Rightarrow> heap \<Rightarrow> bool" where
  "child_building p par kp v ts k as h h1 \<longleftrightarrow>
     built h1 (length h) (Some p) k (fst (foldl attr_step (None, []) as)) (snd (foldl attr_step (None, []) as)) \<and>
     n_prev (h1 ! length h) = n_last (h ! p) \<and> building h1 p par kp v ts (length h) (n_last (h ! p))"

lemma open_tag:
  assumes "scanner_ok s" "is_input s = k @ concat (map render_attr as) @ d # rest" "tag_ok k"
    and "hd k \<noteq> CHR ''!''" "hd k \<noteq> CHR ''?''" "list_all attr_ok as" "d = CHR ''>'' \<or> d = CHR ''/''" "built (is_heap s) p par kp v ts"
  shows "\<exists>s1. markup inc p s = bindR (tag_rest p (length (is_heap s)) s1) (\<lambda>(result, node, is).
          if result < 0 then Inr (False, node, is)
          else bindR (check_include inc (Some node) is) (\<lambda>is. Inr (True, node, is))) \<and>
    goes p s (d # rest) s1 \<and> token s1 [] \<and> child_building p par kp v ts k as (is_heap s) (is_heap s1)"
proof -
  obtain s0 where s0: "markup inc p s = bindR (parse_tag p (code_of (hd k)) s0) (\<lambda>(result, node, is).
          if result < 0 then Inr (False, node, is)
          else bindR (check_include inc (Some node) is) (\<lambda>is. Inr (True, node, is)))"
    "eats s (tl k @ concat (map render_attr as) @ d # rest) s0"
    using markup_tag [OF assms(2-5)] by blast
  note h0 = eats_simps [OF s0(2)]
  have k: "hd k # is_input s0 = k @ concat (map render_attr as) @ d # rest"
    using h0(1) tag_codes(1) [OF assms(3)] by simp
  have p0: "built (is_heap s0) p par kp v ts" using assms(8) h0(4) by simp
  obtain s1 where s1: "parse_tag p (code_of (hd k)) s0 = tag_rest p (length (is_heap s0)) s1"
    "goes p s0 (d # rest) s1" "token s1 []" "child_building p par kp v ts k as (is_heap s0) (is_heap s1)"
    using tag_name [OF h0(3) [OF assms(1)] k assms(3,6,7) p0] unfolding child_building_def by blast
  have "goes p s (d # rest) s1" using goes_eats [OF assms(1) s0(2), of p] s1(2) by (simp add: goes_def)
  then show ?thesis using s0(1) s1(1,3,4) h0(4) by auto
qed

lemma start_tag:
  assumes "scanner_ok s" "is_input s = k @ concat (map render_attr as) @ CHR ''>'' # rest" "name_ok k"
    and "hd k \<noteq> CHR ''!''" "hd k \<noteq> CHR ''?''" "list_all attr_ok as" "built (is_heap s) p par kp v ts"
  shows "\<exists>s1. markup inc p s = Inr (True, length (is_heap s), s1) \<and> goes p s rest s1 \<and> token s1 [] \<and>
      child_building p par kp v ts k as (is_heap s) (is_heap s1)"
proof -
  let ?c = "length (is_heap s)"
  obtain s1 where s1: "markup inc p s = bindR (tag_rest p ?c s1) (\<lambda>(result, node, is).
          if result < 0 then Inr (False, node, is)
          else bindR (check_include inc (Some node) is) (\<lambda>is. Inr (True, node, is)))"
    "goes p s (CHR ''>'' # rest) s1" "token s1 []" "child_building p par kp v ts k as (is_heap s) (is_heap s1)"
    using open_tag [OF assms(1,2) name_codes(8) [OF assms(3)] assms(4-6) _ assms(7)] by blast
  obtain s2 where s2: "buf_read s1 = (62, s2)" "eats s1 rest s2" "token s2 []"
    using eats_buf [OF goesD(1) [OF s1(2)], of "[]"] s1(3) by auto
  note h2 = eats_simps [OF s2(2)]
  have "check_include inc (Some ?c) s2 = Inr s2"
  proof (rule check_include_none)
    show "built (is_heap s2) ?c (Some p) k (fst (foldl attr_step (None, []) as)) (snd (foldl attr_step (None, []) as))"
      using s1(4) h2(4) by (simp add: child_building_def)
    show "tree_key (last (snd (foldl attr_step (None, []) as))) \<noteq> ''resin:include''"
      if "snd (foldl attr_step (None, []) as) \<noteq> []"
      using attr_keys [OF assms(6), of "[]" None] last_in_set [OF that] by auto
  qed
  moreover have "goes p s rest s2"
    using s1(2) goes_eats [OF goesD(2) [OF s1(2)] s2(2), of p] by (simp add: goes_def)
  ultimately show ?thesis using s1(1,4) s2 h2(4)
    by (intro exI [of _ s2]) (simp add: tag_rest_def skip_no_space quote_codes)
qed

lemma empty_tag_read:
  assumes "scanner_ok s" "is_input s = k @ concat (map render_attr as) @ CHR ''/'' # CHR ''>'' # rest" "tag_ok k"
    and "hd k \<noteq> CHR ''!''" "hd k \<noteq> CHR ''?''" "list_all attr_ok as" "built (is_heap s) p par kp v ts"
  shows "\<exists>s1. markup inc p s = bindR (check_include inc (Some p) s1) (\<lambda>is. Inr (True, p, is)) \<and> goes p s rest s1 \<and>
      child_building p par kp v ts k as (is_heap s) (is_heap s1)"
proof -
  obtain s1 where s1: "markup inc p s = bindR (tag_rest p (length (is_heap s)) s1) (\<lambda>(result, node, is).
          if result < 0 then Inr (False, node, is)
          else bindR (check_include inc (Some node) is) (\<lambda>is. Inr (True, node, is)))"
    "goes p s (CHR ''/'' # CHR ''>'' # rest) s1" "child_building p par kp v ts k as (is_heap s) (is_heap s1)"
    using open_tag [OF assms(1-6) _ assms(7)] by blast
  obtain s2 where s2: "buf_read s1 = (47, s2)" "eats s1 (CHR ''>'' # rest) s2"
    using eats_buf [OF goesD(1) [OF s1(2)]] by auto
  obtain s3 where s3: "buf_read s2 = (62, s3)" "eats s2 rest s3"
    using eats_buf [OF eats_simps(1) [OF s2(2)]] by auto
  have "goes p s rest s3"
    using s1(2) goes_eats [OF goesD(2) [OF s1(2)] eats_trans [OF s2(2) s3(2)], of p] by (simp add: goes_def)
  then show ?thesis using s1(1,3) s2 s3 eats_simps(4) [OF s2(2)] eats_simps(4) [OF s3(2)]
    by (intro exI [of _ s3]) (simp add: tag_rest_def skip_no_space quote_codes)
qed

lemma child_closed:
  "child_building p par kp v ts k as h h1 \<Longrightarrow>
   built h1 p par kp v (ts @ [Node k (fst (foldl attr_step (None, []) as)) (snd (foldl attr_step (None, []) as))])"
  unfolding child_building_def using building_close by blast

lemma empty_tag:
  assumes "scanner_ok s" "is_input s = k @ concat (map render_attr as) @ CHR ''/'' # CHR ''>'' # rest" "name_ok k"
    and "hd k \<noteq> CHR ''!''" "hd k \<noteq> CHR ''?''" "list_all attr_ok as" "built (is_heap s) p par kp v ts"
  shows "\<exists>s1. markup inc p s = Inr (True, p, s1) \<and> goes p s rest s1 \<and>
      built (is_heap s1) p par kp v
        (ts @ [Node k (fst (foldl attr_step (None, []) as)) (snd (foldl attr_step (None, []) as))])"
proof -
  obtain s1 where s1: "markup inc p s = bindR (check_include inc (Some p) s1) (\<lambda>is. Inr (True, p, is))" "goes p s rest s1"
    "child_building p par kp v ts k as (is_heap s) (is_heap s1)"
    using empty_tag_read [OF assms(1,2) name_codes(8) [OF assms(3)] assms(4-7)] by blast
  have "check_include inc (Some p) s1 = Inr s1"
    by (rule check_include_none [OF child_closed [OF s1(3)]]) (use name_codes(4) [OF assms(3)] in simp)
  then show ?thesis using s1(1,2) child_closed [OF s1(3)] by (intro exI [of _ s1]) simp
qed

text \<open>
  \<open>includes_as inc I\<close>: the parser's routine for an include, behind a sibling, has the effect that
  \<open>I\<close> says, for the paths in \<open>fs\<close>.
\<close>

definition includes_as :: "(nat \<Rightarrow> heap \<times> config \<Rightarrow> (heap \<times> config) res) \<Rightarrow> (string \<Rightarrow> tree list) \<Rightarrow> string set \<Rightarrow> bool" where
  "includes_as inc I fs \<longleftrightarrow> (\<forall>h p par k v ts c z f cfg. f \<in> fs \<longrightarrow> f \<noteq> [] \<longrightarrow> ts \<noteq> [] \<longrightarrow>
     building h p par k v ts c (Some z) \<longrightarrow> built h c (Some p) ''resin:include'' None [Node ''href'' (Some f) []] \<longrightarrow>
     n_prev (h ! c) = Some z \<longrightarrow>
     (\<exists>h2. inc c (h, cfg) = Inr (h2, cfg) \<and> (\<forall>i < p. h2 ! i = h ! i) \<and> n_prev (h2 ! p) = n_prev (h ! p) \<and>
        built h2 p par k v (ts @ included f (I f))))"

lemma include_tag_codes:
  "tag_ok ''resin:include''" "hd ''resin:include'' \<noteq> CHR ''!''" "hd ''resin:include'' \<noteq> CHR ''?''"
  by (simp_all add: tag_ok_def is_cstring_def in_name_def is_space_code_def)

lemma include_tag:
  assumes "includes_as inc I fs" "f \<in> fs" "f \<noteq> []" "attr_ok (''href'', f)" "ts \<noteq> []"
    and "scanner_ok s" "is_input s = ''resin:include'' @ render_attr (''href'', f) @ CHR ''/'' # CHR ''>'' # rest"
    and "built (is_heap s) p par kp v ts"
  shows "\<exists>s1. markup inc p s = Inr (True, p, s1) \<and> goes p s rest s1 \<and> built (is_heap s1) p par kp v (ts @ included f (I f))"
proof -
  let ?as = "[(''href'', f)]" let ?c = "length (is_heap s)"
  have inp: "is_input s = ''resin:include'' @ concat (map render_attr ?as) @ CHR ''/'' # CHR ''>'' # rest"
    "list_all attr_ok ?as" using assms(4,7) by simp_all
  obtain s1 where s1: "markup inc p s = bindR (check_include inc (Some p) s1) (\<lambda>is. Inr (True, p, is))" "goes p s rest s1"
    "child_building p par kp v ts ''resin:include'' ?as (is_heap s) (is_heap s1)"
    using empty_tag_read [OF assms(6) inp(1) include_tag_codes inp(2) assms(8)] by blast
  have b: "p < ?c" "laid (is_heap s) p (Suc p) ?c (n_first (is_heap s ! p)) ts None"
    "n_last (is_heap s ! p) = last_root (is_heap s) (n_first (is_heap s ! p)) ts"
    using assms(8) by (simp_all add: built_def)
  obtain z where z: "n_last (is_heap s ! p) = Some z" using laid_last [OF b(2) assms(5)] b(3) by auto
  have o: "building (is_heap s1) p par kp v ts ?c (Some z)" "n_prev (is_heap s1 ! ?c) = Some z"
    "built (is_heap s1) ?c (Some p) ''resin:include'' None [Node ''href'' (Some f) []]"
    using s1(3) z by (simp_all add: child_building_def attr_step_def)
  obtain h2 where h2: "inc ?c (is_heap s1, is_config s1) = Inr (h2, is_config s1)" "\<forall>i < p. h2 ! i = is_heap s1 ! i"
    "n_prev (h2 ! p) = n_prev (is_heap s1 ! p)" "built h2 p par kp v (ts @ included f (I f))"
    using assms(1) [unfolded includes_as_def, rule_format, OF assms(2,3,5) o(1,3,2)] by blast
  have "p < length (is_heap s1)" "n_last (is_heap s1 ! p) = Some ?c" "?c < length (is_heap s1)" "n_key (is_heap s1 ! ?c) = ''resin:include''"
    using o(1,3) by (simp_all add: building_def built_def)
  then have "check_include inc (Some p) s1 = Inr (s1\<lparr>is_heap := h2, is_config := is_config s1\<rparr>)"
    using h2(1) by (simp add: check_include_def get_node_def)
  then show ?thesis using s1(1,2) h2(2-4)
    by (intro exI [of _ "s1\<lparr>is_heap := h2, is_config := is_config s1\<rparr>"]) (simp add: goes_def scanner_ok_def)
qed

lemma end_tag_name:
  assumes "scanner_ok s" "is_input s = CHR ''/'' # k @ CHR ''>'' # rest" "name_ok k" "c < length (is_heap s)"
  shows "\<exists>s0 s3. buf_read s = (47, s0) \<and> parse_end_tag c s0 = Inr (1, n_parent (is_heap s ! c), s3) \<and> hc s3 = hc s \<and>
    is_input s3 = rest \<and> scanner_ok s3"
proof -
  note n = name_codes [OF assms(3)]
  obtain s0 where s0: "buf_read s = (47, s0)" "eats s (k @ CHR ''>'' # rest) s0"
    using eats_buf [OF assms(2)] by auto
  let ?s0 = "s0\<lparr>is_length := 0\<rparr>"
  have r0: "scanner_ok ?s0" "token ?s0 []" using ready_restart eats_simps(3) [OF s0(2) assms(1)] by auto
  have k: "is_input ?s0 = hd k # tl k @ CHR ''>'' # rest" using eats_simps(1) [OF s0(2)] n(1) by simp
  obtain s1 where s1: "buf_read ?s0 = (code_of (hd k), s1)" "eats ?s0 (tl k @ CHR ''>'' # rest) s1" "token s1 []"
    using eats_buf [OF k, of "[]"] r0(2) by blast
  have r1: "scanner_ok s1" by (rule eats_simps(3) [OF s1(2) r0(1)])
  have "\<exists>is'. read_token in_word (code_of (hd k)) s1 = Inr (code_of (CHR ''>''), is') \<and> eats s1 rest is' \<and> token is' ([] @ k)"
    by (rule read_token_ready [OF r1 s1(3)]) (use n eats_simps(1) [OF s1(2)] in \<open>auto simp: in_word_def\<close>)
  then obtain s2 where s2: "read_token in_word (code_of (hd k)) s1 = Inr (62, s2)" "eats s1 rest s2" "token s2 k" by auto
  have r2: "scanner_ok s2" by (rule eats_simps(3) [OF s2(2) r1])
  obtain s3 where s3: "get_token s2 = Inr (k, s3)" "eats s2 (is_input s2) s3"
    using get_token_ready [OF r2 s2(3) n(2)] by blast
  have h: "is_heap s3 = is_heap s" "hc s3 = hc s" "is_input s3 = rest" "scanner_ok s3"
    using eats_simps [OF s0(2)] eats_simps [OF s1(2)] eats_simps [OF s2(2)] eats_simps [OF s3(2)] r2 by (simp_all add: hc_def)
  have "get_node (is_heap s3) (Some c) = Inr (is_heap s ! c)" using assms(4) h(1) by (simp add: get_node_def)
  then show ?thesis using s0(1) s1(1) s2(1,3) s3(1) h n(1)
    by (intro exI [of _ s0] exI [of _ s3]) (simp add: parse_end_tag_def token_def skip_no_space quote_codes)
qed

lemma end_tag:
  assumes "scanner_ok s" "is_input s = CHR ''/'' # k @ CHR ''>'' # rest" "name_ok k"
    and "built (is_heap s) c (Some p) kc vc us" "built (is_heap s) p par kp v ts" "ts \<noteq> []" "tree_key (last ts) \<noteq> ''resin:include''"
  shows "\<exists>s1. markup inc c s = Inr (True, p, s1) \<and> goes p s rest s1 \<and> is_heap s1 = is_heap s"
proof -
  obtain s0 s3 where s: "buf_read s = (47, s0)" "parse_end_tag c s0 = Inr (1, n_parent (is_heap s ! c), s3)" "hc s3 = hc s"
    "is_input s3 = rest" "scanner_ok s3"
    using end_tag_name [OF assms(1-3) built_bounds [OF assms(4)]] by blast
  have h: "is_heap s3 = is_heap s" "is_config s3 = is_config s" using s(3) by (simp_all add: hc_def)
  have "n_parent (is_heap s ! c) = Some p" using assms(4) by (simp add: built_def)
  moreover have "check_include inc (Some p) s3 = Inr s3"
    by (rule check_include_none [where ts = ts]) (use assms(5-7) h in auto)
  ultimately show ?thesis using s h by (intro exI [of _ s3]) (simp add: markup_def goes_def)
qed

text \<open>An end tag that closes no element.\<close>

lemma end_tag_root:
  assumes "scanner_ok s" "is_input s = CHR ''/'' # k @ CHR ''>'' # rest" "name_ok k" "built (is_heap s) c None kc vc us"
  shows "markup inc c s = Inl NullPointer"
proof -
  obtain s0 s3 where s: "buf_read s = (47, s0)" "parse_end_tag c s0 = Inr (1, n_parent (is_heap s ! c), s3)"
    using end_tag_name [OF assms(1-3) built_bounds [OF assms(4)]] by blast
  have "n_parent (is_heap s ! c) = None" using assms(4) by (simp add: built_def)
  then show ?thesis using s by (simp add: markup_def check_include_def get_node_def)
qed

subsection \<open>Whole documents\<close>

lemma included_nonempty [simp]: "included f ts \<noteq> []"
  by (simp add: included_def)

lemma denote_nonempty: "es \<noteq> [] \<Longrightarrow> snd (denote I so es) \<noteq> []"
  by (cases "(I, so, es)" rule: denote.cases) (auto simp: Let_def split: prod.splits)

lemma denote_Elem:
  "denote I so (Elem k as body kids tail # es) =
     (let x = foldl attr_step (None, []) as;
          d = denote I (so \<and> white body) kids;
          e = denote I (fst d \<and> white tail) es
      in (fst e, Node k (settle (so \<and> white body) (fst x) (snd x) body) (snd x @ snd d) # snd e))"
  by (simp add: Let_def split_def)

lemma denote_Include:
  "denote I so (Include f tail # es) =
     (let e = denote I (so \<and> white tail) es in (fst e, included f (I f) @ snd e))"
  by (simp add: Let_def split_def)

lemma denote_Empty:
  "denote I so (Empty k as tail # es) =
     (let x = foldl attr_step (None, []) as;
          e = denote I (so \<and> white tail) es
      in (fst e, Node k (fst x) (snd x) # snd e))"
  by (simp add: Let_def split_def)

text \<open>
  From a node \<open>p\<close> with children \<open>ts\<close>, the parser reads \<open>render es\<close> and has appended the trees of
  \<open>es\<close> to them; unless \<open>first\<close>, there is a child already.
\<close>

definition reads_as ::
    "(nat \<Rightarrow> heap \<times> config \<Rightarrow> (heap \<times> config) res) \<Rightarrow> (string \<Rightarrow> tree list) \<Rightarrow> bool \<Rightarrow> bool \<Rightarrow> elem list \<Rightarrow> bool" where
  "reads_as inc I first so es \<longleftrightarrow> (\<forall>is p par k v ts body rest. (\<not> first \<longrightarrow> ts \<noteq> []) \<longrightarrow>
     scanner_ok is \<longrightarrow> is_input is = render es @ rest \<longrightarrow> built (is_heap is) p par k v ts \<longrightarrow>
     (\<not> so \<and> v = None \<and> ts = [] \<longrightarrow> token is body \<and> is_cstring body) \<longrightarrow>
     (\<exists>is'. parse_loop inc p so is = parse_loop inc p (fst (denote I so es)) is' \<and> goes p is rest is' \<and>
        built (is_heap is') p par k (if es = [] then v else settle so v ts body) (ts @ snd (denote I so es)) \<and>
        (es = [] \<longrightarrow> is' = is)))"

lemma reads_asE:
  assumes "reads_as inc I first so es" "\<not> first \<longrightarrow> ts \<noteq> []" "scanner_ok is" "is_input is = render es @ rest" "built (is_heap is) p par k v ts"
    and "\<not> so \<and> v = None \<and> ts = [] \<longrightarrow> token is body \<and> is_cstring body"
  obtains is' where "parse_loop inc p so is = parse_loop inc p (fst (denote I so es)) is'" "goes p is rest is'"
    "built (is_heap is') p par k (if es = [] then v else settle so v ts body) (ts @ snd (denote I so es))" "es = [] \<longrightarrow> is' = is"
  using assms unfolding reads_as_def by blast

text \<open>Reading up to a tag and settling the text before it.\<close>

lemma to_tag:
  assumes "scanner_ok is" "is_input is = CHR ''<'' # r" "built (is_heap is) p par k v ts"
    and "\<not> so \<and> v = None \<and> ts = [] \<longrightarrow> token is body \<and> is_cstring body"
  shows "\<exists>s. parse_loop inc p so is = bindR (markup inc p s) (\<lambda>r. case r of (ok, node, is) \<Rightarrow>
      if ok then parse_loop inc node so is else Inr (False, is)) \<and>
    goes p is r s \<and> built (is_heap s) p par k (settle so v ts body) ts"
proof -
  obtain s0 where s0: "parse_loop inc p so is = bindR (text_end p so s0) (\<lambda>is. bindR (markup inc p is) (\<lambda>r. case r of (ok, node, is) \<Rightarrow>
      if ok then parse_loop inc node so is else Inr (False, is)))" "eats is r s0" "token s0 body \<longleftrightarrow> token is body"
    using tag_start [OF assms(2)] by blast
  note h = eats_simps [OF s0(2)]
  have r0: "scanner_ok s0" using h(3) assms(1) by simp
  have p0: "built (is_heap s0) p par k v ts" using assms(3) h(4) by simp
  have t0: "\<not> so \<and> v = None \<and> ts = [] \<longrightarrow> token s0 body \<and> is_cstring body" using assms(4) s0(3) by simp
  obtain s where s: "text_end p so s0 = Inr s" "goes p s0 (is_input s0) s" "built (is_heap s) p par k (settle so v ts body) ts"
    using text_end_ready [OF r0 p0 t0] by blast
  have "parse_loop inc p so is = bindR (markup inc p s) (\<lambda>r. case r of (ok, node, is) \<Rightarrow>
      if ok then parse_loop inc node so is else Inr (False, is))"
    unfolding s0(1) s(1) bindR_simps ..
  moreover have "goes p is r s" using s(2) h by (simp add: goes_def)
  ultimately show ?thesis using s(3) by blast
qed

lemma settle_nonempty [simp]: "ts \<noteq> [] \<Longrightarrow> settle so v ts body = v"
  by (simp add: settle_def)

lemma settle_kids:
  "settle so' (if kids = [] then v else settle so v ats body) (ats @ snd (denote I so kids)) body =
     settle so v ats body" if "kids = [] \<Longrightarrow> so' = so"
  using that denote_nonempty [of kids I so] by (cases "kids = []") (auto simp: settle_def)

text \<open>Behind an element: the text up to the next one, and the elements that follow.\<close>

lemma read_tail:
  assumes "reads_as inc I False (so \<and> white tail) es" "CHR ''<'' \<notin> set tail"
    and "scanner_ok s" "is_input s = tail @ render es @ r" "built (is_heap s) p par k v ts" "ts \<noteq> []"
  shows "\<exists>s'. parse_loop inc p so s = parse_loop inc p (fst (denote I (so \<and> white tail) es)) s' \<and> goes p s r s' \<and>
    built (is_heap s') p par k v (ts @ snd (denote I (so \<and> white tail) es))"
proof -
  obtain s1 where s1: "parse_loop inc p so s = parse_loop inc p (so \<and> white tail) s1" "eats s (render es @ r) s1"
    using text_read [OF assms(3,4,2), of inc p so] by blast
  note h1 = eats_simps [OF s1(2)]
  have r1: "\<not> False \<longrightarrow> ts \<noteq> []" "scanner_ok s1" "built (is_heap s1) p par k v ts" using h1(3,4) assms(3,5,6) by simp_all
  obtain s2 where s2: "parse_loop inc p (so \<and> white tail) s1 = parse_loop inc p (fst (denote I (so \<and> white tail) es)) s2"
    "goes p s1 r s2" "built (is_heap s2) p par k (if es = [] then v else settle (so \<and> white tail) v ts [])
       (ts @ snd (denote I (so \<and> white tail) es))"
    by (rule reads_asE [OF assms(1) r1(1,2) h1(1) r1(3), of "[]"]) (use assms(6) in simp)
  have "goes p s r s2" using s2(2) h1 by (simp add: goes_def)
  then show ?thesis using s1(1) s2(1,3) assms(6) by (intro exI [of _ s2]) (simp cong: if_cong)
qed

text \<open>Inside an element: the text behind its start tag, and its elements, up to its end tag.\<close>

lemma read_inside:
  assumes kids: "reads_as inc I (ats = []) (so \<and> white body) kids"
    and body: "length body \<le> 1022" "is_cstring body" "CHR ''<'' \<notin> set body"
    and s: "scanner_ok s" "is_input s = body @ render kids @ CHR ''<'' # r" "token s []" "built (is_heap s) c par key v ats"
  defines "so1 \<equiv> so \<and> white body" and "d \<equiv> denote I (so \<and> white body) kids"
  shows "\<exists>s'. parse_loop inc c so s = bindR (markup inc c s') (\<lambda>r. case r of (ok, node, is) \<Rightarrow>
      if ok then parse_loop inc node (fst d) is else Inr (False, is)) \<and> goes c s r s' \<and>
    built (is_heap s') c par key (settle so1 v ats body) (ats @ snd d)"
proof -
  obtain s3 where s3: "parse_loop inc c so s = parse_loop inc c so1 s3" "eats s (render kids @ CHR ''<'' # r) s3" "token s3 body"
    using text_read [OF s(1,2) body(3), of inc c so] s(3) body(1) unfolding so1_def by auto
  note h3 = eats_simps [OF s3(2)]
  have r3: "\<not> ats = [] \<longrightarrow> ats \<noteq> []" "scanner_ok s3" "built (is_heap s3) c par key v ats"
    "\<not> so1 \<and> v = None \<and> ats = [] \<longrightarrow> token s3 body \<and> is_cstring body"
    using h3(3,4) s(1,4) s3(3) body(2) by simp_all
  obtain s4 where s4: "parse_loop inc c so1 s3 = parse_loop inc c (fst d) s4" "goes c s3 (CHR ''<'' # r) s4"
    "built (is_heap s4) c par key (if kids = [] then v else settle so1 v ats body) (ats @ snd d)"
    "kids = [] \<longrightarrow> s4 = s3"
    using reads_asE [OF kids r3(1,2) h3(1) r3(3,4) [unfolded so1_def]] unfolding so1_def d_def by blast
  have t4: "\<not> fst d \<and> (if kids = [] then v else settle so1 v ats body) = None \<and> ats @ snd d = [] \<longrightarrow> token s4 body \<and> is_cstring body"
    using s4(4) r3(4) denote_nonempty [of kids I so1] s3(3) body(2) by (cases "kids = []") (auto simp: d_def so1_def)
  obtain s5 where s5: "parse_loop inc c (fst d) s4 = bindR (markup inc c s5) (\<lambda>r. case r of (ok, node, is) \<Rightarrow>
      if ok then parse_loop inc node (fst d) is else Inr (False, is))" "goes c s4 r s5"
    "built (is_heap s5) c par key (settle so1 v ats body) (ats @ snd d)"
    using to_tag [OF goesD(2) [OF s4(2)] goesD(1) [OF s4(2)] s4(3) t4, of inc] settle_kids [where kids = kids and so' = "fst d" and so = so1 and v = v and ats = ats and body = body and I = I]
    by (auto simp: d_def so1_def)
  have "goes c s r s5" using s4(2) s5(2) h3 by (simp add: goes_def)
  then show ?thesis using s3(1) s4(1) s5(1,3) by auto
qed

lemma read_Elem:
  assumes ok: "elems_ok first (Elem key as body kids tail # es)"
    and kids: "reads_as inc I (snd (foldl attr_step (None, []) as) = []) (so \<and> white body) kids"
    and rest: "reads_as inc I False (fst (denote I (so \<and> white body) kids) \<and> white tail) es"
  shows "reads_as inc I first so (Elem key as body kids tail # es)"
  unfolding reads_as_def
proof (intro allI impI)
  fix "is" p par k v ts bd r
  assume a: "scanner_ok is" "is_input is = render (Elem key as body kids tail # es) @ r" "built (is_heap is) p par k v ts"
    "\<not> so \<and> v = None \<and> ts = [] \<longrightarrow> token is bd \<and> is_cstring bd"
  have o: "name_ok key" "hd key \<noteq> CHR ''!''" "hd key \<noteq> CHR ''?''" "list_all attr_ok as" "length body \<le> 1022"
    "is_cstring body" "CHR ''<'' \<notin> set body" "CHR ''<'' \<notin> set tail" using ok by simp_all
  let ?x = "foldl attr_step (None, []) as" and ?so1 = "so \<and> white body" let ?d = "denote I ?so1 kids"
  let ?r1 = "tail @ render es @ r" let ?r2 = "CHR ''/'' # key @ CHR ''>'' # ?r1"
  let ?v = "settle so v ts bd" let ?T = "Node key (settle ?so1 (fst ?x) (snd ?x) body) (snd ?x @ snd ?d)"
  have "is_input is = CHR ''<'' # key @ concat (map render_attr as) @ CHR ''>'' # body @ render kids @ CHR ''<'' # ?r2"
    using a(2) by simp
  from to_tag [OF a(1) this a(3,4), of inc] obtain s1 where s1: "parse_loop inc p so is = bindR (markup inc p s1) (\<lambda>r. case r of (ok, node, is) \<Rightarrow>
      if ok then parse_loop inc node so is else Inr (False, is))"
    "goes p is (key @ concat (map render_attr as) @ CHR ''>'' # body @ render kids @ CHR ''<'' # ?r2) s1" "built (is_heap s1) p par k ?v ts"
    by blast
  let ?c = "length (is_heap s1)"
  obtain s2 where s2: "markup inc p s1 = Inr (True, ?c, s2)" "goes p s1 (body @ render kids @ CHR ''<'' # ?r2) s2" "token s2 []"
      "built (is_heap s2) ?c (Some p) key (fst ?x) (snd ?x)" "building (is_heap s2) p par k ?v ts ?c (n_last (is_heap s1 ! p))"
    using start_tag [OF goesD(2) [OF s1(2)] goesD(1) [OF s1(2)] o(1-4) s1(3), of inc] unfolding child_building_def by auto
  obtain s5 where s5: "parse_loop inc ?c so s2 = bindR (markup inc ?c s5) (\<lambda>r. case r of (ok, node, is) \<Rightarrow>
      if ok then parse_loop inc node (fst ?d) is else Inr (False, is))" "goes ?c s2 ?r2 s5"
    "built (is_heap s5) ?c (Some p) key (settle ?so1 (fst ?x) (snd ?x) body) (snd ?x @ snd ?d)"
    using read_inside [OF kids o(5-7) goesD(2) [OF s2(2)] goesD(1) [OF s2(2)] s2(3,4)] by blast
  have p5: "built (is_heap s5) p par k ?v (ts @ [?T])"
    by (rule building_close [OF building_cong [OF s2(5)] s5(3)]) (use s5(2) in \<open>simp add: goes_def\<close>)
  obtain s6 where s6: "markup inc ?c s5 = Inr (True, p, s6)" "goes p s5 ?r1 s6" "is_heap s6 = is_heap s5"
    using end_tag [OF goesD(2) [OF s5(2)] goesD(1) [OF s5(2)] o(1) s5(3) p5] name_codes(4) [OF o(1)] by auto
  have p6: "built (is_heap s6) p par k ?v (ts @ [?T])" "ts @ [?T] \<noteq> []" using p5 s6(3) by simp_all
  obtain s8 where s8: "parse_loop inc p (fst ?d) s6 = parse_loop inc p (fst (denote I (fst ?d \<and> white tail) es)) s8"
    "goes p s6 r s8" "built (is_heap s8) p par k ?v ((ts @ [?T]) @ snd (denote I (fst ?d \<and> white tail) es))"
    using read_tail [OF rest o(8) goesD(2) [OF s6(2)] goesD(1) [OF s6(2)] p6] by blast
  have pc: "p < ?c" by (rule built_bounds [OF s1(3)])
  have "goes p is r s8" using s1(2) s2(2) s5(2) s6(2) s8(2) pc by (simp add: goes_def)
  then show "\<exists>is'. parse_loop inc p so is = parse_loop inc p (fst (denote I so (Elem key as body kids tail # es))) is' \<and>
      goes p is r is' \<and> built (is_heap is') p par k (if Elem key as body kids tail # es = [] then v else ?v)
        (ts @ snd (denote I so (Elem key as body kids tail # es))) \<and> (Elem key as body kids tail # es = [] \<longrightarrow> is' = is)"
    using s1(1) s2(1) s5(1) s6(1) s8(1,3) by (intro exI [of _ s8]) (simp add: denote_Elem Let_def del: denote.simps)
qed

lemma read_Empty:
  assumes ok: "elems_ok first (Empty key as tail # es)" and rest: "reads_as inc I False (so \<and> white tail) es"
  shows "reads_as inc I first so (Empty key as tail # es)"
  unfolding reads_as_def
proof (intro allI impI)
  fix "is" p par k v ts bd r
  assume a: "scanner_ok is" "is_input is = render (Empty key as tail # es) @ r" "built (is_heap is) p par k v ts"
    "\<not> so \<and> v = None \<and> ts = [] \<longrightarrow> token is bd \<and> is_cstring bd"
  have o: "name_ok key" "hd key \<noteq> CHR ''!''" "hd key \<noteq> CHR ''?''" "list_all attr_ok as" "CHR ''<'' \<notin> set tail"
    using ok by simp_all
  let ?x = "foldl attr_step (None, []) as"
  let ?r1 = "tail @ render es @ r" let ?v = "settle so v ts bd" let ?T = "Node key (fst ?x) (snd ?x)"
  have "is_input is = CHR ''<'' # key @ concat (map render_attr as) @ CHR ''/'' # CHR ''>'' # ?r1"
    using a(2) by simp
  from to_tag [OF a(1) this a(3,4), of inc] obtain s1 where s1: "parse_loop inc p so is = bindR (markup inc p s1) (\<lambda>r. case r of (ok, node, is) \<Rightarrow>
      if ok then parse_loop inc node so is else Inr (False, is))"
    "goes p is (key @ concat (map render_attr as) @ CHR ''/'' # CHR ''>'' # ?r1) s1" "built (is_heap s1) p par k ?v ts"
    by blast
  obtain s2 where s2: "markup inc p s1 = Inr (True, p, s2)" "goes p s1 ?r1 s2" "built (is_heap s2) p par k ?v (ts @ [?T])"
    using empty_tag [OF goesD(2) [OF s1(2)] goesD(1) [OF s1(2)] o(1-4) s1(3), of inc] by blast
  have ne: "ts @ [?T] \<noteq> []" by simp
  obtain s8 where s8: "parse_loop inc p so s2 = parse_loop inc p (fst (denote I (so \<and> white tail) es)) s8"
    "goes p s2 r s8" "built (is_heap s8) p par k ?v ((ts @ [?T]) @ snd (denote I (so \<and> white tail) es))"
    using read_tail [OF rest o(5) goesD(2) [OF s2(2)] goesD(1) [OF s2(2)] s2(3) ne] by blast
  have "goes p is r s8" using s1(2) s2(2) s8(2) by (simp add: goes_def)
  then show "\<exists>is'. parse_loop inc p so is = parse_loop inc p (fst (denote I so (Empty key as tail # es))) is' \<and>
      goes p is r is' \<and> built (is_heap is') p par k (if Empty key as tail # es = [] then v else ?v)
        (ts @ snd (denote I so (Empty key as tail # es))) \<and> (Empty key as tail # es = [] \<longrightarrow> is' = is)"
    using s1(1) s2(1) s8(1,3) by (intro exI [of _ s8]) (simp add: denote_Empty Let_def del: denote.simps)
qed

lemma read_Include:
  assumes ok: "elems_ok first (Include f tail # es)" and rest: "reads_as inc I False (so \<and> white tail) es"
    and inc: "includes_as inc I fs" "f \<in> fs"
  shows "reads_as inc I first so (Include f tail # es)"
  unfolding reads_as_def
proof (intro allI impI)
  fix "is" p par k v ts bd r
  assume a: "\<not> first \<longrightarrow> ts \<noteq> []" "scanner_ok is" "is_input is = render (Include f tail # es) @ r" "built (is_heap is) p par k v ts"
    "\<not> so \<and> v = None \<and> ts = [] \<longrightarrow> token is bd \<and> is_cstring bd"
  have o: "f \<noteq> []" "attr_ok (''href'', f)" "CHR ''<'' \<notin> set tail" and ts: "ts \<noteq> []" using ok a(1) by simp_all
  let ?r1 = "tail @ render es @ r"
  have "is_input is = CHR ''<'' # (''resin:include'' @ render_attr (''href'', f) @ CHR ''/'' # CHR ''>'' # ?r1)"
    using a(3) by simp
  from to_tag [OF a(2) this a(4,5), of inc] obtain s1 where s1: "parse_loop inc p so is = bindR (markup inc p s1) (\<lambda>r. case r of (ok, node, is) \<Rightarrow>
      if ok then parse_loop inc node so is else Inr (False, is))"
    "goes p is (''resin:include'' @ render_attr (''href'', f) @ CHR ''/'' # CHR ''>'' # ?r1) s1" "built (is_heap s1) p par k v ts"
    unfolding settle_nonempty [OF ts] by blast
  obtain s2 where s2: "markup inc p s1 = Inr (True, p, s2)" "goes p s1 ?r1 s2" "built (is_heap s2) p par k v (ts @ included f (I f))"
    using include_tag [OF inc o(1,2) ts goesD(2) [OF s1(2)] goesD(1) [OF s1(2)] s1(3)] by blast
  have ne: "ts @ included f (I f) \<noteq> []" by simp
  obtain s8 where s8: "parse_loop inc p so s2 = parse_loop inc p (fst (denote I (so \<and> white tail) es)) s8"
    "goes p s2 r s8" "built (is_heap s8) p par k v ((ts @ included f (I f)) @ snd (denote I (so \<and> white tail) es))"
    using read_tail [OF rest o(3) goesD(2) [OF s2(2)] goesD(1) [OF s2(2)] s2(3) ne] by blast
  have "goes p is r s8" using s1(2) s2(2) s8(2) by (simp add: goes_def)
  then show "\<exists>is'. parse_loop inc p so is = parse_loop inc p (fst (denote I so (Include f tail # es))) is' \<and>
      goes p is r is' \<and> built (is_heap is') p par k (if Include f tail # es = [] then v else settle so v ts bd)
        (ts @ snd (denote I so (Include f tail # es))) \<and> (Include f tail # es = [] \<longrightarrow> is' = is)"
    using s1(1) s2(1) s8(1,3) ts by (intro exI [of _ s8]) (simp add: denote_Include Let_def del: denote.simps)
qed

lemma read_Nil: "reads_as inc I first so []"
  by (auto simp: reads_as_def goes_def)

lemma reads_document:
  assumes "includes_as inc I fs" "elems_ok first es" "set (hrefs es) \<subseteq> fs"
  shows "reads_as inc I first so es"
  using assms(2,3)
proof (induction es arbitrary: first so rule: render.induct)
  case 1
  show ?case by (rule read_Nil)
next
  case (2 k as body kids tail es)
  then show ?case by (intro read_Elem) simp_all
next
  case (3 k as tail es)
  then show ?case by (intro read_Empty) simp_all
next
  case (4 f tail es)
  then show ?case by (intro read_Include [OF _ _ assms(1)]) simp_all
qed

lemma document_read:
  assumes "includes_as inc I (set (hrefs es))" "elems_ok True es" "white lead"
    and "scanner_ok is" "is_input is = lead @ render es @ rest" "built (is_heap is) r None [] None []"
  shows "\<exists>is'. parse_loop inc r True is = parse_loop inc r (fst (denote I True es)) is' \<and> goes r is rest is' \<and>
    built (is_heap is') r None [] None (snd (denote I True es))"
proof -
  have "\<not> white_char (CHR ''<'')" by (simp add: white_char_def)
  then have lead: "CHR ''<'' \<notin> set lead" "(True \<and> white lead) = True"
    using assms(3) unfolding white_def list_all_iff by blast+
  obtain s1 where s1: "parse_loop inc r True is = parse_loop inc r True s1" "eats is (render es @ rest) s1"
    using text_read [OF assms(4) _ lead(1), of "render es @ rest" inc r True, unfolded lead(2)] assms(5) by auto
  note h1 = eats_simps [OF s1(2)]
  have p1: "\<not> True \<longrightarrow> [] \<noteq> []" "scanner_ok s1" "is_input s1 = render es @ rest" "built (is_heap s1) r None [] None []"
    using h1 assms(4,6) by simp_all
  obtain s2 where s2: "parse_loop inc r True s1 = parse_loop inc r (fst (denote I True es)) s2" "goes r s1 rest s2"
    "built (is_heap s2) r None [] (if es = [] then None else settle True None [] []) ([] @ snd (denote I True es))"
    by (rule reads_asE [OF reads_document [OF assms(1,2) order_refl] p1, of True "[]"]) simp
  have "goes r is rest s2" using s2(2) h1 by (simp add: goes_def)
  then show ?thesis using s1(1) s2(1,3) by (intro exI [of _ s2]) (simp add: settle_def cong: if_cong)
qed

text \<open>The state in which the parser starts on a file.\<close>

lemma parse_file_start:
  "\<exists>is. scanner_ok is \<and> is_input is = content \<and> is_heap is = h @ [new_node []] \<and> is_config is = c \<and>
    built (is_heap is) (length h) None [] None [] \<and>
    parse_file junk open_parse content path (h, c) = bindR (parse_loop (parse_include open_parse path) (length h) True is) (\<lambda>(ok, is).
      Inr (if ok then Some (length h) else None, is_heap is, is_config is))"
  by (intro exI [of _ "\<lparr>is_config = c, is_heap = h @ [new_node []], is_input = content, is_path = path, is_line = 1,
      is_buf = fresh_memory junk 1024, is_length = 0, is_capacity = 1024, is_junk = junk\<rparr>"])
    (simp add: parse_file_def scanner_ok_def built_def new_node_def Let_def)

lemma parse_file_document:
  assumes "includes_as (parse_include open_parse path) I (set (hrefs es))" "elems_ok True es" "white lead"
  shows "\<exists>h'. parse_file junk open_parse (lead @ render es) path (h, c) = Inr (Some (length h), h', c) \<and>
    take (length h) h' = h \<and> built h' (length h) None [] None (snd (denote I True es))"
proof -
  let ?r = "length h" let ?inc = "parse_include open_parse path"
  obtain s0 where s0: "scanner_ok s0" "is_input s0 = lead @ render es" "is_heap s0 = h @ [new_node []]" "is_config s0 = c"
    "built (is_heap s0) ?r None [] None []"
    "parse_file junk open_parse (lead @ render es) path (h, c) = bindR (parse_loop ?inc ?r True s0) (\<lambda>(ok, is).
      Inr (if ok then Some ?r else None, is_heap is, is_config is))"
    using parse_file_start by blast
  obtain s2 where s2: "parse_loop ?inc ?r True s0 = parse_loop ?inc ?r (fst (denote I True es)) s2" "goes ?r s0 [] s2"
    "built (is_heap s2) ?r None [] None (snd (denote I True es))"
    using document_read [OF assms s0(1) _ s0(5), of "[]"] s0(2) by auto
  obtain s3 where s3: "buf_read s2 = (-1, s3)" "s3 = s2"
    using goesD(1) [OF s2(2)] by (simp add: buf_read_Nil)
  have "parse_loop ?inc ?r (fst (denote I True es)) s2 = Inr (True, s2)"
    using s3 by (simp add: parse_loop.simps [of ?inc ?r _ s2])
  then have "parse_file junk open_parse (lead @ render es) path (h, c) = Inr (Some ?r, is_heap s2, is_config s2)"
    using s0(6) s2(1) by simp
  moreover have "is_config s2 = c" using s2(2) s0(4) by (simp add: goes_def)
  moreover have "take ?r (is_heap s2) = h"
  proof (rule nth_equalityI)
    have "?r < length (is_heap s2)" by (rule built_bounds [OF s2(3)])
    then show "length (take ?r (is_heap s2)) = length h" by simp
    fix i assume "i < length (take ?r (is_heap s2))"
    then show "take ?r (is_heap s2) ! i = h ! i" using s2(2) s0(3) by (simp add: goes_def nth_append)
  qed
  ultimately show ?thesis using s2(3) by simp
qed

text \<open>Files among files.\<close>

lemma includes_asI:
  assumes "\<And>f. f \<in> fs \<Longrightarrow> \<exists>sub. include_path path f = Inr sub \<and> (\<forall>h c.
      open_parse sub (h, c) = Inr (None, h, c) \<and> I f = [] \<or>
      (\<exists>h'. open_parse sub (h, c) = Inr (Some (Some (length h)), h', c) \<and> take (length h) h' = h \<and> built h' (length h) None [] None (I f)))"
  shows "includes_as (parse_include open_parse path) I fs"
  unfolding includes_as_def
proof (intro allI impI)
  fix h p par k v ts c z f cfg
  assume f: "f \<in> fs" "f \<noteq> []" "ts \<noteq> []" and o: "building h p par k v ts c (Some z)"
    "built h c (Some p) ''resin:include'' None [Node ''href'' (Some f) []]" "n_prev (h ! c) = Some z"
  have left: "built h p par k v (ts @ included f [])" using building_close [OF o(1,2)] by (simp add: included_def)
  obtain sub where sub: "include_path path f = Inr sub" "open_parse sub (h, cfg) = Inr (None, h, cfg) \<and> I f = [] \<or>
      (\<exists>h'. open_parse sub (h, cfg) = Inr (Some (Some (length h)), h', cfg) \<and> take (length h) h' = h \<and> built h' (length h) None [] None (I f))"
    using assms [OF f(1)] by blast
  show "\<exists>h2. parse_include open_parse path c (h, cfg) = Inr (h2, cfg) \<and> (\<forall>i < p. h2 ! i = h ! i) \<and> n_prev (h2 ! p) = n_prev (h ! p) \<and>
      built h2 p par k v (ts @ included f (I f))"
    using sub(2)
  proof (elim disjE exE conjE)
    assume none: "open_parse sub (h, cfg) = Inr (None, h, cfg)" "I f = []"
    from include_left [where open_parse = open_parse, OF o(2) f(2) sub(1) none(1)] show ?thesis using none(2) left by (intro exI [of _ h]) simp
  next
    fix h' assume h': "open_parse sub (h, cfg) = Inr (Some (Some (length h)), h', cfg)" "take (length h) h' = h"
      "built h' (length h) None [] None (I f)"
    show ?thesis
    proof (cases "I f = []")
      case True
      have same: "h' ! i = h ! i" if "i \<le> p" for i
        using h'(2) that built_bounds [OF left] by (metis nth_take order_le_less_trans)
      from include_left [where open_parse = open_parse, OF o(2) f(2) sub(1) h'(1)] h'(3) True built_grow [OF left h'(2)] same
      show ?thesis by (intro exI [of _ h']) simp
    next
      case False
      from include_placed [where open_parse = open_parse, OF o(1) f(3) o(2,3) f(2) sub(1) h'(1,2,3) False] False show ?thesis by (simp add: included_def)
    qed
  qed
qed

lemma cse_parse_document:
  assumes "docs_ok files docs" "docs path = Some (lead, es)"
  shows "\<exists>h'. cse_parse junk files n (lead @ render es) path (h, c) = Inr (Some (length h), h', c) \<and>
    take (length h) h' = h \<and> built h' (length h) None [] None (file_trees docs n path)"
  using assms(2)
proof (induction n arbitrary: path lead es h c)
  case 0
  have d: "white lead" "elems_ok True es" "\<forall>f \<in> set (hrefs es). \<exists>sub. include_path path f = Inr sub"
    using assms(1) 0 unfolding docs_ok_def by blast+
  have "includes_as (parse_include (\<lambda>subpath hc. Inr (None, hc)) path) (\<lambda>f. []) (set (hrefs es))"
    by (rule includes_asI) (use d(3) in simp)
  from parse_file_document [OF this d(2,1)] show ?case using 0 by simp
next
  case (Suc n)
  have d: "white lead" "elems_ok True es" "\<forall>f \<in> set (hrefs es). \<exists>sub. include_path path f = Inr sub \<and> (docs sub = None \<longrightarrow> files sub = None)"
    using assms(1) Suc.prems unfolding docs_ok_def by blast+
  let ?open = "\<lambda>subpath hc. case files subpath of
       None \<Rightarrow> Inr (None, hc)
     | Some content \<Rightarrow> bindR (cse_parse junk files n content subpath hc) (\<lambda>(root, hc). Inr (Some root, hc))"
  let ?I = "\<lambda>f. case include_path path f of Inl _ \<Rightarrow> [] | Inr sub \<Rightarrow> file_trees docs n sub"
  have "includes_as (parse_include ?open path) ?I (set (hrefs es))"
  proof (rule includes_asI)
    fix f assume "f \<in> set (hrefs es)"
    from bspec [OF d(3) this] obtain sub where sub: "include_path path f = Inr sub" "docs sub = None \<longrightarrow> files sub = None"
      by (elim exE conjE)
    have "?open sub (h, c) = Inr (None, h, c) \<and> file_trees docs n sub = [] \<or>
      (\<exists>h'. ?open sub (h, c) = Inr (Some (Some (length h)), h', c) \<and> take (length h) h' = h \<and> built h' (length h) None [] None (file_trees docs n sub))"
      for h c
    proof (cases "docs sub")
      case None
      then show ?thesis using sub(2) by (cases n) simp_all
    next
      case (Some d)
      obtain lead' es' where d: "d = (lead', es')" by (rule prod.exhaust)
      have "files sub = Some (lead' @ render es')" using assms(1) Some unfolding d docs_ok_def by blast
      moreover obtain h' where "cse_parse junk files n (lead' @ render es') sub (h, c) = Inr (Some (length h), h', c)"
        "take (length h) h' = h" "built h' (length h) None [] None (file_trees docs n sub)"
        using Suc.IH [OF Some [unfolded d], of h c] by blast
      ultimately show ?thesis by simp
    qed
    then show "\<exists>sub. include_path path f = Inr sub \<and> (\<forall>h c.
      ?open sub (h, c) = Inr (None, h, c) \<and> ?I f = [] \<or>
      (\<exists>h'. ?open sub (h, c) = Inr (Some (Some (length h)), h', c) \<and> take (length h) h' = h \<and> built h' (length h) None [] None (?I f)))"
      using sub(1) by (intro exI [of _ sub]) simp
  qed
  from parse_file_document [OF this d(2,1)] show ?case using Suc.prems by simp
qed

lemma parse_file_stray:
  assumes "elems_ok True es" "hrefs es = []" "white lead" "name_ok k"
  shows "parse_file junk open_parse (lead @ render es @ ''</'' @ k @ ''>'' @ rest) path (h, c) = Inl NullPointer"
proof -
  let ?r = "length h" let ?inc = "parse_include open_parse path"
  let ?so = "fst (denote (\<lambda>f. []) True es)" let ?ts = "snd (denote (\<lambda>f. []) True es)"
  have inc: "includes_as ?inc (\<lambda>f. []) (set (hrefs es))" using assms(2) by (simp add: includes_as_def)
  obtain s0 where s0: "scanner_ok s0" "is_input s0 = lead @ render es @ ''</'' @ k @ ''>'' @ rest"
    "built (is_heap s0) ?r None [] None []"
    "parse_file junk open_parse (lead @ render es @ ''</'' @ k @ ''>'' @ rest) path (h, c) =
      bindR (parse_loop ?inc ?r True s0) (\<lambda>(ok, is). Inr (if ok then Some ?r else None, is_heap is, is_config is))"
    using parse_file_start [of "lead @ render es @ ''</'' @ k @ ''>'' @ rest" h c junk open_parse path] by blast
  obtain s2 where s2: "parse_loop ?inc ?r True s0 = parse_loop ?inc ?r ?so s2" "goes ?r s0 (''</'' @ k @ ''>'' @ rest) s2"
    "built (is_heap s2) ?r None [] None ?ts"
    using document_read [OF inc assms(1,3) s0(1,2,3)] by blast
  have quiet: "\<not> ?so \<and> None = None \<and> ?ts = [] \<longrightarrow> token s2 [] \<and> is_cstring []"
    using denote_nonempty [of es "\<lambda>f. []" True] by (cases es) auto
  have inp: "is_input s2 = CHR ''<'' # (CHR ''/'' # k @ CHR ''>'' # rest)" using goesD(1) [OF s2(2)] by simp
  obtain s where s: "parse_loop ?inc ?r ?so s2 = bindR (markup ?inc ?r s) (\<lambda>r. case r of (ok, node, is) \<Rightarrow>
      if ok then parse_loop ?inc node ?so is else Inr (False, is))"
    "goes ?r s2 (CHR ''/'' # k @ CHR ''>'' # rest) s" "built (is_heap s) ?r None [] (settle ?so None ?ts []) ?ts"
    using to_tag [OF goesD(2) [OF s2(2)] inp s2(3) quiet] by blast
  show ?thesis unfolding s0(4) s2(1) s(1) using end_tag_root [OF goesD(2) [OF s(2)] goesD(1) [OF s(2)] assms(4) s(3)] by simp
qed

text \<open>A file that begins with an include.\<close>

lemma parse_file_first_include:
  assumes "white lead" "f \<noteq> []" "attr_ok (''href'', f)" "CHR ''<'' \<notin> set tail" "include_path path f = Inr sub"
    and opens: "\<And>h. \<exists>h' us. open_parse sub (h, c) = Inr (Some (Some (length h)), h', c) \<and> take (length h) h' = h \<and> built h' (length h) None [] None us"
    and key: "key \<noteq> []" "key \<noteq> ''resin:include''"
  shows "\<exists>h'. parse_file junk open_parse (lead @ ''<resin:include'' @ render_attr (''href'', f) @ ''/>'' @ tail) path (h, c) =
      Inr (Some (length h), h', c) \<and> cse_next_link h' (n_first (h' ! length h)) key = Inr None"
proof -
  let ?r = "length h" let ?inc = "parse_include open_parse path" let ?as = "[(''href'', f)]"
  let ?text = "lead @ ''<resin:include'' @ render_attr (''href'', f) @ ''/>'' @ tail"
  let ?r1 = "''resin:include'' @ concat (map render_attr ?as) @ CHR ''/'' # CHR ''>'' # tail"
  have "\<not> white_char (CHR ''<'')" by (simp add: white_char_def)
  then have lead: "CHR ''<'' \<notin> set lead" "(True \<and> white lead) = True" using assms(1) unfolding white_def list_all_iff by blast+
  obtain s0 where s0: "scanner_ok s0" "is_input s0 = ?text" "is_config s0 = c" "built (is_heap s0) ?r None [] None []"
    "parse_file junk open_parse ?text path (h, c) =
      bindR (parse_loop ?inc ?r True s0) (\<lambda>(ok, is). Inr (if ok then Some ?r else None, is_heap is, is_config is))"
    using parse_file_start [of ?text h c junk open_parse path] by blast
  have "is_input s0 = lead @ CHR ''<'' # ?r1" using s0(2) by simp
  from text_read [OF s0(1) this lead(1), of ?inc ?r True, unfolded lead(2)]
  obtain s1 where s1: "parse_loop ?inc ?r True s0 = parse_loop ?inc ?r True s1" "eats s0 (CHR ''<'' # ?r1) s1" by blast
  note h1 = eats_simps [OF s1(2)]
  have p1: "scanner_ok s1" "built (is_heap s1) ?r None [] None []" "\<not> True \<and> (None :: string option) = None \<and> ([] :: tree list) = [] \<longrightarrow> token s1 [] \<and> is_cstring []"
    using h1(3,4) s0(1,4) by simp_all
  obtain s2 where s2: "parse_loop ?inc ?r True s1 = bindR (markup ?inc ?r s2) (\<lambda>r. case r of (ok, node, is) \<Rightarrow>
      if ok then parse_loop ?inc node True is else Inr (False, is))" "goes ?r s1 ?r1 s2" "built (is_heap s2) ?r None [] (settle True None [] []) []"
    using to_tag [OF p1(1) h1(1) p1(2,3), of ?inc] by blast
  let ?c = "length (is_heap s2)"
  have a: "list_all attr_ok ?as" using assms(3) by simp
  obtain s3 where s3: "markup ?inc ?r s2 = bindR (check_include ?inc (Some ?r) s3) (\<lambda>is. Inr (True, ?r, is))" "goes ?r s2 tail s3"
    "child_building ?r None [] (settle True None [] []) [] ''resin:include'' ?as (is_heap s2) (is_heap s3)"
    using empty_tag_read [OF goesD(2) [OF s2(2)] goesD(1) [OF s2(2)] include_tag_codes a s2(3), of ?inc] by blast
  have last: "n_last (is_heap s2 ! ?r) = None" using s2(3) by (simp add: built_def)
  have o: "building (is_heap s3) ?r None [] (settle True None [] []) [] ?c None" "n_prev (is_heap s3 ! ?c) = None"
    "built (is_heap s3) ?c (Some ?r) ''resin:include'' None [Node ''href'' (Some f) []]"
    using s3(3) last by (simp_all add: child_building_def attr_step_def)
  have c3: "is_config s3 = c" using s3(2) s2(2) h1 s0(3) by (simp add: goes_def)
  obtain h' us where h': "open_parse sub (is_heap s3, c) = Inr (Some (Some (length (is_heap s3))), h', c)"
    "take (length (is_heap s3)) h' = is_heap s3" "built h' (length (is_heap s3)) None [] None us"
    using opens [of "is_heap s3"] by blast
  obtain h2 where h2: "?inc ?c (is_heap s3, c) = Inr (h2, c)" "?r < length h2" "cse_next_link h2 (n_first (h2 ! ?r)) key = Inr None"
    using include_first [where open_parse = open_parse, OF o(1,3,2) assms(2,5) h' key] by blast
  have "?r < length (is_heap s3)" "n_last (is_heap s3 ! ?r) = Some ?c" "?c < length (is_heap s3)" "n_key (is_heap s3 ! ?c) = ''resin:include''"
    using o(1,3) by (simp_all add: building_def built_def)
  then have inc: "check_include ?inc (Some ?r) s3 = Inr (s3\<lparr>is_heap := h2, is_config := c\<rparr>)"
    using h2(1) c3 by (simp add: check_include_def get_node_def)
  let ?s4 = "s3\<lparr>is_heap := h2, is_config := c\<rparr>"
  have s4: "scanner_ok ?s4" "is_input ?s4 = tail @ []" using goesD [OF s3(2)] by (simp_all add: scanner_ok_def)
  obtain s5 where s5: "parse_loop ?inc ?r True ?s4 = parse_loop ?inc ?r (True \<and> white tail) s5" "eats ?s4 [] s5"
    using text_read [OF s4 assms(4), of ?inc ?r True] by blast
  have "parse_loop ?inc ?r (True \<and> white tail) s5 = Inr (True, s5)"
    using eats_simps(1) [OF s5(2)] by (simp add: parse_loop.simps [of ?inc ?r _ s5] buf_read_Nil)
  moreover have "is_heap s5 = h2" "is_config s5 = c" using eats_simps(4,5) [OF s5(2)] by simp_all
  ultimately have "parse_file junk open_parse ?text path (h, c) = Inr (Some ?r, h2, c)"
    using s0(5) s1(1) s2(1) s3(1) inc s5(1) by simp
  then show ?thesis using h2(3) by blast
qed

subsection \<open>A small instance\<close>

text \<open>
  A configuration file in the manner of the distribution's, with an include, and the \<open>web.xml\<close> of
  a web-app.
\<close>

definition sample_document :: "elem list" where
  "sample_document =
     [Elem ''caucho.com'' [] [CHR 0x0A]
        [Elem ''http-server'' [(''app-dir'', ''doc'')] []
           [Empty ''srun'' [(''srun-host'', ''localhost''), (''srun-port'', ''6802'')] [CHR 0x0A],
            Include ''apps.conf'' [CHR 0x0A],
            Elem ''servlet-mapping'' [(''url-pattern'', ''/servlet/*'')] [] [] [CHR 0x0A]] [CHR 0x0A]] [CHR 0x0A]]"

definition sample_apps :: "elem list" where
  "sample_apps =
     [Elem ''web-app'' [(''id'', ''/shop'')] []
        [Elem ''servlet-mapping'' [] [] [Elem ''url-pattern'' [] ''*.jsp'' [] []] []] [CHR 0x0A]]"

definition sample_web_xml :: "elem list" where
  "sample_web_xml =
     [Elem ''web-app'' [] [] [Elem ''servlet-mapping'' [] [] [Elem ''url-pattern'' [] ''/cart'' [] []] []] [CHR 0x0A]]"

definition sample_docs :: docs where
  "sample_docs path =
     (if path = ''conf/resin.conf'' then Some ([CHR 0x0A], sample_document)
      else if path = ''conf/apps.conf'' then Some ([], sample_apps)
      else if path = ''./doc/shop'' @ ''/WEB-INF/web.xml'' then Some ([CHR 0x0A], sample_web_xml) else None)"

definition sample_files :: "string \<Rightarrow> string option" where
  "sample_files path = map_option (\<lambda>(lead, es). lead @ render es) (sample_docs path)"

lemma sample_paths:
  "sample_docs ''conf/resin.conf'' = Some ([CHR 0x0A], sample_document)" "sample_docs ''conf/apps.conf'' = Some ([], sample_apps)"
  by (simp_all add: sample_docs_def)

lemma sample_docs_ok: "docs_ok sample_files sample_docs"
  unfolding docs_ok_def
proof (intro allI impI)
  fix path lead es assume d: "sample_docs path = Some (lead, es)"
  have p: "include_path ''conf/resin.conf'' ''apps.conf'' = Inr ''conf/apps.conf''" by code_simp
  have ok: "elems_ok True sample_document \<and> hrefs sample_document = [''apps.conf'']" "elems_ok True sample_apps \<and> hrefs sample_apps = []"
    "elems_ok True sample_web_xml \<and> hrefs sample_web_xml = []" "white [CHR 0x0A]" "white []"
    by code_simp+
  consider "path = ''conf/resin.conf''" "lead = [CHR 0x0A]" "es = sample_document" | "lead = []" "es = sample_apps"
    | "lead = [CHR 0x0A]" "es = sample_web_xml"
    using d unfolding sample_docs_def by (simp only: option.inject prod.inject split: if_splits) auto
  then have "white lead \<and> elems_ok True es \<and> (\<forall>f \<in> set (hrefs es). \<exists>sub. include_path path f = Inr sub \<and> sample_docs sub \<noteq> None)"
    by cases (use ok p sample_paths in auto)
  then show "sample_files path = Some (lead @ render es) \<and> white lead \<and> elems_ok True es \<and>
      (\<forall>f \<in> set (hrefs es). \<exists>sub. include_path path f = Inr sub \<and> (sample_docs sub = None \<longrightarrow> sample_files sub = None))"
    using d by (auto simp: sample_files_def)
qed

lemma sample_trees:
  "file_trees sample_docs 1 ''conf/resin.conf'' =
     [Node ''caucho.com'' None
        [Node ''http-server'' None
           [Node ''app-dir'' (Some ''doc'') [],
            Node ''srun'' None [Node ''srun-host'' (Some ''localhost'') [], Node ''srun-port'' (Some ''6802'') []],
            Node ''web-app'' (Some ''/shop'') [Node ''servlet-mapping'' None [Node ''url-pattern'' (Some ''*.jsp'') []]],
            Node ''servlet-mapping'' None [Node ''url-pattern'' (Some ''/servlet/*'') []]]]]"
  by code_simp

subsection \<open>Properties\<close>

text \<open>
  C16: the parser is a left inverse of the printer. From the text of a document, with white space
  before it and any text between the elements, it builds the registry of the trees that the document stands for,
  with all its pointers, behind the nodes that are there already, and it records no error. The
  trees of an included file take the place of the include, and its includes are read in turn, for
  as long as the process can open files. The conditions are the parser's own: names and values fit its
  buffer (a longer token is damaged when the buffer grows), quotes are not quoted, and no include
  is the first child of its parent.
\<close>

theorem document_parsed:
  assumes "docs_ok files docs" "docs path = Some (lead, es)"
  shows "\<exists>h'. cse_parse junk files n (lead @ render es) path (h, c) = Inr (Some (length h), h', c) \<and>
    take (length h) h' = h \<and> built h' (length h) None [] None (file_trees docs n path)"
  by (rule cse_parse_document [OF assms])

theorem document_parsed_witness:
  "\<exists>h'. cse_parse (\<lambda>_. NUL) sample_files 1 ([CHR 0x0A] @ render sample_document) ''conf/resin.conf'' ([], cse_create_server_config) =
      Inr (Some 0, h', cse_create_server_config) \<and> built h' 0 None [] None (file_trees sample_docs 1 ''conf/resin.conf'')"
  using document_parsed [OF sample_docs_ok sample_paths(1), of "\<lambda>_. NUL" 1 "[]" cse_create_server_config] by simp





subsection \<open>Tokens that outgrow the buffer\<close>

text \<open>The state after the buffer has grown once, and \<open>t\<close> has been read since.\<close>

definition grown :: "rstream \<Rightarrow> (nat \<Rightarrow> char) \<Rightarrow> string \<Rightarrow> bool" where
  "grown is junk t \<longleftrightarrow> is_capacity is = 2048 \<and> length (is_buf is) = 4096 \<and> is_length is = 1022 + length t \<and>
     take (1022 + length t) (is_buf is) = fresh_memory junk 1022 @ t"

text \<open>The state before.\<close>

definition filled :: "rstream \<Rightarrow> (nat \<Rightarrow> char) \<Rightarrow> string \<Rightarrow> bool" where
  "filled is junk t \<longleftrightarrow> is_capacity is = 1024 \<and> length (is_buf is) = 1024 \<and> is_length is = length t \<and>
     take (length t) (is_buf is) = t \<and> is_junk is = junk"

lemma cstr_of_NUL: "cstr_of (s @ NUL # rest) = cstr_of s"
  by (induction s) (auto simp: cstr_of_def)

lemma take_fresh: "m \<le> n \<Longrightarrow> take m (fresh_memory junk n) = fresh_memory junk m"
  by (simp add: fresh_memory_def take_map)

lemma buf_read_state:
  "is_input is = c # cs \<Longrightarrow> \<exists>is'. buf_read is = (code_of c, is') \<and> is_input is' = cs \<and> (grown is' junk t \<longleftrightarrow> grown is junk t) \<and>
    (filled is' junk t \<longleftrightarrow> filled is junk t)"
  by (auto simp: buf_read_def grown_def filled_def)

lemma filled_append:
  "filled is junk t \<Longrightarrow> length t < 1022 \<Longrightarrow> \<exists>is'. buf_append is (code_of c) = Inr is' \<and> filled is' junk (t @ [c]) \<and> is_input is' = is_input is"
  by (auto simp: buf_append_def Let_def store_def filled_def min_def)

lemma grow_append:
  assumes "filled is junk t" "length t = 1022"
  shows "\<exists>is'. buf_append is (code_of c) = Inr is' \<and> grown is' junk [c] \<and> is_input is' = is_input is"
proof -
  have "take 1022 (fresh_memory junk 4096) = fresh_memory junk 1022" by (rule take_fresh) simp
  then show ?thesis using assms by (auto simp: buf_append_def Let_def store_def filled_def grown_def)
qed

lemma grown_append:
  "grown is junk t \<Longrightarrow> length t < 1024 \<Longrightarrow> \<exists>is'. buf_append is (code_of c) = Inr is' \<and> grown is' junk (t @ [c]) \<and> is_input is' = is_input is"
  by (auto simp: buf_append_def Let_def store_def grown_def min_def nat_add_distrib)

text \<open>Reading a run of characters in a state that \<open>G\<close> describes by the characters read so far.\<close>

lemma read_token_run:
  assumes step: "\<And>is t c. G is t \<Longrightarrow> length t < n \<Longrightarrow> \<exists>is'. buf_append is (code_of c) = Inr is' \<and> G is' (t @ [c]) \<and> is_input is' = is_input is"
    and read: "\<And>is t c cs. G is t \<Longrightarrow> is_input is = c # cs \<Longrightarrow> \<exists>is'. buf_read is = (code_of c, is') \<and> is_input is' = cs \<and> G is' t"
    and "G is t" "length t + length s \<le> n" "c # is_input is = s @ d # rest" "\<And>x. x \<in> set s \<Longrightarrow> P (code_of x)"
  shows "\<exists>is'. read_token P (code_of c) is = read_token P (code_of d) is' \<and> is_input is' = rest \<and> G is' (t @ s)"
  using assms(3-6)
proof (induction s arbitrary: c t "is")
  case Nil
  then show ?case by auto
next
  case (Cons x s)
  then have x: "x = c" "is_input is = s @ d # rest" by auto
  obtain s1 where s1: "buf_append is (code_of c) = Inr s1" "G s1 (t @ [c])" "is_input s1 = is_input is"
    using step [OF Cons.prems(1), of c] Cons.prems(2) by auto
  obtain e es where e: "is_input s1 = e # es" "e # es = s @ d # rest" using s1(3) x(2) by (cases "is_input s1") auto
  obtain s2 where s2: "buf_read s1 = (code_of e, s2)" "is_input s2 = es" "G s2 (t @ [c])" using read [OF s1(2) e(1)] by blast
  have "\<exists>is'. read_token P (code_of e) s2 = read_token P (code_of d) is' \<and> is_input is' = rest \<and> G is' ((t @ [c]) @ s)"
    by (rule Cons.IH) (use Cons.prems s2 e in auto)
  moreover have "read_token P (code_of c) is = read_token P (code_of e) s2"
    using Cons.prems(4) [of x] x(1) s1(1) s2(1) by (simp add: read_token.simps [of P "code_of c" "is"] of_char_less)
  ultimately show ?case using x(1) by auto
qed

lemma read_filled:
  "filled is junk t \<Longrightarrow> length t + length s \<le> 1022 \<Longrightarrow> c # is_input is = s @ d # rest \<Longrightarrow> (\<And>x. x \<in> set s \<Longrightarrow> P (code_of x)) \<Longrightarrow>
   \<exists>is'. read_token P (code_of c) is = read_token P (code_of d) is' \<and> is_input is' = rest \<and> filled is' junk (t @ s)"
  by (rule read_token_run [where G = "\<lambda>is t. filled is junk t" and n = 1022])
    (auto dest: filled_append, use buf_read_state in blast)

lemma read_grown:
  "grown is junk t \<Longrightarrow> length t + length s \<le> 1024 \<Longrightarrow> c # is_input is = s @ d # rest \<Longrightarrow> (\<And>x. x \<in> set s \<Longrightarrow> P (code_of x)) \<Longrightarrow>
   \<exists>is'. read_token P (code_of c) is = read_token P (code_of d) is' \<and> is_input is' = rest \<and> grown is' junk (t @ s)"
  by (rule read_token_run [where G = "\<lambda>is t. grown is junk t" and n = 1024])
    (auto dest: grown_append, use buf_read_state in blast)

lemma get_grown:
  assumes "grown is junk t" "length t \<le> 1024"
  shows "\<exists>is'. get_token is = Inr (cstr_of (fresh_memory junk 1022 @ t), is')"
proof -
  let ?a = "fresh_memory junk 1022 @ t"
  have "store (is_buf is) (int (is_length is)) [NUL] = Inr (?a @ NUL # drop (Suc (is_length is)) (is_buf is))"
    using assms by (simp add: store_def grown_def nat_add_distrib)
  then show ?thesis by (simp add: get_token_def cstr_at_def cstr_of_NUL del: append_assoc)
qed

lemma read_long_token:
  assumes "filled is junk []" "c # is_input is = s @ d # rest" "\<And>x. x \<in> set s \<Longrightarrow> P (code_of x)" "\<not> P (code_of d)"
    and "1022 < length s" "length s \<le> 2046"
  shows "\<exists>is1 is2. read_token P (code_of c) is = Inr (code_of d, is1) \<and> is_input is1 = rest \<and>
    get_token is1 = Inr (cstr_of (fresh_memory junk 1022 @ drop 1022 s), is2)"
proof -
  obtain x u where u: "drop 1022 s = x # u" using assms(5) by (cases "drop 1022 s") auto
  have s: "s = take 1022 s @ x # u" using append_take_drop_id [of 1022 s] u by simp
  have P: "\<And>y. y \<in> set (take 1022 s) \<Longrightarrow> P (code_of y)" "P (code_of x)" "\<And>y. y \<in> set u \<Longrightarrow> P (code_of y)"
    using assms(3) in_set_takeD [of _ 1022 s] in_set_dropD [of _ 1022 s] u by auto
  have inp: "c # is_input is = take 1022 s @ x # u @ d # rest" using assms(2) s by (metis append_Cons append_assoc)
  obtain s1 where s1: "read_token P (code_of c) is = read_token P (code_of x) s1"
    "is_input s1 = u @ d # rest" "filled s1 junk (take 1022 s)"
    using read_filled [OF assms(1), where s = "take 1022 s" and c = c and d = x and rest = "u @ d # rest" and P = P] inp P(1) by auto
  have "length (take 1022 s) = 1022" using assms(5) by simp
  from grow_append [OF s1(3) this, of x] obtain s2 where s2: "buf_append s1 (code_of x) = Inr s2" "grown s2 junk [x]" "is_input s2 = u @ d # rest"
    using s1(2) by auto
  obtain e es where e: "u @ d # rest = e # es" by (cases "u @ d # rest") auto
  obtain s3 where s3: "buf_read s2 = (code_of e, s3)" "is_input s3 = es" "grown s3 junk [x]"
    using buf_read_state [of s2 e es junk "[x]"] s2(2,3) e by auto
  have step: "read_token P (code_of x) s1 = read_token P (code_of e) s3"
    using P(2) s2(1) s3(1) by (simp add: read_token.simps [of P "code_of x" s1] of_char_less)
  have lu: "length [x] + length u \<le> 1024" using assms(6) arg_cong [OF u, of length] by simp
  obtain s4 where s4: "read_token P (code_of e) s3 = read_token P (code_of d) s4" "is_input s4 = rest" "grown s4 junk ([x] @ u)"
    using read_grown [OF s3(3) lu, where c = e and d = d and rest = rest and P = P] s3(2) e P(3) by auto
  obtain s5 where "get_token s4 = Inr (cstr_of (fresh_memory junk 1022 @ [x] @ u), s5)"
    using get_grown [OF s4(3)] lu by auto
  moreover have "read_token P (code_of c) is = Inr (code_of d, s4)"
    using s1(1) step s4(1) assms(4) by (simp add: read_token.simps [of P "code_of d" s4])
  ultimately show ?thesis using s4(2) u by auto
qed

text \<open>
  C40: a token of 1023 to 2046 characters is damaged. When the token buffer is full, the parser
  takes a larger one and frees the old one without copying it, so that the first 1022 characters
  of the name, value or text are what the new memory happened to contain.
\<close>

theorem long_token_damaged:
  assumes "is_capacity is = 1024" "length (is_buf is) = 1024" "is_length is = 0" "c # is_input is = s @ d # rest"
    and "\<forall>x \<in> set s. P (code_of x)" "\<not> P (code_of d)" "1022 < length s" "length s \<le> 2046"
  shows "\<exists>is1 is2. read_token P (code_of c) is = Inr (code_of d, is1) \<and> is_input is1 = rest \<and>
    get_token is1 = Inr (cstr_of (fresh_memory (is_junk is) 1022 @ drop 1022 s), is2)"
  by (rule read_long_token [where P = P]) (use assms in \<open>auto simp: filled_def\<close>)

theorem long_token_damaged_witness:
  "\<exists>is1 is2. read_token in_word (code_of (CHR ''x''))
      \<lparr>is_config = cse_create_server_config, is_heap = [], is_input = replicate 1029 (CHR ''x'') @ ''>'', is_path = [], is_line = 1,
        is_buf = replicate 1024 NUL, is_length = 0, is_capacity = 1024, is_junk = \<lambda>_. CHR ''?''\<rparr> = Inr (code_of (CHR ''>''), is1) \<and>
    get_token is1 = Inr (replicate 1022 (CHR ''?'') @ replicate 8 (CHR ''x''), is2)"
proof -
  let ?is = "\<lparr>is_config = cse_create_server_config, is_heap = [], is_input = replicate 1029 (CHR ''x'') @ ''>'', is_path = [], is_line = 1,
        is_buf = replicate 1024 NUL, is_length = 0, is_capacity = 1024, is_junk = \<lambda>_. CHR ''?''\<rparr>"
  have inp: "CHR ''x'' # is_input ?is = replicate 1030 (CHR ''x'') @ CHR ''>'' # []"
    by (simp add: replicate_app_Cons_same numeral_eq_Suc)
  have tok: "cstr_of (fresh_memory (is_junk ?is) 1022 @ drop 1022 (replicate 1030 (CHR ''x''))) =
      replicate 1022 (CHR ''?'') @ replicate 8 (CHR ''x'')"
    by (simp add: fresh_memory_def map_replicate_const cstr_of_def takeWhile_eq_all_conv)
  have p: "\<forall>x \<in> set (replicate 1030 (CHR ''x'')). in_word (code_of x)" "\<not> in_word (code_of (CHR ''>''))"
    by (simp_all add: in_word_def is_space_code_def)
  have len: "is_capacity ?is = 1024" "length (is_buf ?is) = 1024" "is_length ?is = 0"
    "1022 < length (replicate 1030 (CHR ''x''))" "length (replicate 1030 (CHR ''x'')) \<le> 2046" by simp_all
  show ?thesis using long_token_damaged [OF len(1-3) inp p len(4,5)] tok by auto
qed

end
