(* ===== verification/Cse_Config.thy ===== *)
theory Cse_Config
  imports Cse_Registry Cse_Location Cse_Lifecycle
begin

text \<open>
  The configuration reader (config.c): it parses the configuration file, walks its registry and
  fills the location table, the servlet runners and the error page; and the commands of the
  Apache configuration (mod_caucho.c) that start it or add runners themselves.
  \<^item> The state is the heap of registry nodes with the configuration.
  \<^item> The file system \<open>files\<close>, the contents \<open>junk\<close> of fresh memory and the number of files that
    the process may still open are parameters, as for \<open>cse_parse\<close>; so is \<open>resolve\<close>, the host
    name lookup.
\<close>

text \<open>A file that is closed again before the next one is opened.\<close>

definition open_file :: "(string \<Rightarrow> string option) \<Rightarrow> nat \<Rightarrow> string \<Rightarrow> string option" where
  "open_file files handles path = (if handles = 0 then None else files path)"

text \<open>
  \<open>for (; node; node = node->next)\<close> whose body may extend the heap, and the same loop over the
  nodes with a given key. The fuel is the size of the heap when the loop starts.
\<close>

fun each_sibling :: "(nat \<Rightarrow> heap \<times> config \<Rightarrow> (heap \<times> config) res) \<Rightarrow> nat \<Rightarrow> nat option \<Rightarrow>
    heap \<times> config \<Rightarrow> (heap \<times> config) res" where
  "each_sibling body 0 p hc = Inl OutOfFuel"
| "each_sibling body (Suc n) None hc = Inr hc"
| "each_sibling body (Suc n) (Some a) hc =
     bindR (body a hc) (\<lambda>hc.
     bindR (get_node (fst hc) (Some a)) (\<lambda>nd. each_sibling body n (n_next nd) hc))"

fun each_link :: "heap \<Rightarrow> string \<Rightarrow> (nat \<Rightarrow> config \<Rightarrow> config res) \<Rightarrow> nat \<Rightarrow> nat option \<Rightarrow> bool \<times> config \<Rightarrow>
    (bool \<times> config) res" where
  "each_link h key body 0 p x = Inl OutOfFuel"
| "each_link h key body (Suc n) p x =
     bindR (cse_next_link h p key) (\<lambda>q.
       case q of
         None \<Rightarrow> Inr x
       | Some a \<Rightarrow>
           bindR (body a (snd x)) (\<lambda>config.
           bindR (get_node h (Some a)) (\<lambda>nd. each_link h key body n (n_next nd) (True, config))))"

subsection \<open>Web applications\<close>

definition cse_app_dir :: "heap \<Rightarrow> nat option \<Rightarrow> string option \<Rightarrow> string option res" where
  "cse_app_dir h node parent =
     (case node of
        None \<Rightarrow> Inr parent
      | Some _ \<Rightarrow>
          bindR (get_node h node) (\<lambda>nd.
          bindR (cse_find_value h (n_first nd) ''app-dir'') (\<lambda>val.
            let parent = (if parent = None \<or> parent = Some [] then ''.'' else the parent);
                val = (if (val = None \<or> val = Some []) \<and> n_key nd = ''web-app''
                       then (case n_value nd of
                               None \<Rightarrow> None
                             | Some v \<Rightarrow> Some (if v \<noteq> [] \<and> hd v = CHR ''/'' then tl v else v))
                       else val)
            in if val = None \<or> val = Some [] then Inr (Some parent)
               else if is_absolute (the val) then Inr val
               else if length parent + 1 + length (the val) + 1 > 4096 then Inl OutOfBounds
               else Inr (Some (parent @ ''/'' @ the val)))))"

definition mapping_node :: "string \<Rightarrow> string \<Rightarrow> nat \<Rightarrow> heap \<times> config \<Rightarrow> (heap \<times> config) res" where
  "mapping_node host pre a = (\<lambda>(h, config).
     bindR (get_node h (Some a)) (\<lambda>nd.
       if n_key nd = ''servlet-mapping'' then
         bindR (cse_next_link h (n_first nd) ''url-pattern'') (\<lambda>url_pattern.
           case url_pattern of
             None \<Rightarrow> Inr (h, config)
           | Some u \<Rightarrow>
               bindR (get_node h (Some u)) (\<lambda>un.
                 case n_value un of
                   None \<Rightarrow> Inr (h, config)
                 | Some pattern \<Rightarrow>
                     bindR (cse_add_location (Some host) pre pattern config) (\<lambda>config. Inr (h, config))))
       else Inr (h, config)))"

definition cse_init_web_app_contents :: "nat option \<Rightarrow> string \<Rightarrow> string \<Rightarrow> heap \<times> config \<Rightarrow> (heap \<times> config) res" where
  "cse_init_web_app_contents node host pre = (\<lambda>(h, config).
     bindR (cse_add_location (Some host) pre ''/WEB-INF/*'' config) (\<lambda>config.
       each_sibling (mapping_node host pre) (Suc (length h)) node (h, config)))"

definition cse_init_web_app ::
    "(nat \<Rightarrow> char) \<Rightarrow> (string \<Rightarrow> string option) \<Rightarrow> nat \<Rightarrow> nat option \<Rightarrow> string \<Rightarrow> string \<Rightarrow> string option \<Rightarrow>
     heap \<times> config \<Rightarrow> (heap \<times> config) res" where
  "cse_init_web_app junk files handles node host pre app_dir hc =
     (case node of
        None \<Rightarrow> Inr hc
      | Some _ \<Rightarrow>
          bindR (get_node (fst hc) node) (\<lambda>nd.
          bindR (cse_init_web_app_contents (n_first nd) host pre hc) (\<lambda>hc.
            case app_dir of
              None \<Rightarrow> Inl NullPointer
            | Some dir \<Rightarrow>
                let buf = dir @ ''/WEB-INF/web.xml''
                in if length buf + 1 > 4096 then Inl OutOfBounds
                   else case open_file files handles buf of
                       None \<Rightarrow> Inr hc
                     | Some content \<Rightarrow>
                         bindR (cse_parse junk files (handles - 1) content buf hc) (\<lambda>(web, hc).
                           case web of
                             None \<Rightarrow> Inr hc
                           | Some _ \<Rightarrow>
                               bindR (get_node (fst hc) web) (\<lambda>wn.
                                 case n_first wn of
                                   None \<Rightarrow> Inr hc
                                 | Some _ \<Rightarrow>
                                     bindR (get_node (fst hc) (n_first wn)) (\<lambda>fn.
                                       cse_init_web_app_contents (n_first fn) host pre hc))))))"

subsection \<open>Hosts and the server\<close>

definition web_app_node ::
    "(nat \<Rightarrow> char) \<Rightarrow> (string \<Rightarrow> string option) \<Rightarrow> nat \<Rightarrow> string \<Rightarrow> string option \<Rightarrow> nat \<Rightarrow> heap \<times> config \<Rightarrow>
     (heap \<times> config) res" where
  "web_app_node junk files handles host host_dir a hc =
     bindR (get_node (fst hc) (Some a)) (\<lambda>nd.
       case n_value nd of
         None \<Rightarrow> Inr hc
       | Some pre \<Rightarrow>
           if n_key nd = ''web-app'' then
             bindR (cse_app_dir (fst hc) (Some a) host_dir) (\<lambda>subdir.
               cse_init_web_app junk files handles (Some a) host pre subdir hc)
           else Inr hc)"

definition cse_init_host ::
    "(nat \<Rightarrow> char) \<Rightarrow> (string \<Rightarrow> string option) \<Rightarrow> nat \<Rightarrow> nat option \<Rightarrow> string \<Rightarrow> string option \<Rightarrow>
     heap \<times> config \<Rightarrow> (heap \<times> config) res" where
  "cse_init_host junk files handles node host app_dir hc =
     bindR (cse_app_dir (fst hc) node app_dir) (\<lambda>host_dir.
     bindR (cse_init_web_app junk files handles node host [] app_dir hc) (\<lambda>hc.
     bindR (get_node (fst hc) node) (\<lambda>nd.
       each_sibling (web_app_node junk files handles host host_dir) (Suc (length (fst hc))) (n_first nd) hc)))"

definition host_node ::
    "(nat \<Rightarrow> char) \<Rightarrow> (string \<Rightarrow> string option) \<Rightarrow> nat \<Rightarrow> string option \<Rightarrow> nat \<Rightarrow> heap \<times> config \<Rightarrow>
     (heap \<times> config) res" where
  "host_node junk files handles app_dir a hc =
     bindR (get_node (fst hc) (Some a)) (\<lambda>nd.
       case n_value nd of
         None \<Rightarrow> Inr hc
       | Some name \<Rightarrow>
           if n_key nd = ''host'' then
             bindR (cse_app_dir (fst hc) (Some a) app_dir) (\<lambda>host_dir.
               cse_init_host junk files handles (Some a) name host_dir hc)
           else Inr hc)"

definition cse_init_server ::
    "(nat \<Rightarrow> char) \<Rightarrow> (string \<Rightarrow> string option) \<Rightarrow> nat \<Rightarrow> nat option \<Rightarrow> heap \<times> config \<Rightarrow> (heap \<times> config) res" where
  "cse_init_server junk files handles node hc =
     bindR (cse_app_dir (fst hc) node (resin_home (snd hc))) (\<lambda>app_dir.
     bindR (cse_init_host junk files handles node [] (resin_home (snd hc)) hc) (\<lambda>hc.
       case node of
         None \<Rightarrow> Inr hc
       | Some _ \<Rightarrow>
           bindR (get_node (fst hc) node) (\<lambda>nd.
             each_sibling (host_node junk files handles app_dir) (Suc (length (fst hc))) (n_first nd) hc)))"

subsection \<open>Servlet runners\<close>

text \<open>\<open>node && node->value && *node->value\<close>\<close>

definition given_value :: "heap \<Rightarrow> nat option \<Rightarrow> string option res" where
  "given_value h p =
     (case p of
        None \<Rightarrow> Inr None
      | Some _ \<Rightarrow> bindR (get_node h p) (\<lambda>nd. Inr (if n_value nd = Some [] then None else n_value nd)))"

definition at_least_5 :: "int \<Rightarrow> int" where
  "at_least_5 t = (if t < 5 then 5 else t)"

definition set_times :: "string option \<Rightarrow> string option \<Rightarrow> string option \<Rightarrow> srun \<Rightarrow> srun" where
  "set_times connect live dead srun =
     (let srun = (case connect of None \<Rightarrow> srun | Some v \<Rightarrow> srun\<lparr>sr_connect_timeout := atoi v\<rparr>);
          srun = (case live of None \<Rightarrow> srun | Some v \<Rightarrow> srun\<lparr>sr_live_time := at_least_5 (atoi v)\<rparr>)
      in case dead of None \<Rightarrow> srun | Some v \<Rightarrow> srun\<lparr>sr_dead_time := at_least_5 (atoi v)\<rparr>)"

definition cse_init_host_node ::
    "(string \<Rightarrow> 32 word option) \<Rightarrow> heap \<Rightarrow> nat option \<Rightarrow> bool \<Rightarrow> bool \<Rightarrow> config \<Rightarrow> config res" where
  "cse_init_host_node resolve h node is_backup is_default config =
     bindR (cse_next_link h node ''srun-host'') (\<lambda>host_node.
     bindR (cse_next_link h node ''srun-port'') (\<lambda>port_node.
     bindR (if host_node = None \<and> \<not> is_default then cse_next_link h node ''host'' else Inr host_node) (\<lambda>host_node.
     bindR (if port_node = None \<and> \<not> is_default then cse_next_link h node ''port'' else Inr port_node) (\<lambda>port_node.
     bindR (given_value h port_node) (\<lambda>port.
     bindR (given_value h host_node) (\<lambda>host.
       let port = (case port of Some v \<Rightarrow> atoi v | None \<Rightarrow> 6802);
           host = (case host of Some v \<Rightarrow> v | None \<Rightarrow> ''localhost'')
       in bindR (cse_add_host_int resolve host port is_backup is_default config) (\<lambda>(k, config).
            case k of
              None \<Rightarrow> Inr config
            | Some k \<Rightarrow>
                bindR (get_srun config k) (\<lambda>srun.
                bindR (cse_next_link h node ''connect-timeout'') (\<lambda>p.
                bindR (given_value h p) (\<lambda>connect.
                bindR (cse_next_link h node ''live-time'') (\<lambda>p.
                bindR (given_value h p) (\<lambda>live.
                bindR (cse_next_link h node ''dead-time'') (\<lambda>p.
                bindR (given_value h p) (\<lambda>dead.
                  Inr (put_srun k (set_times connect live dead srun) config)))))))))))))))"

definition srun_node :: "(string \<Rightarrow> 32 word option) \<Rightarrow> heap \<Rightarrow> bool \<Rightarrow> nat \<Rightarrow> config \<Rightarrow> config res" where
  "srun_node resolve h is_backup a config =
     bindR (get_node h (Some a)) (\<lambda>nd. cse_init_host_node resolve h (n_first nd) is_backup False config)"

definition cse_init_hosts :: "(string \<Rightarrow> 32 word option) \<Rightarrow> heap \<Rightarrow> nat option \<Rightarrow> config \<Rightarrow> config res" where
  "cse_init_hosts resolve h first_node config =
     bindR (each_link h ''srun'' (srun_node resolve h False) (Suc (length h)) first_node (False, config)) (\<lambda>x.
     bindR (each_link h ''srun-backup'' (srun_node resolve h True) (Suc (length h)) first_node x) (\<lambda>(has_srun, config).
       if has_srun then Inr config else cse_init_host_node resolve h first_node False True config))"

subsection \<open>The error page\<close>

definition error_page_node :: "heap \<Rightarrow> nat \<Rightarrow> config \<Rightarrow> config res" where
  "error_page_node h a config =
     bindR (get_node h (Some a)) (\<lambda>nd.
     bindR (cse_find_value h (n_first nd) ''exception-type'') (\<lambda>exn.
     bindR (cse_find_value h (n_first nd) ''error-code'') (\<lambda>code.
       if exn = Some ''connection'' \<or> exn = None \<and> code = None \<and> error_page config = None
       then bindR (cse_find_value h (n_first nd) ''location'') (\<lambda>loc. Inr (config\<lparr>error_page := loc\<rparr>))
       else Inr config)))"

definition cse_init_error_page :: "heap \<Rightarrow> nat option \<Rightarrow> config \<Rightarrow> config res" where
  "cse_init_error_page h node config =
     bindR (each_link h ''error-page'' (error_page_node h) (Suc (length h)) node (False, config))
       (\<lambda>(_, config). Inr config)"

subsection \<open>The whole configuration\<close>

text \<open>\<open>for (p = n - 1; p >= 0 && path[p] is no separator; p--)\<close>; \<open>None\<close> when p gets negative.\<close>

fun back_to_separator :: "string \<Rightarrow> nat \<Rightarrow> nat option" where
  "back_to_separator path 0 = None"
| "back_to_separator path (Suc n) = (if is_separator (path ! n) then Some n else back_to_separator path n)"

text \<open>The configuration file is taken to be in a directory of the home directory.\<close>

definition home_of :: "string \<Rightarrow> string" where
  "home_of path =
     (case back_to_separator path (length path) of
        None \<Rightarrow> ''.''
      | Some p \<Rightarrow> (case back_to_separator path p of None \<Rightarrow> ''.'' | Some q \<Rightarrow> take q path))"

definition find_server :: "heap \<Rightarrow> nat option \<Rightarrow> nat option res" where
  "find_server h root =
     bindR (case root of None \<Rightarrow> Inr None
            | Some _ \<Rightarrow> bindR (get_node h root) (\<lambda>nd. cse_next_link h (n_first nd) ''caucho.com'')) (\<lambda>node.
       case node of None \<Rightarrow> Inr None
       | Some _ \<Rightarrow> bindR (get_node h node) (\<lambda>nd. cse_next_link h (n_first nd) ''http-server''))"

definition read_server ::
    "(nat \<Rightarrow> char) \<Rightarrow> (string \<Rightarrow> string option) \<Rightarrow> nat \<Rightarrow> (string \<Rightarrow> 32 word option) \<Rightarrow> nat \<Rightarrow>
     heap \<times> config \<Rightarrow> (heap \<times> config) res" where
  "read_server junk files handles resolve node = (\<lambda>(h, config).
     bindR (get_node h (Some node)) (\<lambda>nd.
     bindR (cse_find_value h (n_first nd) ''caucho-status'') (\<lambda>caucho_status.
       let config = (if caucho_status = Some ''false'' \<or> caucho_status = Some ''no''
                     then config\<lparr>disable_caucho_status := True\<rparr> else config)
       in bindR (cse_init_server junk files handles (Some node) (h, config)) (\<lambda>(h, config).
          bindR (get_node h (Some node)) (\<lambda>nd.
          bindR (cse_init_hosts resolve h (n_first nd) config) (\<lambda>config.
          bindR (cse_init_error_page h (n_first nd) config) (\<lambda>config.
            Inr (h, config))))))))"

definition cse_init_config ::
    "(nat \<Rightarrow> char) \<Rightarrow> (string \<Rightarrow> string option) \<Rightarrow> nat \<Rightarrow> (string \<Rightarrow> 32 word option) \<Rightarrow>
     heap \<times> config \<Rightarrow> (heap \<times> config) res" where
  "cse_init_config junk files handles resolve = (\<lambda>(h, config).
     case c_path config of
       None \<Rightarrow> Inl NullPointer
     | Some path \<Rightarrow>
         let config = (if resin_home config = None then config\<lparr>resin_home := Some (home_of path)\<rparr> else config)
         in case open_file files handles path of
              None \<Rightarrow>
                bindR (cse_error (''Resin cannot open config file `'' @ path @ [CHR 0x27, CHR 0x0A]) config)
                  (\<lambda>config. Inr (h, config))
            | Some content \<Rightarrow>
                bindR (cse_parse junk files (handles - 1) content path (h, config)) (\<lambda>(root, h, config).
                  let config = config\<lparr>c_registry := root\<rparr>
                  in bindR (cse_print_registry h root) (\<lambda>_.
                     bindR (find_server h root) (\<lambda>node.
                       case node of
                         None \<Rightarrow> Inr (h, config)
                       | Some node \<Rightarrow> read_server junk files handles resolve node (h, config)))))"

subsection \<open>Commands of the Apache configuration\<close>

text \<open>The first component is what the command returns to Apache: an error message, or nothing.\<close>

definition cse_config_file_command ::
    "(string \<Rightarrow> string) \<Rightarrow> (nat \<Rightarrow> char) \<Rightarrow> (string \<Rightarrow> string option) \<Rightarrow> nat \<Rightarrow> (string \<Rightarrow> 32 word option) \<Rightarrow>
     string \<Rightarrow> heap \<times> config \<Rightarrow> (string option \<times> heap \<times> config) res" where
  "cse_config_file_command server_root_relative junk files handles resolve arg = (\<lambda>(h, config).
     bindR (cse_init_config junk files handles resolve (h, config\<lparr>c_path := Some (server_root_relative arg)\<rparr>))
       (\<lambda>(h, config). Inr (c_error config, h, config)))"

definition port_of :: "string option \<Rightarrow> int" where
  "port_of port_arg = (case port_arg of Some v \<Rightarrow> atoi v | None \<Rightarrow> DEFAULT_PORT)"

definition cse_host_command ::
    "(string \<Rightarrow> 32 word option) \<Rightarrow> string \<Rightarrow> string option \<Rightarrow> config \<Rightarrow> (string option \<times> config) res" where
  "cse_host_command resolve host_arg port_arg config =
     bindR (cse_add_host resolve host_arg (port_of port_arg) config) (\<lambda>(_, config). Inr (c_error config, config))"

definition cse_backup_command ::
    "(string \<Rightarrow> 32 word option) \<Rightarrow> string \<Rightarrow> string option \<Rightarrow> config \<Rightarrow> (string option \<times> config) res" where
  "cse_backup_command resolve host_arg port_arg config =
     bindR (cse_add_backup resolve host_arg (port_of port_arg) config) (\<lambda>(_, config). Inr (c_error config, config))"

definition cse_keepalive_command :: "bool \<Rightarrow> config \<Rightarrow> string option \<times> config" where
  "cse_keepalive_command flag config = (None, config)"

text \<open>\<open>g_error_page\<close> is a global of the module, not part of a server's configuration.\<close>

definition cse_error_page_command :: "string \<Rightarrow> string option \<Rightarrow> string option \<times> string option" where
  "cse_error_page_command error_page_arg g_error_page = (None, Some error_page_arg)"

end
