(* ===== verification/Cse_Reader.thy ===== *)
theory Cse_Reader
  imports Cse_Document Cse_Config
begin

text \<open>
  The configuration reader against the trees of a document. The reader of config.c walks the
  pointers of the registry; here each of its routines is shown to compute a function of the tree
  that the pointers represent:
  \<^item> \<open>lookup\<close>, \<open>given\<close>: the link searches;
  \<^item> \<open>read_hosts\<close>: the runners, in the order they are added;
  \<^item> \<open>server_mappings\<close>: the URL mappings with their host and web-app, in the order they are added,
    those of a web-app's own \<open>web.xml\<close> included;
  \<^item> \<open>error_page_of\<close>: the error page.
  \<open>configure\<close> composes them, and \<open>init_config_document\<close> composes it with the parser.
\<close>

subsection \<open>Searching a tree\<close>

definition from_key :: "string \<Rightarrow> tree list \<Rightarrow> tree list" where
  "from_key key ts = dropWhile (\<lambda>t. tree_key t \<noteq> key) ts"

definition tree_link :: "string \<Rightarrow> tree list \<Rightarrow> tree option" where
  "tree_link key ts = (case from_key key ts of [] \<Rightarrow> None | t # _ \<Rightarrow> Some t)"

definition lookup :: "string \<Rightarrow> tree list \<Rightarrow> string option" where
  "lookup key ts = (case tree_link key ts of None \<Rightarrow> None | Some t \<Rightarrow> tree_value t)"

definition nonempty :: "string option \<Rightarrow> string option" where
  "nonempty v = (if v = Some [] then None else v)"

text \<open>\<open>placed h p q ts\<close>: from the pointer \<open>q\<close> on are the trees \<open>ts\<close>, the children of \<open>p\<close>.\<close>

definition placed :: "heap \<Rightarrow> nat \<Rightarrow> nat option \<Rightarrow> tree list \<Rightarrow> bool" where
  "placed h p q ts \<longleftrightarrow> (\<exists>lo hi. laid h p lo hi q ts None \<and> hi \<le> length h)"

lemma placed_Nil [simp]: "placed h p q [] \<longleftrightarrow> q = None"
  by (auto simp: placed_def)

lemma placed_start: "placed h p q ts \<Longrightarrow> q = None \<longleftrightarrow> ts = []"
  using laid_start unfolding placed_def by blast

lemma placed_ConsE:
  assumes "placed h p q (t # ts)"
  obtains a where "q = Some a" "placed h p (Some a) (t # ts)"
  using assms placed_start [OF assms] by (cases q) auto

lemma placed_here:
  assumes "placed h p (Some a) (t # ts)"
  shows "get_node h (Some a) = Inr (h ! a)" "n_key (h ! a) = tree_key t" "n_value (h ! a) = tree_value t"
    "placed h a (n_first (h ! a)) (tree_kids t)" "placed h p (n_next (h ! a)) ts"
proof -
  obtain k v us where t: "t = Node k v us" by (cases t)
  obtain lo hi m where l: "n_key (h ! a) = k" "n_value (h ! a) = v" "laid h a (Suc a) m (n_first (h ! a)) us None"
    "laid h p m hi (n_next (h ! a)) ts None" "hi \<le> length h"
    using assms by (auto simp: placed_def t)
  note le = laid_le [OF l(3)] laid_le [OF l(4)]
  show "get_node h (Some a) = Inr (h ! a)" using le l(5) by (simp add: get_node_def)
  show "n_key (h ! a) = tree_key t" "n_value (h ! a) = tree_value t" using l(1,2) by (simp_all add: t)
  show "placed h a (n_first (h ! a)) (tree_kids t)" unfolding placed_def using l(3,5) le(2)
    by (intro exI [of _ "Suc a"] exI [of _ m]) (simp add: t)
  show "placed h p (n_next (h ! a)) ts" using l(4,5) by (auto simp: placed_def)
qed

lemma next_link_placed:
  assumes "placed h p q ts" "length ts < n"
  shows "\<exists>b. next_link h n q key = Inr b \<and> placed h p b (from_key key ts)"
  using assms
proof (induction ts arbitrary: q n)
  case Nil
  then show ?case by (cases n) (auto simp: from_key_def)
next
  case (Cons t ts)
  then obtain m where n: "n = Suc m" "length ts < m" by (cases n) auto
  obtain a where a: "q = Some a" "placed h p (Some a) (t # ts)" by (rule placed_ConsE [OF Cons.prems(1)])
  note h = placed_here [OF a(2)]
  show ?case
  proof (cases "tree_key t = key")
    case True
    then show ?thesis using a h(1,2) n by (auto simp: from_key_def)
  next
    case False
    from Cons.IH [OF h(5) n(2)] show ?thesis using a h(1,2) n False by (simp add: from_key_def)
  qed
qed

lemma placed_length: "placed h p q ts \<Longrightarrow> length ts < Suc (length h)"
  using laid_length by (fastforce simp: placed_def)

lemma cse_next_link_placed:
  assumes "placed h p q ts"
  obtains b where "cse_next_link h q key = Inr b" "placed h p b (from_key key ts)"
  using next_link_placed [OF assms placed_length [OF assms], of key] by (auto simp: cse_next_link_def)

text \<open>The node that a search ends at.\<close>

lemma search_end:
  assumes "placed h p b us"
  obtains "us = []" "b = None" | c t ts where "us = t # ts" "b = Some c" "get_node h b = Inr (h ! c)" "n_value (h ! c) = tree_value t"
proof (cases us)
  case Nil
  then show ?thesis using assms that(1) by simp
next
  case (Cons t ts)
  then obtain c where "b = Some c" "placed h p (Some c) (t # ts)" using placed_ConsE assms by blast
  then show ?thesis using placed_here [of h p c t ts] Cons that(2) by simp
qed

lemma cse_find_value_placed:
  assumes "placed h p q ts"
  shows "cse_find_value h q key = Inr (lookup key ts)"
proof -
  obtain b where b: "cse_next_link h q key = Inr b" "placed h p b (from_key key ts)"
    by (rule cse_next_link_placed [OF assms])
  from b(2) show ?thesis
    by (rule search_end) (use b(1) in \<open>auto simp: cse_find_value_def cse_next_link_def lookup_def tree_link_def\<close>)
qed

lemma given_value_placed:
  assumes "placed h p q ts"
  shows "bindR (cse_next_link h q key) (given_value h) = Inr (nonempty (lookup key ts))"
proof -
  obtain b where b: "cse_next_link h q key = Inr b" "placed h p b (from_key key ts)"
    by (rule cse_next_link_placed [OF assms])
  from b(2) show ?thesis
    by (rule search_end) (use b(1) in \<open>auto simp: given_value_def lookup_def tree_link_def nonempty_def\<close>)
qed

subsection \<open>Runners\<close>

fun add_each :: "('a \<Rightarrow> config \<Rightarrow> config res) \<Rightarrow> 'a list \<Rightarrow> config \<Rightarrow> config res" where
  "add_each f [] c = Inr c"
| "add_each f (x # xs) c = bindR (f x c) (add_each f xs)"

lemma add_each_append: "add_each f (xs @ ys) c = bindR (add_each f xs c) (add_each f ys)"
proof (induction xs arbitrary: c)
  case (Cons x xs)
  have "add_each f (xs @ ys) = (\<lambda>c. bindR (add_each f xs c) (add_each f ys))" using Cons by blast
  then show ?case by (simp add: bindR_assoc)
qed simp

text \<open>An entry that falls back to a second name, when the runner is not the default one.\<close>

definition entry :: "bool \<Rightarrow> string \<Rightarrow> string \<Rightarrow> tree list \<Rightarrow> string option" where
  "entry is_default key other ts =
     nonempty (lookup (if tree_link key ts = None \<and> \<not> is_default then other else key) ts)"

definition add_runner :: "(string \<Rightarrow> 32 word option) \<Rightarrow> bool \<Rightarrow> bool \<Rightarrow> tree list \<Rightarrow> config \<Rightarrow> config res" where
  "add_runner resolve is_backup is_default ts config =
     (let port = (case entry is_default ''srun-port'' ''port'' ts of Some v \<Rightarrow> atoi v | None \<Rightarrow> 6802);
          host = (case entry is_default ''srun-host'' ''host'' ts of Some v \<Rightarrow> v | None \<Rightarrow> ''localhost'')
      in bindR (cse_add_host_int resolve host port is_backup is_default config) (\<lambda>(k, config).
           case k of
             None \<Rightarrow> Inr config
           | Some k \<Rightarrow> bindR (get_srun config k) (\<lambda>srun.
               Inr (put_srun k (set_times (nonempty (lookup ''connect-timeout'' ts)) (nonempty (lookup ''live-time'' ts))
                     (nonempty (lookup ''dead-time'' ts)) srun) config))))"

definition with_key :: "string \<Rightarrow> tree list \<Rightarrow> tree list" where
  "with_key key ts = filter (\<lambda>t. tree_key t = key) ts"

definition read_hosts :: "(string \<Rightarrow> 32 word option) \<Rightarrow> tree list \<Rightarrow> config \<Rightarrow> config res" where
  "read_hosts resolve ts config =
     bindR (add_each (\<lambda>t. add_runner resolve False False (tree_kids t)) (with_key ''srun'' ts) config) (\<lambda>config.
     bindR (add_each (\<lambda>t. add_runner resolve True False (tree_kids t)) (with_key ''srun-backup'' ts) config) (\<lambda>config.
       if with_key ''srun'' ts @ with_key ''srun-backup'' ts = []
       then add_runner resolve False True ts config else Inr config))"

lemma given_value_bind:
  assumes "placed h p q ts"
  shows "bindR (cse_next_link h q key) (\<lambda>q. bindR (given_value h q) f) = f (nonempty (lookup key ts))"
  using given_value_placed [OF assms, of key] bindR_assoc [of "cse_next_link h q key" "given_value h" f]
  by simp

lemma entry_placed:
  assumes "placed h p q ts"
  obtains r where "bindR (cse_next_link h q key) (\<lambda>n. if n = None \<and> \<not> is_default then cse_next_link h q other else Inr n) = Inr r"
    "given_value h r = Inr (entry is_default key other ts)"
proof -
  obtain b where b: "cse_next_link h q key = Inr b" "placed h p b (from_key key ts)"
    by (rule cse_next_link_placed [OF assms])
  obtain b' where b': "cse_next_link h q other = Inr b'" "placed h p b' (from_key other ts)"
    by (rule cse_next_link_placed [OF assms])
  have n: "b = None \<longleftrightarrow> tree_link key ts = None"
    using placed_start [OF b(2)] by (auto simp: tree_link_def split: list.split)
  show thesis
    using that [of "if tree_link key ts = None \<and> \<not> is_default then b' else b"]
      given_value_placed [OF assms, of key] given_value_placed [OF assms, of other] b b' n
    by (auto simp: entry_def)
qed

lemma init_host_node_placed:
  assumes "placed h p q ts"
  shows "cse_init_host_node resolve h q is_backup is_default config = add_runner resolve is_backup is_default ts config"
proof -
  obtain r where r: "bindR (cse_next_link h q ''srun-host'') (\<lambda>n. if n = None \<and> \<not> is_default then cse_next_link h q ''host'' else Inr n) = Inr r"
    "given_value h r = Inr (entry is_default ''srun-host'' ''host'' ts)"
    by (rule entry_placed [OF assms])
  obtain r' where r': "bindR (cse_next_link h q ''srun-port'') (\<lambda>n. if n = None \<and> \<not> is_default then cse_next_link h q ''port'' else Inr n) = Inr r'"
    "given_value h r' = Inr (entry is_default ''srun-port'' ''port'' ts)"
    by (rule entry_placed [OF assms])
  obtain n where n: "cse_next_link h q ''srun-host'' = Inr n"
    "(if n = None \<and> \<not> is_default then cse_next_link h q ''host'' else Inr n) = Inr r"
    using r(1) by (auto simp: bindR_Inr_iff)
  obtain n' where n': "cse_next_link h q ''srun-port'' = Inr n'"
    "(if n' = None \<and> \<not> is_default then cse_next_link h q ''port'' else Inr n') = Inr r'"
    using r'(1) by (auto simp: bindR_Inr_iff)
  show ?thesis
    unfolding cse_init_host_node_def n(1) n'(1) bindR_simps n(2) n'(2) r(2) r'(2) given_value_bind [OF assms]
      add_runner_def Let_def ..
qed

text \<open>The loop over the links with a key, and the loop over all children.\<close>

lemma with_from_key: "with_key key ts = (case from_key key ts of [] \<Rightarrow> [] | t # us \<Rightarrow> t # with_key key us)"
  by (induction ts) (simp_all add: with_key_def from_key_def)

lemma length_from_key: "length (from_key key ts) \<le> length ts"
  by (simp add: from_key_def length_dropWhile_le)

lemma each_link_placed:
  assumes body: "\<And>b t us c. placed h p (Some b) (t # us) \<Longrightarrow> body b c = f t c"
    and "placed h p q ts" "length ts < n"
  shows "each_link h key body n q (flag, c) =
    bindR (add_each f (with_key key ts) c) (\<lambda>c. Inr (flag \<or> with_key key ts \<noteq> [], c))"
  using assms(2,3)
proof (induction n arbitrary: q ts flag c)
  case (Suc n)
  obtain b where b: "cse_next_link h q key = Inr b" "placed h p b (from_key key ts)"
    by (rule cse_next_link_placed [OF Suc.prems(1)])
  show ?case
  proof (cases "from_key key ts")
    case Nil
    then show ?thesis using b by (simp add: with_from_key [of key ts])
  next
    case (Cons t us)
    obtain a where a: "b = Some a" "placed h p (Some a) (t # us)" using b(2) unfolding Cons by (rule placed_ConsE)
    note nd = placed_here [OF a(2)]
    have "length us < n" using length_from_key [of key ts] Suc.prems(2) Cons by simp
    note ih = Suc.IH [OF nd(5) this]
    show ?thesis using b(1) a(1) Cons nd(1) body [OF a(2)] ih
      by (simp add: with_from_key [of key ts] bindR_assoc)
  qed
qed simp

lemma each_sibling_placed:
  assumes body: "\<And>b t us c. placed h p (Some b) (t # us) \<Longrightarrow> t \<in> T \<Longrightarrow> body b (h, c) = bindR (add_each g (f t) c) (\<lambda>c. Inr (h, c))"
    and "placed h p q ts" "length ts < n" "set ts \<subseteq> T"
  shows "each_sibling body n q (h, c) = bindR (add_each g (concat (map f ts)) c) (\<lambda>c. Inr (h, c))"
  using assms(2-4)
proof (induction ts arbitrary: q n c)
  case Nil
  then show ?case by (cases n) simp_all
next
  case (Cons t ts)
  then obtain m where m: "n = Suc m" "length ts < m" by (cases n) auto
  obtain a where a: "q = Some a" "placed h p (Some a) (t # ts)" by (rule placed_ConsE [OF Cons.prems(1)])
  note nd = placed_here [OF a(2)]
  have "set ts \<subseteq> T" "t \<in> T" using Cons.prems(3) by simp_all
  note ih = Cons.IH [OF nd(5) m(2) this(1)]
  show ?case using m a(1) nd(1) body [OF a(2) \<open>t \<in> T\<close>] ih
    by (simp add: add_each_append bindR_assoc)
qed

lemma init_hosts_placed:
  assumes "placed h p q ts"
  shows "cse_init_hosts resolve h q config = read_hosts resolve ts config"
proof -
  have body: "srun_node resolve h is_backup b c = add_runner resolve is_backup False (tree_kids t) c"
    if "placed h p (Some b) (t # us)" for b t us c is_backup
    using placed_here [OF that] init_host_node_placed [of h b "n_first (h ! b)" "tree_kids t"] by (simp add: srun_node_def)
  note loop = each_link_placed [OF body assms placed_length [OF assms]]
  show ?thesis
    by (auto simp: cse_init_hosts_def read_hosts_def loop bindR_assoc init_host_node_placed [OF assms]
        simp del: each_link.simps intro!: bindR_cong)
qed

subsection \<open>URL mappings\<close>

definition node_patterns :: "tree \<Rightarrow> string list" where
  "node_patterns t =
     (if tree_key t = ''servlet-mapping''
      then (case lookup ''url-pattern'' (tree_kids t) of Some pattern \<Rightarrow> [pattern] | None \<Rightarrow> []) else [])"

definition web_app_mappings :: "string \<Rightarrow> string \<Rightarrow> tree list \<Rightarrow> (string \<times> string \<times> string) list" where
  "web_app_mappings host pre ts = (host, pre, ''/WEB-INF/*'') # map (\<lambda>pattern. (host, pre, pattern)) (concat (map node_patterns ts))"

definition add_mapping :: "string \<times> string \<times> string \<Rightarrow> config \<Rightarrow> config res" where
  "add_mapping m c = (case m of (host, pre, pattern) \<Rightarrow> cse_add_location (Some host) pre pattern c)"

lemma mapping_node_placed:
  assumes "placed h p (Some b) (t # us)"
  shows "mapping_node host pre b (h, c) =
    bindR (add_each add_mapping (map (\<lambda>pattern. (host, pre, pattern)) (node_patterns t)) c) (\<lambda>c. Inr (h, c))"
proof -
  note b = placed_here [OF assms]
  obtain d where d: "cse_next_link h (n_first (h ! b)) ''url-pattern'' = Inr d" "placed h b d (from_key ''url-pattern'' (tree_kids t))"
    by (rule cse_next_link_placed [OF b(4)])
  from d(2) show ?thesis
    by (rule search_end) (use b(1,2) d(1) in
      \<open>auto simp: mapping_node_def node_patterns_def lookup_def tree_link_def add_mapping_def bindR_assoc split: option.split\<close>)
qed

lemma contents_placed:
  assumes "placed h p q ts"
  shows "cse_init_web_app_contents q host pre (h, c) =
    bindR (add_each add_mapping (web_app_mappings host pre ts) c) (\<lambda>c. Inr (h, c))"
proof -
  have "each_sibling (mapping_node host pre) (Suc (length h)) q (h, c) =
      bindR (add_each add_mapping (concat (map (\<lambda>t. map (\<lambda>pattern. (host, pre, pattern)) (node_patterns t)) ts)) c) (\<lambda>c. Inr (h, c))" for c
    by (rule each_sibling_placed [where T = UNIV, OF mapping_node_placed assms placed_length [OF assms]]) simp_all
  then show ?thesis
    by (simp add: cse_init_web_app_contents_def web_app_mappings_def add_mapping_def bindR_assoc map_concat comp_def)
qed

subsection \<open>Directories\<close>

text \<open>
  The reader joins a web-app's directory from up to four values of the file. With short values
  the array of 4096 bytes in which it does so is large enough.
\<close>

fun short :: "tree list \<Rightarrow> bool" where
  "short [] = True"
| "short (Node k v us # ts) = ((case v of Some x \<Rightarrow> length x \<le> 500 | None \<Rightarrow> True) \<and> short us \<and> short ts)"

lemma short_Cons: "short (t # ts) \<longleftrightarrow> (\<forall>x. tree_value t = Some x \<longrightarrow> length x \<le> 500) \<and> short (tree_kids t) \<and> short ts"
  by (cases t) (auto split: option.split)

lemma short_set: "short ts \<Longrightarrow> t \<in> set ts \<Longrightarrow> (\<forall>x. tree_value t = Some x \<longrightarrow> length x \<le> 500) \<and> short (tree_kids t)"
  by (induction ts) (auto simp: short_Cons)

lemma short_elem: "short ts \<Longrightarrow> t \<in> set ts \<Longrightarrow> short [t]"
  using short_set [of ts t] by (simp add: short_Cons)

lemma short_link: "short ts \<Longrightarrow> tree_link key ts = Some t \<Longrightarrow> (\<forall>x. tree_value t = Some x \<longrightarrow> length x \<le> 500) \<and> short (tree_kids t)"
  by (rule short_set) (auto simp: tree_link_def from_key_def split: list.splits dest!: arg_cong [where f = set] dest: set_dropWhileD)

lemma short_lookup: "short ts \<Longrightarrow> lookup key ts = Some x \<Longrightarrow> length x \<le> 500"
  using short_link by (auto simp: lookup_def split: option.splits)

text \<open>The directory that a node names: its \<open>app-dir\<close>, or for a web-app its prefix.\<close>

definition dir_value :: "tree \<Rightarrow> string option" where
  "dir_value t =
     (if (lookup ''app-dir'' (tree_kids t) = None \<or> lookup ''app-dir'' (tree_kids t) = Some []) \<and> tree_key t = ''web-app''
      then (case tree_value t of None \<Rightarrow> None | Some v \<Rightarrow> Some (if v \<noteq> [] \<and> hd v = CHR ''/'' then tl v else v))
      else lookup ''app-dir'' (tree_kids t))"

definition dir_in :: "string \<Rightarrow> tree \<Rightarrow> string" where
  "dir_in parent t =
     (let base = (if parent = [] then ''.'' else parent)
      in case dir_value t of
           None \<Rightarrow> base
         | Some v \<Rightarrow> if v = [] then base else if is_absolute v then v else base @ ''/'' @ v)"

lemma dir_value_short: "short [t] \<Longrightarrow> dir_value t = Some x \<Longrightarrow> length x \<le> 500"
  using short_lookup [of "tree_kids t" "''app-dir''" x]
  by (auto simp: dir_value_def short_Cons split: if_splits option.splits)

lemma dir_in_short:
  assumes "short [t]" "length d \<le> n" "1 \<le> n"
  shows "length (dir_in d t) \<le> n + 501"
  using dir_value_short [OF assms(1)] assms(2,3) by (auto simp: dir_in_def Let_def split: option.split)

lemma app_dir_placed:
  assumes "placed h p (Some a) (t # us)" "short [t]" "length d \<le> 3500"
  shows "cse_app_dir h (Some a) (Some d) = Inr (Some (dir_in d t))"
proof -
  note a = placed_here [OF assms(1)]
  let ?w = "dir_value t" let ?base = "if d = [] then ''.'' else d"
  have base: "(if Some d = None \<or> Some d = Some [] then ''.'' else the (Some d)) = ?base" by simp
  have w: "length x \<le> 500" if "?w = Some x" for x by (rule dir_value_short [OF assms(2) that])
  have "cse_app_dir h (Some a) (Some d) =
      (if ?w = None \<or> ?w = Some [] then Inr (Some ?base) else if is_absolute (the ?w) then Inr ?w
       else if length ?base + 1 + length (the ?w) + 1 > 4096 then Inl OutOfBounds else Inr (Some (?base @ ''/'' @ the ?w)))"
    unfolding cse_app_dir_def option.case a(1) bindR_simps cse_find_value_placed [OF a(4)] Let_def base
      a(2,3) dir_value_def [symmetric] ..
  then show ?thesis
    using w assms(3) by (cases ?w) (auto simp: dir_in_def Let_def simp del: if_split split: if_split)
qed

subsection \<open>URL mappings of web applications, hosts and the server\<close>

text \<open>
  The trees that each file stands for, when its text is a document and \<open>handles\<close> files can be
  opened: one handle is the file's own, the others are for includes. The reader takes the first
  element of a \<open>web.xml\<close>.
\<close>

type_synonym mapping = "string \<times> string \<times> string"

type_synonym trees = "string \<Rightarrow> tree list"

definition web_xml :: "string \<Rightarrow> string" where
  "web_xml dir = dir @ ''/WEB-INF/web.xml''"

definition read_as :: "(string \<Rightarrow> string option) \<Rightarrow> docs \<Rightarrow> nat \<Rightarrow> trees \<Rightarrow> bool" where
  "read_as files docs handles trees \<longleftrightarrow> 0 < handles \<and> docs_ok files docs \<and> trees = file_trees docs (handles - 1) \<and>
     (\<forall>dir. (docs (web_xml dir) = None \<longrightarrow> files (web_xml dir) = None) \<and> short (trees (web_xml dir)))"

definition web_kids :: "trees \<Rightarrow> string \<Rightarrow> tree list option" where
  "web_kids trees dir = (case trees (web_xml dir) of [] \<Rightarrow> None | t # _ \<Rightarrow> Some (tree_kids t))"

definition app_mappings :: "trees \<Rightarrow> string \<Rightarrow> string \<Rightarrow> string \<Rightarrow> tree list \<Rightarrow> mapping list" where
  "app_mappings trees host pre dir ts =
     web_app_mappings host pre ts @ (case web_kids trees dir of None \<Rightarrow> [] | Some us \<Rightarrow> web_app_mappings host pre us)"

text \<open>A child that is a web-app of the host, and one that is a host of the server.\<close>

definition web_app_tree_mappings :: "trees \<Rightarrow> string \<Rightarrow> string \<Rightarrow> tree \<Rightarrow> mapping list" where
  "web_app_tree_mappings trees host dir t =
     (case tree_value t of
        Some pre \<Rightarrow> if tree_key t = ''web-app'' then app_mappings trees host pre (dir_in dir t) (tree_kids t) else []
      | None \<Rightarrow> [])"

definition host_mappings :: "trees \<Rightarrow> string \<Rightarrow> string \<Rightarrow> tree \<Rightarrow> mapping list" where
  "host_mappings trees host dir t =
     app_mappings trees host [] dir (tree_kids t) @ concat (map (web_app_tree_mappings trees host (dir_in dir t)) (tree_kids t))"

definition host_tree_mappings :: "trees \<Rightarrow> string \<Rightarrow> tree \<Rightarrow> mapping list" where
  "host_tree_mappings trees dir t =
     (case tree_value t of
        Some name \<Rightarrow> if tree_key t = ''host'' then host_mappings trees name (dir_in dir t) t else []
      | None \<Rightarrow> [])"

definition server_mappings :: "trees \<Rightarrow> string \<Rightarrow> tree \<Rightarrow> mapping list" where
  "server_mappings trees home t = host_mappings trees [] home t @ concat (map (host_tree_mappings trees (dir_in home t)) (tree_kids t))"

text \<open>
  A routine \<open>fills\<close> the table with mappings: it succeeds, adds them in order and at most extends
  the heap.
\<close>

definition fits :: "mapping list \<Rightarrow> bool" where
  "fits ms \<longleftrightarrow> (\<forall>(host, pre, pattern) \<in> set ms. length pre + length pattern + 3 \<le> 4096)"

definition extends :: "heap \<Rightarrow> heap \<Rightarrow> bool" where
  "extends h h' \<longleftrightarrow> (\<exists>hs. h' = h @ hs)"

definition fills :: "mapping list \<Rightarrow> heap \<times> config \<Rightarrow> (heap \<times> config) res \<Rightarrow> bool" where
  "fills ms x m \<longleftrightarrow> (\<exists>h' c'. m = Inr (h', c') \<and> add_each add_mapping ms (snd x) = Inr c' \<and> extends (fst x) h')"

lemma fits_append [simp]: "fits (ms @ ns) \<longleftrightarrow> fits ms \<and> fits ns"
  unfolding fits_def set_append by blast

lemma add_fits: "fits ms \<Longrightarrow> \<exists>c'. add_each add_mapping ms c = Inr c'"
  by (induction ms arbitrary: c) (auto simp: fits_def add_mapping_def add_location_eq)

lemma extends_refl [simp]: "extends h h"
  by (simp add: extends_def)

lemma extendsI: "take (length h) h' = h \<Longrightarrow> extends h h'"
  unfolding extends_def by (metis append_take_drop_id)

lemma extendsD: "extends h h' \<Longrightarrow> length h \<le> length h' \<and> take (length h) h' = h"
  by (auto simp: extends_def)

lemma extends_trans: "extends h h' \<Longrightarrow> extends h' h2 \<Longrightarrow> extends h h2"
  by (auto simp: extends_def)

lemma placed_extends:
  assumes "placed h p q ts" "extends h h'"
  shows "placed h' p q ts"
proof -
  obtain lo hi where l: "laid h p lo hi q ts None" "hi \<le> length h" using assms(1) by (auto simp: placed_def)
  have "laid h' p lo hi q ts None" by (rule laid_cong [OF l(1)]) (use assms(2) l(2) in \<open>auto simp: extends_def nth_append\<close>)
  moreover have "hi \<le> length h'" using assms(2) l(2) by (auto simp: extends_def)
  ultimately show ?thesis unfolding placed_def by blast
qed

lemma fills_Nil [simp]: "fills [] x (Inr x)"
  by (cases x) (simp add: fills_def)

lemma fills_seq:
  assumes "fills ms x m" "\<And>h c. extends (fst x) h \<Longrightarrow> fills ns (h, c) (f (h, c))"
  shows "fills (ms @ ns) x (bindR m f)"
proof -
  obtain h c where m: "m = Inr (h, c)" "add_each add_mapping ms (snd x) = Inr c" "extends (fst x) h"
    using assms(1) by (auto simp: fills_def)
  obtain h2 c2 where "f (h, c) = Inr (h2, c2)" "add_each add_mapping ns c = Inr c2" "extends h h2"
    using assms(2) [OF m(3), of c] by (auto simp: fills_def)
  then show ?thesis using m extends_trans by (auto simp: fills_def add_each_append)
qed

lemma fills_seq0: "fills ms x m \<Longrightarrow> (\<And>h c. extends (fst x) h \<Longrightarrow> fills [] (h, c) (f (h, c))) \<Longrightarrow> fills ms x (bindR m f)"
  using fills_seq [of ms x m "[]" f] by simp

lemma each_sibling_fills:
  assumes body: "\<And>h' b t us c. extends h h' \<Longrightarrow> placed h' p (Some b) (t # us) \<Longrightarrow> t \<in> T \<Longrightarrow> fills (f t) (h', c) (body b (h', c))"
    and "extends h h'" "placed h' p q ts" "length ts < n" "set ts \<subseteq> T"
  shows "fills (concat (map f ts)) (h', c) (each_sibling body n q (h', c))"
  using assms(2-5)
proof (induction ts arbitrary: q n h' c)
  case Nil
  then show ?case by (cases n) simp_all
next
  case (Cons t ts)
  then obtain m where m: "n = Suc m" "length ts < m" by (cases n) auto
  obtain a where a: "q = Some a" "placed h' p (Some a) (t # ts)" by (rule placed_ConsE [OF Cons.prems(2)])
  have t: "t \<in> T" "set ts \<subseteq> T" using Cons.prems(4) by simp_all
  have "fills (f t @ concat (map f ts)) (h', c) (bindR (body a (h', c)) (\<lambda>hc.
      bindR (get_node (fst hc) (Some a)) (\<lambda>nd. each_sibling body m (n_next nd) hc)))"
  proof (rule fills_seq [OF body [OF Cons.prems(1) a(2) t(1)]])
    fix h2 c2 assume "extends (fst (h', c)) h2"
    then have e: "extends h h2" "placed h2 p (Some a) (t # ts)"
      using extends_trans [OF Cons.prems(1)] placed_extends [OF a(2)] by simp_all
    note nd = placed_here [OF e(2)]
    have "fills (concat (map f ts)) (h2, c2) (each_sibling body m (n_next (h2 ! a)) (h2, c2))"
      by (rule Cons.IH [OF e(1) nd(5) m(2) t(2)])
    then show "fills (concat (map f ts)) (h2, c2)
        (bindR (get_node (fst (h2, c2)) (Some a)) (\<lambda>nd. each_sibling body m (n_next nd) (h2, c2)))"
      using nd(1) by simp
  qed
  then show ?case by (simp add: m(1) a(1))
qed

lemma web_app_fits: "short ts \<Longrightarrow> length pre \<le> 500 \<Longrightarrow> fits (web_app_mappings host pre ts)"
proof -
  assume sh: "short ts" and pre: "length pre \<le> 500"
  have "length p \<le> 500" if t: "t \<in> set ts" "p \<in> set (node_patterns t)" for t p
  proof (cases "lookup ''url-pattern'' (tree_kids t)")
    case None
    then show ?thesis using t(2) unfolding node_patterns_def by (cases "tree_key t = ''servlet-mapping''") simp_all
  next
    case (Some q)
    then have "p = q" using t(2) unfolding node_patterns_def by (cases "tree_key t = ''servlet-mapping''") simp_all
    then show ?thesis using Some short_set [OF sh t(1)] short_lookup by blast
  qed
  then show "fits (web_app_mappings host pre ts)" using pre unfolding web_app_mappings_def fits_def by fastforce
qed

lemma contents_fill:
  assumes "placed h p q ts" "short ts" "length pre \<le> 500"
  shows "fills (web_app_mappings host pre ts) (h, c) (cse_init_web_app_contents q host pre (h, c))"
  using add_fits [OF web_app_fits [OF assms(2,3)], of host c] by (auto simp: fills_def contents_placed [OF assms(1)])

lemma built_placed:
  assumes "built h r par k v ts"
  shows "get_node h (Some r) = Inr (h ! r)" "placed h r (n_first (h ! r)) ts"
  using assms by (auto simp: built_def placed_def get_node_def)

text \<open>The file \<open>web.xml\<close> of a web-app, as \<open>cse_init_web_app\<close> reads it.\<close>

definition read_web_xml ::
    "(nat \<Rightarrow> char) \<Rightarrow> (string \<Rightarrow> string option) \<Rightarrow> nat \<Rightarrow> string \<Rightarrow> string \<Rightarrow> string \<Rightarrow> heap \<times> config \<Rightarrow> (heap \<times> config) res" where
  "read_web_xml junk files handles host pre buf x =
     (case open_file files handles buf of
        None \<Rightarrow> Inr x
      | Some content \<Rightarrow>
          bindR (cse_parse junk files (handles - 1) content buf x) (\<lambda>(web, x).
            case web of
              None \<Rightarrow> Inr x
            | Some _ \<Rightarrow>
                bindR (get_node (fst x) web) (\<lambda>wn.
                  case n_first wn of
                    None \<Rightarrow> Inr x
                  | Some _ \<Rightarrow>
                      bindR (get_node (fst x) (n_first wn)) (\<lambda>fn.
                        cse_init_web_app_contents (n_first fn) host pre x))))"

lemma read_web_xml_fills:
  assumes "read_as files docs handles trees" "length pre \<le> 500"
  shows "fills (case web_kids trees dir of None \<Rightarrow> [] | Some us \<Rightarrow> web_app_mappings host pre us) (h, c)
    (read_web_xml junk files handles host pre (web_xml dir) (h, c))"
proof (cases "docs (web_xml dir)")
  case None
  then have "files (web_xml dir) = None" "trees (web_xml dir) = []"
    using assms(1) by (cases "handles - 1"; auto simp: read_as_def)+
  then show ?thesis by (simp add: read_web_xml_def open_file_def web_kids_def)
next
  case (Some d)
  obtain lead es where d: "d = (lead, es)" by (rule prod.exhaust)
  have f: "files (web_xml dir) = Some (lead @ render es)" "0 < handles" "docs_ok files docs" "docs (web_xml dir) = Some (lead, es)"
    "trees (web_xml dir) = file_trees docs (handles - 1) (web_xml dir)" "short (trees (web_xml dir))"
    using assms(1) Some by (auto simp: read_as_def docs_ok_def d)
  let ?ts = "trees (web_xml dir)"
  obtain h' where h': "cse_parse junk files (handles - 1) (lead @ render es) (web_xml dir) (h, c) = Inr (Some (length h), h', c)"
    "take (length h) h' = h" "built h' (length h) None [] None ?ts"
    using cse_parse_document [OF f(3,4)] f(5) by metis
  note root = built_placed [OF h'(3)]
  have x: "extends h h'" by (rule extendsI [OF h'(2)])
  have start: "read_web_xml junk files handles host pre (web_xml dir) (h, c) = (case n_first (h' ! length h) of None \<Rightarrow> Inr (h', c)
      | Some _ \<Rightarrow> bindR (get_node h' (n_first (h' ! length h))) (\<lambda>fn. cse_init_web_app_contents (n_first fn) host pre (h', c)))"
    using f(1,2) h'(1) root(1) by (simp add: read_web_xml_def open_file_def cong: option.case_cong)
  show ?thesis
  proof (cases ?ts)
    case Nil
    then show ?thesis unfolding start using x root(2) by (simp add: fills_def web_kids_def)
  next
    case (Cons u us)
    obtain a where a: "n_first (h' ! length h) = Some a" "placed h' (length h) (Some a) (u # us)"
      using root(2) unfolding Cons by (rule placed_ConsE)
    note u = placed_here [OF a(2)]
    have "short (tree_kids u)" using f(6) Cons by (simp add: short_Cons)
    from contents_fill [OF u(4) this assms(2), of host c]
    have "fills (web_app_mappings host pre (tree_kids u)) (h', c) (read_web_xml junk files handles host pre (web_xml dir) (h, c))"
      unfolding start using a(1) u(1) by simp
    then show ?thesis using x extends_trans by (auto simp: fills_def web_kids_def Cons)
  qed
qed

lemma init_web_app_fills:
  assumes "placed h p (Some a) (t # us)" "short [t]" "length pre \<le> 500" "length dir \<le> 4000" "read_as files docs handles trees"
  shows "fills (app_mappings trees host pre dir (tree_kids t)) (h, c)
    (cse_init_web_app junk files handles (Some a) host pre (Some dir) (h, c))"
proof -
  note a = placed_here(1,4) [OF assms(1)]
  have sh: "short (tree_kids t)" using assms(2) by (simp add: short_Cons)
  have e: "cse_init_web_app junk files handles (Some a) host pre (Some dir) (h, c) =
      bindR (cse_init_web_app_contents (n_first (h ! a)) host pre (h, c))
        (read_web_xml junk files handles host pre (web_xml dir))"
    using a(1) assms(4) by (simp add: cse_init_web_app_def read_web_xml_def [abs_def] web_xml_def Let_def)
  show ?thesis unfolding e app_mappings_def
    by (rule fills_seq [OF contents_fill [OF a(2) sh assms(3)] read_web_xml_fills [OF assms(5,3)]])
qed

lemma web_app_node_fills:
  assumes "placed h p (Some a) (t # us)" "short [t]" "length dir \<le> 3400" "read_as files docs handles trees"
  shows "fills (web_app_tree_mappings trees host dir t) (h, c) (web_app_node junk files handles host (Some dir) a (h, c))"
proof -
  note a = placed_here(1-3) [OF assms(1)]
  show ?thesis
  proof (cases "tree_value t")
    case None
    then show ?thesis using a by (simp add: web_app_node_def web_app_tree_mappings_def)
  next
    case (Some pre)
    have d: "cse_app_dir h (Some a) (Some dir) = Inr (Some (dir_in dir t))"
      by (rule app_dir_placed [OF assms(1,2)]) (use assms(3) in simp)
    have l: "length pre \<le> 500" "length (dir_in dir t) \<le> 4000"
      using assms(2) Some dir_in_short [OF assms(2), of dir 3400] assms(3) by (simp_all add: short_Cons)
    show ?thesis using a Some d init_web_app_fills [OF assms(1,2) l assms(4), of host c junk]
      by (simp add: web_app_node_def web_app_tree_mappings_def)
  qed
qed

lemma init_host_fills:
  assumes "placed h p (Some a) (t # us)" "short [t]" "length dir \<le> 2800" "read_as files docs handles trees"
  shows "fills (host_mappings trees host dir t) (h, c) (cse_init_host junk files handles (Some a) host (Some dir) (h, c))"
proof -
  have d: "cse_app_dir h (Some a) (Some dir) = Inr (Some (dir_in dir t))"
    by (rule app_dir_placed [OF assms(1,2)]) (use assms(3) in simp)
  have l: "length dir \<le> 4000" "length (dir_in dir t) \<le> 3400" "length ([]::string) \<le> 500"
    using dir_in_short [OF assms(2), of dir 2800] assms(3) by simp_all
  have sh: "short (tree_kids t)" using assms(2) by (simp add: short_Cons)
  show ?thesis unfolding cse_init_host_def host_mappings_def d bindR_simps prod.sel
  proof (rule fills_seq [OF init_web_app_fills [OF assms(1,2) l(3,1) assms(4)]])
    fix h2 c2 assume "extends (fst (h, c)) h2"
    then have p: "placed h2 p (Some a) (t # us)" using placed_extends [OF assms(1)] by simp
    note a = placed_here(1,4) [OF p]
    have "fills (concat (map (web_app_tree_mappings trees host (dir_in dir t)) (tree_kids t))) (h2, c2)
        (each_sibling (web_app_node junk files handles host (Some (dir_in dir t))) (Suc (length h2)) (n_first (h2 ! a)) (h2, c2))"
      by (rule each_sibling_fills [OF _ extends_refl a(2) placed_length [OF a(2)] order_refl])
        (rule web_app_node_fills [OF _ short_elem [OF sh] l(2) assms(4)])
    then show "fills (concat (map (web_app_tree_mappings trees host (dir_in dir t)) (tree_kids t))) (h2, c2)
        (bindR (get_node (fst (h2, c2)) (Some a)) (\<lambda>nd. each_sibling (web_app_node junk files handles host (Some (dir_in dir t)))
          (Suc (length (fst (h2, c2)))) (n_first nd) (h2, c2)))"
      using a(1) by simp
  qed
qed

lemma host_node_fills:
  assumes "placed h p (Some a) (t # us)" "short [t]" "length dir \<le> 2200" "read_as files docs handles trees"
  shows "fills (host_tree_mappings trees dir t) (h, c) (host_node junk files handles (Some dir) a (h, c))"
proof -
  note a = placed_here(1-3) [OF assms(1)]
  have d: "cse_app_dir h (Some a) (Some dir) = Inr (Some (dir_in dir t))"
    by (rule app_dir_placed [OF assms(1,2)]) (use assms(3) in simp)
  have l: "length (dir_in dir t) \<le> 2800" using dir_in_short [OF assms(2), of dir 2200] assms(3) by simp
  show ?thesis using a d init_host_fills [OF assms(1,2) l assms(4), of _ c junk]
    by (cases "tree_value t") (simp_all add: host_node_def host_tree_mappings_def)
qed

lemma init_server_fills:
  assumes "placed h p (Some a) (t # us)" "short [t]" "resin_home c = Some home" "length home \<le> 1000" "read_as files docs handles trees"
  shows "fills (server_mappings trees home t) (h, c) (cse_init_server junk files handles (Some a) (h, c))"
proof -
  have d: "cse_app_dir h (Some a) (Some home) = Inr (Some (dir_in home t))"
    by (rule app_dir_placed [OF assms(1,2)]) (use assms(4) in simp)
  have l: "length home \<le> 2800" "length (dir_in home t) \<le> 2200"
    using dir_in_short [OF assms(2), of home 1000] assms(4) by simp_all
  have sh: "short (tree_kids t)" using assms(2) by (simp add: short_Cons)
  show ?thesis unfolding cse_init_server_def server_mappings_def prod.sel assms(3) d bindR_simps option.case
  proof (rule fills_seq [OF init_host_fills [OF assms(1,2) l(1) assms(5)]])
    fix h2 c2 assume "extends (fst (h, c)) h2"
    then have p: "placed h2 p (Some a) (t # us)" using placed_extends [OF assms(1)] by simp
    note a = placed_here(1,4) [OF p]
    have "fills (concat (map (host_tree_mappings trees (dir_in home t)) (tree_kids t))) (h2, c2)
        (each_sibling (host_node junk files handles (Some (dir_in home t))) (Suc (length h2)) (n_first (h2 ! a)) (h2, c2))"
      by (rule each_sibling_fills [OF _ extends_refl a(2) placed_length [OF a(2)] order_refl])
        (rule host_node_fills [OF _ short_elem [OF sh] l(2) assms(5)])
    then show "fills (concat (map (host_tree_mappings trees (dir_in home t)) (tree_kids t))) (h2, c2)
        (bindR (get_node (fst (h2, c2)) (Some a)) (\<lambda>nd. each_sibling (host_node junk files handles (Some (dir_in home t)))
          (Suc (length (fst (h2, c2)))) (n_first nd) (h2, c2)))"
      using a(1) by simp
  qed
qed

subsection \<open>The error page, the status page and the server's node\<close>

definition pick_page :: "string option \<Rightarrow> tree \<Rightarrow> string option" where
  "pick_page page t =
     (let exn = lookup ''exception-type'' (tree_kids t); code = lookup ''error-code'' (tree_kids t)
      in if exn = Some ''connection'' \<or> exn = None \<and> code = None \<and> page = None
         then lookup ''location'' (tree_kids t) else page)"

definition error_page_of :: "tree list \<Rightarrow> string option \<Rightarrow> string option" where
  "error_page_of ts page = foldl pick_page page (with_key ''error-page'' ts)"

lemma add_each_pages:
  "add_each (\<lambda>t c. Inr (c\<lparr>error_page := pick_page (error_page c) t\<rparr>)) ts c = Inr (c\<lparr>error_page := foldl pick_page (error_page c) ts\<rparr>)"
  by (induction ts arbitrary: c) simp_all

lemma error_page_node_placed:
  assumes "placed h p (Some b) (t # us)"
  shows "error_page_node h b c = Inr (c\<lparr>error_page := pick_page (error_page c) t\<rparr>)"
proof -
  note a = placed_here(1,4) [OF assms]
  show ?thesis
    unfolding error_page_node_def a(1) bindR_simps cse_find_value_placed [OF a(2)] pick_page_def Let_def
    by (simp only: if_distrib [where f = "\<lambda>p. Inr (c\<lparr>error_page := p\<rparr>)"] config.surjective config.update_convs) simp
qed

lemma init_error_page_placed:
  assumes "placed h p q ts"
  shows "cse_init_error_page h q c = Inr (c\<lparr>error_page := error_page_of ts (error_page c)\<rparr>)"
proof -
  have loop: "each_link h ''error-page'' (error_page_node h) (Suc (length h)) q (flag, c) =
      bindR (add_each (\<lambda>t c. Inr (c\<lparr>error_page := pick_page (error_page c) t\<rparr>)) (with_key ''error-page'' ts) c)
        (\<lambda>c. Inr (flag \<or> with_key ''error-page'' ts \<noteq> [], c))" for flag
    by (rule each_link_placed [OF error_page_node_placed assms placed_length [OF assms]])
  show ?thesis by (simp add: cse_init_error_page_def loop add_each_pages error_page_of_def del: each_link.simps)
qed

definition set_status :: "tree list \<Rightarrow> config \<Rightarrow> config" where
  "set_status ts c =
     (if lookup ''caucho-status'' ts = Some ''false'' \<or> lookup ''caucho-status'' ts = Some ''no''
      then c\<lparr>disable_caucho_status := True\<rparr> else c)"

definition server_tree :: "tree list \<Rightarrow> tree option" where
  "server_tree ts = (case tree_link ''caucho.com'' ts of None \<Rightarrow> None | Some t \<Rightarrow> tree_link ''http-server'' (tree_kids t))"

lemma link_placed:
  assumes "placed h p q ts"
  shows "\<exists>b us. cse_next_link h q key = Inr (case tree_link key ts of None \<Rightarrow> None | Some _ \<Rightarrow> Some b) \<and>
    (\<forall>t. tree_link key ts = Some t \<longrightarrow> placed h p (Some b) (t # us))"
proof -
  obtain b where b: "cse_next_link h q key = Inr b" "placed h p b (from_key key ts)"
    by (rule cse_next_link_placed [OF assms])
  show ?thesis
  proof (cases "from_key key ts")
    case Nil
    then show ?thesis using b by (simp add: tree_link_def)
  next
    case (Cons t us)
    obtain a where "b = Some a" "placed h p (Some a) (t # us)" using b(2) unfolding Cons by (rule placed_ConsE)
    then show ?thesis using b(1) Cons by (auto simp: tree_link_def)
  qed
qed

lemma find_server_built:
  assumes "built h r par k v ts"
  shows "\<exists>p b us. find_server h (Some r) = Inr (case server_tree ts of None \<Rightarrow> None | Some _ \<Rightarrow> Some b) \<and>
    (\<forall>t. server_tree ts = Some t \<longrightarrow> placed h p (Some b) (t # us))"
proof -
  note r = built_placed [OF assms]
  obtain b us where b: "cse_next_link h (n_first (h ! r)) ''caucho.com'' = Inr (case tree_link ''caucho.com'' ts of None \<Rightarrow> None | Some _ \<Rightarrow> Some b)"
    "\<forall>t. tree_link ''caucho.com'' ts = Some t \<longrightarrow> placed h r (Some b) (t # us)"
    using link_placed [OF r(2)] by blast
  show ?thesis
  proof (cases "tree_link ''caucho.com'' ts")
    case None
    then show ?thesis using r b by (simp add: find_server_def server_tree_def)
  next
    case (Some t)
    then have "placed h r (Some b) (t # us)" using b(2) by blast
    note t = placed_here(1,4) [OF this]
    show ?thesis using r b t(1) Some link_placed [OF t(2), of "''http-server''"] by (simp add: find_server_def server_tree_def) blast
  qed
qed

text \<open>The reader on the trees of a document.\<close>

definition configure :: "(string \<Rightarrow> 32 word option) \<Rightarrow> trees \<Rightarrow> string \<Rightarrow> tree list \<Rightarrow> config \<Rightarrow> config res" where
  "configure resolve trees home ts c =
     (case server_tree ts of
        None \<Rightarrow> Inr c
      | Some t \<Rightarrow>
          bindR (add_each add_mapping (server_mappings trees home t) (set_status (tree_kids t) c)) (\<lambda>c.
          bindR (read_hosts resolve (tree_kids t) c) (\<lambda>c.
            Inr (c\<lparr>error_page := error_page_of (tree_kids t) (error_page c)\<rparr>))))"

lemma read_server_placed:
  assumes "placed h p (Some a) (t # us)" "short [t]" "resin_home c = Some home" "length home \<le> 1000" "read_as files docs handles trees"
  shows "\<exists>h'. read_server junk files handles resolve a (h, c) =
    bindR (add_each add_mapping (server_mappings trees home t) (set_status (tree_kids t) c)) (\<lambda>c.
    bindR (read_hosts resolve (tree_kids t) c) (\<lambda>c.
      Inr (h', c\<lparr>error_page := error_page_of (tree_kids t) (error_page c)\<rparr>))) \<and> extends h h'"
proof -
  note a = placed_here(1,4) [OF assms(1)]
  have "resin_home (set_status (tree_kids t) c) = Some home" using assms(3) by (simp add: set_status_def)
  from init_server_fills [OF assms(1,2) this assms(4,5), of junk]
  obtain h' c' where f: "cse_init_server junk files handles (Some a) (h, set_status (tree_kids t) c) = Inr (h', c')"
    "add_each add_mapping (server_mappings trees home t) (set_status (tree_kids t) c) = Inr c'" "extends h h'"
    by (auto simp: fills_def)
  have "placed h' p (Some a) (t # us)" by (rule placed_extends [OF assms(1) f(3)])
  note a' = placed_here(1,4) [OF this]
  have "read_server junk files handles resolve a (h, c) =
      bindR (read_hosts resolve (tree_kids t) c') (\<lambda>c. Inr (h', c\<lparr>error_page := error_page_of (tree_kids t) (error_page c)\<rparr>))"
    unfolding read_server_def prod.case a(1) bindR_simps cse_find_value_placed [OF a(2)] Let_def
      set_status_def [symmetric] f(1) a'(1) init_hosts_placed [OF a'(2)] init_error_page_placed [OF a'(2)] ..
  then show ?thesis using f(2,3) by (intro exI [of _ h']) simp
qed

lemma back_to_separator_less: "back_to_separator path n = Some q \<Longrightarrow> q < n"
  by (induction path n rule: back_to_separator.induct) (auto split: if_splits)

lemma length_home_of: "length path \<le> n \<Longrightarrow> 1 \<le> n \<Longrightarrow> length (home_of path) \<le> n"
  by (auto simp: home_of_def split: option.split)

lemma short_server: "short ts \<Longrightarrow> server_tree ts = Some t \<Longrightarrow> short [t]"
proof -
  assume s: "short ts" "server_tree ts = Some t"
  then obtain u where u: "tree_link ''caucho.com'' ts = Some u" "tree_link ''http-server'' (tree_kids u) = Some t"
    by (auto simp: server_tree_def split: option.splits)
  show "short [t]" using short_link [of "tree_kids u" _ t] short_link [OF s(1) u(1)] u(2) by (auto simp: short_Cons)
qed

lemma init_config_document:
  assumes "read_as files docs handles trees" "docs path \<noteq> None" "short (trees path)"
    and "c_path c = Some path" "resin_home c = None" "length path \<le> 1000"
  shows "\<exists>h'. cse_init_config junk files handles resolve (h, c) =
      bindR (configure resolve trees (home_of path) (trees path)
          (c\<lparr>resin_home := Some (home_of path), c_registry := Some (length h)\<rparr>))
        (\<lambda>c'. Inr (h', c')) \<and> extends h h'"
proof -
  let ?ts = "trees path"
  let ?c = "c\<lparr>resin_home := Some (home_of path)\<rparr>" let ?c1 = "?c\<lparr>c_registry := Some (length h)\<rparr>"
  obtain lead es where "docs path = Some (lead, es)" using assms(2) by auto
  then have f: "files path = Some (lead @ render es)" "0 < handles" "docs_ok files docs" "docs path = Some (lead, es)"
    "trees path = file_trees docs (handles - 1) path"
    using assms(1) by (auto simp: read_as_def docs_ok_def)
  obtain h' where h': "cse_parse junk files (handles - 1) (lead @ render es) path (h, ?c) = Inr (Some (length h), h', ?c)"
    "take (length h) h' = h" "built h' (length h) None [] None ?ts"
    using cse_parse_document [OF f(3,4)] f(5) by metis
  have "within (length h) (h, ?c) (h', ?c) \<and> length h < length h'"
    using cse_parse_lands [of h ?c junk files "handles - 1" "lead @ render es" path] h'(1) by simp
  then have "returns (\<lambda>_. True) (cse_print_registry h' (Some (length h)))"
    by (intro walk_print_registry [of "length h"]) (auto simp: within_def)
  then obtain lines where lines: "cse_print_registry h' (Some (length h)) = Inr lines" by (auto simp: returns_iff)
  have start: "cse_init_config junk files handles resolve (h, c) =
      bindR (find_server h' (Some (length h))) (\<lambda>node. case node of
         None \<Rightarrow> Inr (h', ?c1) | Some node \<Rightarrow> read_server junk files handles resolve node (h', ?c1))"
    using assms(4,5) f(1,2) h'(1) lines by (simp add: cse_init_config_def open_file_def Let_def)
  obtain q b us where b: "find_server h' (Some (length h)) = Inr (case server_tree ?ts of None \<Rightarrow> None | Some _ \<Rightarrow> Some b)"
    "\<forall>t. server_tree ?ts = Some t \<longrightarrow> placed h' q (Some b) (t # us)"
    using find_server_built [OF h'(3)] by blast
  have x: "extends h h'" by (rule extendsI [OF h'(2)])
  show ?thesis
  proof (cases "server_tree ?ts")
    case None
    then show ?thesis unfolding start b(1) using x by (intro exI [of _ h']) (simp add: configure_def)
  next
    case (Some t)
    have p: "placed h' q (Some b) (t # us)" "resin_home ?c1 = Some (home_of path)" using b(2) Some by simp_all
    have l: "length (home_of path) \<le> 1000" by (rule length_home_of [OF assms(6)]) simp
    obtain h2 where h2: "read_server junk files handles resolve b (h', ?c1) =
        bindR (add_each add_mapping (server_mappings trees (home_of path) t) (set_status (tree_kids t) ?c1)) (\<lambda>c.
        bindR (read_hosts resolve (tree_kids t) c) (\<lambda>c.
          Inr (h2, c\<lparr>error_page := error_page_of (tree_kids t) (error_page c)\<rparr>)))" "extends h' h2"
      using read_server_placed [OF p(1) short_server [OF assms(3) Some] p(2) l assms(1)] by blast
    show ?thesis unfolding start b(1) using Some h2(1) extends_trans [OF x h2(2)]
      by (intro exI [of _ h2]) (simp add: configure_def bindR_assoc)
  qed
qed

end
