(* ===== verification/Cse_Configured.thy ===== *)
theory Cse_Configured
  imports Cse_Reader
begin

text \<open>
  What a configuration file configures: the runners, in the order in which the load balancer has
  them, and the locations of the dispatcher; from the text of the file to both. The reader's
  functions of the element tree are those of Cse_Reader.
\<close>

subsection \<open>The runners of a configuration\<close>

definition runners_ok :: "config \<Rightarrow> int set \<Rightarrow> bool" where
  "runners_ok c fds \<longleftrightarrow> config_ok c \<and> pools_ok (srun_list c) fds \<and> sessions_ok c"

type_synonym runner = "string option \<times> int \<times> bool \<times> int \<times> int \<times> int"

definition runner_of :: "srun \<Rightarrow> runner" where
  "runner_of s = (sr_hostname s, sr_port s, sr_is_backup s, sr_connect_timeout s, sr_live_time s, sr_dead_time s)"

text \<open>The runners that have been configured: the built-in default is not one of them.\<close>

definition roster :: "config \<Rightarrow> runner list" where
  "roster c = map runner_of (take (next_index c) (srun_list c))"

text \<open>The runners that the load balancer chooses from, the default included.\<close>

definition lineup :: "config \<Rightarrow> runner list" where
  "lineup c = map runner_of (take (nat (srun_size c)) (srun_list c))"

definition settings :: "config \<Rightarrow> location list \<times> string option \<times> bool \<times> nat option \<times> string option \<times> string option" where
  "settings c = (locations c, error_page c, disable_caucho_status c, c_registry c, resin_home c, c_path c)"

text \<open>The runner that an element describes.\<close>

definition described :: "bool \<Rightarrow> bool \<Rightarrow> tree list \<Rightarrow> string \<times> runner" where
  "described is_backup is_default ts =
     (let host = (case entry is_default ''srun-host'' ''host'' ts of Some v \<Rightarrow> v | None \<Rightarrow> ''localhost'')
      in (host, Some host, (case entry is_default ''srun-port'' ''port'' ts of Some v \<Rightarrow> atoi v | None \<Rightarrow> 6802), is_backup,
          (case nonempty (lookup ''connect-timeout'' ts) of Some v \<Rightarrow> atoi v | None \<Rightarrow> 2),
          (case nonempty (lookup ''live-time'' ts) of Some v \<Rightarrow> at_least_5 (atoi v) | None \<Rightarrow> 10),
          (case nonempty (lookup ''dead-time'' ts) of Some v \<Rightarrow> at_least_5 (atoi v) | None \<Rightarrow> 120)))"

definition resolved :: "(string \<Rightarrow> 32 word option) \<Rightarrow> (string \<times> runner) list \<Rightarrow> runner list" where
  "resolved resolve ds = map snd (filter (\<lambda>d. resolve (fst d) \<noteq> None) ds)"

lemma grow_settings [simp]: "settings (grow_srun_list c) = settings c"
  by (simp add: grow_srun_list_def settings_def Let_def)

lemma next_index_bounds:
  assumes "config_ok c"
  shows "int (next_index c) \<le> srun_size c" "next_index c \<le> length (srun_list c)" "next_index c \<le> used_size c"
  using assms by (auto simp: next_index_def config_ok_def used_size_def)

definition placed_runner :: "string \<Rightarrow> 32 word \<Rightarrow> int \<Rightarrow> bool \<Rightarrow> bool \<Rightarrow> nat \<Rightarrow> srun \<Rightarrow> srun" where
  "placed_runner name a port is_backup is_default n srun =
     srun\<lparr>sr_hostname := Some name, sr_host := Some a, sr_port := port, sr_is_backup := is_backup, sr_n_sockets := 0,
       sr_max_sockets := 32, sr_is_default := is_default \<and> n = 0, sr_connect_timeout := CONNECT_TIMEOUT,
       sr_live_time := LIVE_TIME, sr_dead_time := DEAD_TIME, sr_session := int n\<rparr>"

lemma add_host_eq:
  assumes "config_ok c" "pools_ok (srun_list c) fds"
  shows "cse_add_host_int resolve name port is_backup is_default c =
    (let c2 = grow_srun_list (c\<lparr>srun_size := int (next_index c)\<rparr>) in
     case resolve name of
       Some a \<Rightarrow> Inr (Some (int (next_index c)),
         (put_srun (int (next_index c)) (placed_runner name a port is_backup is_default (next_index c) (srun_list c2 ! next_index c)) c2)
           \<lparr>srun_size := int (next_index c) + 1\<rparr>)
     | None \<Rightarrow> bindR (cse_error (''CSE cannot find host '' @ name @ [CHR 0x0A]) c2) (\<lambda>config. Inr (None, config)))"
proof -
  let ?n = "next_index c" let ?c1 = "c\<lparr>srun_size := int ?n\<rparr>" let ?c2 = "grow_srun_list ?c1"
  have c1: "config_ok ?c1" "pools_ok (srun_list ?c1) fds"
    using assms next_index_bounds(1) [OF assms(1)] by (auto simp: config_ok_def)
  note g = grow_srun_list_ok [OF c1]
  have "?n < length (srun_list ?c2)" using g(1,3,4) by (simp add: config_ok_def)
  then show ?thesis using g(3)
    by (auto simp: cse_add_host_int_def drop_default_srun_eq [OF assms(1)] Let_def placed_runner_def split: option.split)
qed

lemma take_nth_eq: "n \<le> length xs \<Longrightarrow> n \<le> length ys \<Longrightarrow> (\<And>j. j < n \<Longrightarrow> xs ! j = ys ! j) \<Longrightarrow> take n xs = take n ys"
  by (rule nth_equalityI) auto

text \<open>The configuration once the runner at index \<open>n\<close> has been replaced by an idle one.\<close>

lemma runner_placed:
  assumes ok: "runners_ok c fds" and size: "srun_size c < 32768"
    and r: "sr_n_sockets r = 0" "sr_max_sockets r = 32" "sr_session r = int (next_index c)" "sr_host r \<noteq> None"
      "sr_is_default r \<longrightarrow> next_index c = 0"
  defines "c2 \<equiv> grow_srun_list (c\<lparr>srun_size := int (next_index c)\<rparr>)"
  defines "c' \<equiv> (put_srun (int (next_index c)) r c2)\<lparr>srun_size := int (next_index c) + 1\<rparr>"
  shows "runners_ok c' fds" "settings c' = settings c" "srun_size c' \<le> srun_size c + 1"
    "lineup c' = roster c @ [runner_of r]" "\<not> sr_is_default r \<Longrightarrow> roster c' = lineup c'"
    "get_srun c' (int (next_index c)) = Inr r"
    "put_srun (int (next_index c)) s c' = (put_srun (int (next_index c)) s c2)\<lparr>srun_size := int (next_index c) + 1\<rparr>"
proof -
  let ?n = "next_index c"
  have c: "config_ok c" "pools_ok (srun_list c) fds" "sessions_ok c" using ok by (simp_all add: runners_ok_def)
  note n = next_index_bounds [OF c(1)]
  have c1: "config_ok (c\<lparr>srun_size := int ?n\<rparr>)" "pools_ok (srun_list (c\<lparr>srun_size := int ?n\<rparr>)) fds"
    using c n(1) by (auto simp: config_ok_def)
  note g = grow_srun_list_ok [OF c1, folded c2_def]
  have len: "?n < length (srun_list c2)" using g(1,3,4) by (simp add: config_ok_def)
  have l: "srun_list c' = (srun_list c2)[?n := r]" "srun_size c' = int ?n + 1" "srun_capacity c' = srun_capacity c2"
    by (simp_all add: c'_def)
  have nth: "srun_list c' ! j = (if j = ?n then r else srun_list c ! j)" if "j \<le> ?n" for j
    using that len g(5) [of j] n(2) l(1) by (auto simp: nth_list_update)
  have "config_ok c'" using g(1,3,4) l n(1) size by (simp add: config_ok_def)
  moreover have "pools_ok (srun_list c') fds"
    unfolding l(1) by (rule pools_ok_shrink [OF g(2) len]) (use r in \<open>auto simp: srun_ok_def SOCKETS_LENGTH_def sockets_of_def\<close>)
  moreover have "sessions_ok c'"
    using c(3) n(3) nth r(3) l(2) by (auto simp: sessions_ok_def used_size_def nat_add_distrib)
  ultimately show "runners_ok c' fds" by (simp add: runners_ok_def)
  show "settings c' = settings c" by (simp add: c'_def c2_def settings_def put_srun_def grow_srun_list_def Let_def)
  show "srun_size c' \<le> srun_size c + 1" using n(1) l(2) by simp
  show "get_srun c' (int ?n) = Inr r" using len by (simp add: c'_def)
  show "put_srun (int ?n) s c' = (put_srun (int ?n) s c2)\<lparr>srun_size := int ?n + 1\<rparr>" by (simp add: c'_def put_srun_def)
  have "take (Suc ?n) (srun_list c') = take ?n (srun_list c') @ [r]"
    using len l(1) by (simp add: take_Suc_conv_app_nth)
  moreover have "take ?n (srun_list c') = take ?n (srun_list c)"
  proof (rule take_nth_eq)
    show "srun_list c' ! j = srun_list c ! j" if "j < ?n" for j using nth [of j] that by simp
  qed (use len l(1) n(2) in auto)
  ultimately show "lineup c' = roster c @ [runner_of r]" by (simp add: lineup_def roster_def l(2) nat_add_distrib)
  show "roster c' = lineup c'" if "\<not> sr_is_default r"
  proof -
    have "next_index c' = Suc ?n" using that r(4) l(2) nth [of ?n] by (auto simp: next_index_def nat_add_distrib)
    then show ?thesis by (simp add: lineup_def roster_def l(2) nat_add_distrib)
  qed
qed

lemma runner_refused:
  assumes ok: "runners_ok c fds"
  defines "c2 \<equiv> grow_srun_list (c\<lparr>srun_size := int (next_index c)\<rparr>)"
  shows "runners_ok (c2\<lparr>c_error := e\<rparr>) fds" "settings (c2\<lparr>c_error := e\<rparr>) = settings c"
    "srun_size (c2\<lparr>c_error := e\<rparr>) \<le> srun_size c" "roster (c2\<lparr>c_error := e\<rparr>) = roster c"
    "lineup (c2\<lparr>c_error := e\<rparr>) = roster c"
proof -
  let ?n = "next_index c"
  have c: "config_ok c" "pools_ok (srun_list c) fds" "sessions_ok c" using ok by (simp_all add: runners_ok_def)
  note n = next_index_bounds [OF c(1)]
  have c1: "config_ok (c\<lparr>srun_size := int ?n\<rparr>)" "pools_ok (srun_list (c\<lparr>srun_size := int ?n\<rparr>)) fds"
    using c n(1) by (auto simp: config_ok_def)
  note g = grow_srun_list_ok [OF c1, folded c2_def]
  have len: "0 < length (srun_list c)" using c(1) by (auto simp: config_ok_def)
  have nth: "srun_list c2 ! j = srun_list c ! j" if "j < length (srun_list c)" for j using g(5) that by simp
  have "used_size c2 \<le> used_size c" "used_size c \<le> length (srun_list c)"
    using n(1) g(3) c(1) len by (auto simp: used_size_def config_ok_def)
  then have "sessions_ok c2" using c(3) nth by (simp add: sessions_ok_def)
  then show "runners_ok (c2\<lparr>c_error := e\<rparr>) fds"
    using g(1,2) by (simp add: runners_ok_def config_ok_def sessions_ok_def used_size_def)
  show "settings (c2\<lparr>c_error := e\<rparr>) = settings c"
    by (simp add: c2_def settings_def grow_srun_list_def Let_def)
  show "srun_size (c2\<lparr>c_error := e\<rparr>) \<le> srun_size c" using g(3) n(1) by simp
  have "next_index (c2\<lparr>c_error := e\<rparr>) = ?n"
    using g(3) nth [OF len] by (auto simp: next_index_def)
  moreover have "take ?n (srun_list c2) = take ?n (srun_list c)"
  proof (rule take_nth_eq)
    show "?n \<le> length (srun_list c2)" using g(1,3,4) by (simp add: config_ok_def)
    show "?n \<le> length (srun_list c)" by (rule n(2))
    show "srun_list c2 ! j = srun_list c ! j" if "j < ?n" for j using nth that n(2) by simp
  qed
  ultimately show "roster (c2\<lparr>c_error := e\<rparr>) = roster c" "lineup (c2\<lparr>c_error := e\<rparr>) = roster c"
    using g(3) by (simp_all add: roster_def lineup_def)
qed

lemma set_times_simps [simp]:
  "sr_n_sockets (set_times x y z r) = sr_n_sockets r" "sr_max_sockets (set_times x y z r) = sr_max_sockets r"
  "sr_session (set_times x y z r) = sr_session r" "sr_host (set_times x y z r) = sr_host r"
  "sr_is_default (set_times x y z r) = sr_is_default r"
  "runner_of (set_times x y z r) = (sr_hostname r, sr_port r, sr_is_backup r,
     (case x of Some v \<Rightarrow> atoi v | None \<Rightarrow> sr_connect_timeout r),
     (case y of Some v \<Rightarrow> at_least_5 (atoi v) | None \<Rightarrow> sr_live_time r),
     (case z of Some v \<Rightarrow> at_least_5 (atoi v) | None \<Rightarrow> sr_dead_time r))"
  by (simp_all add: set_times_def Let_def runner_of_def split: option.split)

lemma entry_short: "short ts \<Longrightarrow> entry is_default key other ts = Some x \<Longrightarrow> length x \<le> 500"
  using short_lookup by (auto simp: entry_def nonempty_def split: if_splits)

lemma add_runner_ok:
  assumes ok: "runners_ok c fds" and size: "srun_size c < 32768" and sh: "short ts"
  shows "returns (\<lambda>c'. runners_ok c' fds \<and> settings c' = settings c \<and> srun_size c' \<le> srun_size c + 1 \<and>
      lineup c' = roster c @ resolved resolve [described is_backup is_default ts] \<and> (\<not> is_default \<longrightarrow> roster c' = lineup c'))
    (add_runner resolve is_backup is_default ts c)"
proof -
  have c: "config_ok c" "pools_ok (srun_list c) fds" using ok by (simp_all add: runners_ok_def)
  let ?n = "next_index c" let ?c2 = "grow_srun_list (c\<lparr>srun_size := int ?n\<rparr>)"
  obtain port where port: "port = (case entry is_default ''srun-port'' ''port'' ts of Some v \<Rightarrow> atoi v | None \<Rightarrow> 6802)" by simp
  obtain host where host: "host = (case entry is_default ''srun-host'' ''host'' ts of Some v \<Rightarrow> v | None \<Rightarrow> ''localhost'')" by simp
  have hl: "length host \<le> 500" using entry_short [OF sh] host by (auto split: option.splits)
  have d: "fst (described is_backup is_default ts) = host" by (simp add: described_def host Let_def)
  note run = add_runner_def [of resolve is_backup is_default ts c, folded port host, unfolded Let_def add_host_eq [OF c]]
  show ?thesis
  proof (cases "resolve host")
    case None
    then have "resolved resolve [described is_backup is_default ts] = []" using d by (simp add: resolved_def)
    moreover have "add_runner resolve is_backup is_default ts c = Inr (?c2\<lparr>c_error := Some (''CSE cannot find host '' @ host @ [CHR 0x0A])\<rparr>)"
      using None hl by (simp add: run cse_error_def)
    ultimately show ?thesis using runner_refused [OF ok] by simp
  next
    case (Some a)
    let ?r = "placed_runner host a port is_backup is_default ?n (srun_list ?c2 ! ?n)"
    let ?s = "set_times (nonempty (lookup ''connect-timeout'' ts)) (nonempty (lookup ''live-time'' ts)) (nonempty (lookup ''dead-time'' ts)) ?r"
    have r: "sr_n_sockets ?r = 0" "sr_max_sockets ?r = 32" "sr_session ?r = int ?n" "sr_host ?r \<noteq> None"
      "sr_is_default ?r \<longrightarrow> ?n = 0" by (simp_all add: placed_runner_def)
    have s: "sr_n_sockets ?s = 0" "sr_max_sockets ?s = 32" "sr_session ?s = int ?n" "sr_host ?s \<noteq> None"
      "sr_is_default ?s \<longrightarrow> ?n = 0" using r by simp_all
    note R = runner_placed [OF ok size r]
    note S = runner_placed [OF ok size s]
    have "runner_of ?s = snd (described is_backup is_default ts)"
      unfolding described_def Let_def host [symmetric] port [symmetric]
      by (simp add: placed_runner_def CONNECT_TIMEOUT_def LIVE_TIME_def DEAD_TIME_def split: option.split)
    then have res: "resolved resolve [described is_backup is_default ts] = [runner_of ?s]" using d Some by (simp add: resolved_def)
    have nd: "\<not> is_default \<Longrightarrow> \<not> sr_is_default ?s" by (simp add: placed_runner_def)
    have "add_runner resolve is_backup is_default ts c = Inr ((put_srun (int ?n) ?s ?c2)\<lparr>srun_size := int ?n + 1\<rparr>)"
      unfolding run using Some R(6) R(7) [of ?s] by simp
    then show ?thesis unfolding res using S(1-4) S(5) [OF nd] by (simp del: set_times_simps)
  qed
qed

lemma add_runners_ok:
  assumes "runners_ok c fds" "srun_size c + int (length us) \<le> 32768" "\<forall>t \<in> set us. short (tree_kids t)"
  shows "returns (\<lambda>c'. runners_ok c' fds \<and> settings c' = settings c \<and> srun_size c' \<le> srun_size c + int (length us) \<and>
      roster c' = roster c @ resolved resolve (map (\<lambda>t. described is_backup False (tree_kids t)) us) \<and>
      (us \<noteq> [] \<or> lineup c = roster c \<longrightarrow> lineup c' = roster c'))
    (add_each (\<lambda>t. add_runner resolve is_backup False (tree_kids t)) us c)"
  using assms
proof (induction us arbitrary: c)
  case Nil
  then show ?case by (simp add: resolved_def)
next
  case (Cons t us)
  have t: "srun_size c < 32768" "short (tree_kids t)" using Cons.prems(2,3) by simp_all
  show ?case unfolding add_each.simps
  proof (rule returns_bindI [OF add_runner_ok [OF Cons.prems(1) t, where is_default = False]])
    fix c1 assume c1: "runners_ok c1 fds \<and> settings c1 = settings c \<and> srun_size c1 \<le> srun_size c + 1 \<and>
      lineup c1 = roster c @ resolved resolve [described is_backup False (tree_kids t)] \<and> (\<not> False \<longrightarrow> roster c1 = lineup c1)"
    have "returns (\<lambda>c'. runners_ok c' fds \<and> settings c' = settings c1 \<and> srun_size c' \<le> srun_size c1 + int (length us) \<and>
        roster c' = roster c1 @ resolved resolve (map (\<lambda>t. described is_backup False (tree_kids t)) us) \<and>
        (us \<noteq> [] \<or> lineup c1 = roster c1 \<longrightarrow> lineup c' = roster c'))
      (add_each (\<lambda>t. add_runner resolve is_backup False (tree_kids t)) us c1)"
      by (rule Cons.IH) (use c1 Cons.prems(2,3) in auto)
    then show "returns (\<lambda>c'. runners_ok c' fds \<and> settings c' = settings c \<and> srun_size c' \<le> srun_size c + int (length (t # us)) \<and>
        roster c' = roster c @ resolved resolve (map (\<lambda>t. described is_backup False (tree_kids t)) (t # us)) \<and>
        (t # us \<noteq> [] \<or> lineup c = roster c \<longrightarrow> lineup c' = roster c'))
      (add_each (\<lambda>t. add_runner resolve is_backup False (tree_kids t)) us c1)"
      by (rule returns_mono) (use c1 in \<open>auto simp: resolved_def\<close>)
  qed
qed

subsection \<open>What a file configures\<close>

text \<open>The runners that a server's element describes, in the order of the load balancer's list.\<close>

definition runner_entries :: "tree list \<Rightarrow> (string \<times> runner) list" where
  "runner_entries ts =
     (let entries = map (\<lambda>t. described False False (tree_kids t)) (with_key ''srun'' ts) @
                    map (\<lambda>t. described True False (tree_kids t)) (with_key ''srun-backup'' ts)
      in if entries = [] then [described False True ts] else entries)"

lemma resolved_append: "resolved resolve (ds @ es) = resolved resolve ds @ resolved resolve es"
  by (simp add: resolved_def)

lemma with_key_length: "a \<noteq> b \<Longrightarrow> length (with_key a ts) + length (with_key b ts) \<le> length ts"
  by (induction ts) (auto simp: with_key_def)

lemma short_with_key: "short ts \<Longrightarrow> \<forall>t \<in> set (with_key key ts). short (tree_kids t)"
  using short_set by (auto simp: with_key_def)

lemma read_hosts_ok:
  assumes ok: "runners_ok c fds" and size: "srun_size c + int (length ts) < 32768" and sh: "short ts"
  shows "returns (\<lambda>c'. runners_ok c' fds \<and> settings c' = settings c \<and>
      lineup c' = roster c @ resolved resolve (runner_entries ts))
    (read_hosts resolve ts c)"
proof -
  let ?d = "\<lambda>b us. map (\<lambda>t. described b False (tree_kids t)) us"
  let ?run = "with_key ''srun'' ts" let ?backups = "with_key ''srun-backup'' ts"
  have len: "length ?run + length ?backups \<le> length ts" by (rule with_key_length) simp
  show ?thesis unfolding read_hosts_def
  proof (rule returns_bindI [OF add_runners_ok [OF ok _ short_with_key [OF sh], where is_backup = False and resolve = resolve]])
    show "srun_size c + int (length ?run) \<le> 32768" using size len by simp
    fix c1 assume c1: "runners_ok c1 fds \<and> settings c1 = settings c \<and> srun_size c1 \<le> srun_size c + int (length ?run) \<and>
      roster c1 = roster c @ resolved resolve (?d False ?run) \<and> (?run \<noteq> [] \<or> lineup c = roster c \<longrightarrow> lineup c1 = roster c1)"
    then have ok1: "runners_ok c1 fds" by simp
    show "returns (\<lambda>c'. runners_ok c' fds \<and> settings c' = settings c \<and>
        lineup c' = roster c @ resolved resolve (runner_entries ts))
      (bindR (add_each (\<lambda>t. add_runner resolve True False (tree_kids t)) ?backups c1) (\<lambda>c.
         if ?run @ ?backups = [] then add_runner resolve False True ts c else Inr c))"
    proof (rule returns_bindI [OF add_runners_ok [OF ok1 _ short_with_key [OF sh], where is_backup = True and resolve = resolve]])
      show "srun_size c1 + int (length ?backups) \<le> 32768" using c1 size len by simp
      fix c2 assume c2: "runners_ok c2 fds \<and> settings c2 = settings c1 \<and> srun_size c2 \<le> srun_size c1 + int (length ?backups) \<and>
        roster c2 = roster c1 @ resolved resolve (?d True ?backups) \<and> (?backups \<noteq> [] \<or> lineup c1 = roster c1 \<longrightarrow> lineup c2 = roster c2)"
      show "returns (\<lambda>c'. runners_ok c' fds \<and> settings c' = settings c \<and>
          lineup c' = roster c @ resolved resolve (runner_entries ts))
        (if ?run @ ?backups = [] then add_runner resolve False True ts c2 else Inr c2)"
      proof (cases "?run @ ?backups = []")
        case True
        then have none: "?run = []" "?backups = []" by simp_all
        have sz: "srun_size c2 < 32768" using c1 c2 none size by simp
        have ok2: "runners_ok c2 fds" using c2 by simp
        show ?thesis unfolding if_P [OF True]
          by (rule returns_mono [OF add_runner_ok [OF ok2 sz sh]])
            (use c1 c2 none in \<open>auto simp: runner_entries_def resolved_def\<close>)
      next
        case False
        show ?thesis unfolding if_not_P [OF False] using c1 c2 False by (auto simp: runner_entries_def resolved_append)
      qed
    qed
  qed
qed

definition mapping_location :: "string \<times> string \<times> string \<Rightarrow> location" where
  "mapping_location m = (case m of (host, pre, pattern) \<Rightarrow> location_of host pre pattern)"

lemma mappings_added:
  assumes "fits ms"
  shows "returns (\<lambda>c'. set (locations c') = set (locations c) \<union> mapping_location ` set ms \<and> (\<exists>locs. c' = c\<lparr>locations := locs\<rparr>))
    (add_each add_mapping ms c)"
  using assms
proof (induction ms arbitrary: c)
  case Nil
  have "\<exists>locs. c = c\<lparr>locations := locs\<rparr>" by (rule exI [of _ "locations c"]) simp
  then show ?case by simp
next
  case (Cons m ms)
  obtain host pre pattern where m: "m = (host, pre, pattern)" by (cases m)
  let ?c = "add_location (location_of host pre pattern) c"
  have step: "add_mapping m c = Inr ?c" using Cons.prems by (simp add: fits_def m add_mapping_def add_location_eq)
  have unchanged: "\<exists>locs. ?c = c\<lparr>locations := locs\<rparr>" by (auto simp: add_location_def cse_add_unique_location_def intro: exI [of _ "locations c"])
  then obtain locs where locs: "?c = c\<lparr>locations := locs\<rparr>" ..
  have set: "set locs = insert (location_of host pre pattern) (set (locations c))"
    using set_add_location [of "location_of host pre pattern" c] unfolding locs by simp
  show ?case unfolding add_each.simps step bindR_simps
    by (rule returns_mono [OF Cons.IH [of ?c]]) (use Cons.prems locs set in \<open>auto simp: fits_def mapping_location_def m\<close>)
qed

lemma web_kids_short: "read_as files docs handles trees \<Longrightarrow> web_kids trees dir = Some us \<Longrightarrow> short us"
proof -
  assume r: "read_as files docs handles trees" and us: "web_kids trees dir = Some us"
  then obtain u ts where "trees (web_xml dir) = u # ts" "us = tree_kids u" by (auto simp: web_kids_def split: list.splits)
  moreover have "short (trees (web_xml dir))" using r unfolding read_as_def by blast
  ultimately show "short us" by (simp add: short_Cons)
qed

lemma app_fits: "read_as files docs handles trees \<Longrightarrow> short ts \<Longrightarrow> length pre \<le> 500 \<Longrightarrow> fits (app_mappings trees host pre dir ts)"
  using web_app_fits web_kids_short by (auto simp: app_mappings_def fits_def [of "[]"] split: option.split)

lemma fits_concat: "(\<And>x. x \<in> set xs \<Longrightarrow> fits (f x)) \<Longrightarrow> fits (concat (map f xs))"
  by (auto simp: fits_def)

lemma web_app_tree_fits: "read_as files docs handles trees \<Longrightarrow> short [t] \<Longrightarrow> fits (web_app_tree_mappings trees host dir t)"
  using app_fits by (auto simp: web_app_tree_mappings_def short_Cons fits_def [of "[]"] simp del: if_split split: if_split option.split)

lemma host_fits: "read_as files docs handles trees \<Longrightarrow> short [t] \<Longrightarrow> fits (host_mappings trees host dir t)"
  by (auto simp: host_mappings_def short_Cons intro!: app_fits fits_concat web_app_tree_fits dest: short_elem)

lemma host_tree_fits: "read_as files docs handles trees \<Longrightarrow> short [t] \<Longrightarrow> fits (host_tree_mappings trees dir t)"
  using host_fits by (auto simp: host_tree_mappings_def fits_def [of "[]"] simp del: if_split split: if_split option.split)

lemma server_fits: "read_as files docs handles trees \<Longrightarrow> short [t] \<Longrightarrow> fits (server_mappings trees home t)"
  using short_elem [of "tree_kids t"]
  by (auto simp: server_mappings_def intro!: host_fits fits_concat host_tree_fits simp: short_Cons [of t])

text \<open>The runners of a configuration do not depend on its other fields.\<close>

definition keeps_runners :: "config \<Rightarrow> config \<Rightarrow> bool" where
  "keeps_runners c c' \<longleftrightarrow> srun_list c' = srun_list c \<and> srun_size c' = srun_size c \<and> srun_capacity c' = srun_capacity c"

lemma keeps_runnersD:
  "keeps_runners c c' \<Longrightarrow> (runners_ok c' fds \<longleftrightarrow> runners_ok c fds) \<and> roster c' = roster c \<and> lineup c' = lineup c \<and> srun_size c' = srun_size c"
proof -
  assume c': "keeps_runners c c'"
  then have i: "next_index c' = next_index c" by (auto simp: keeps_runners_def next_index_def)
  show ?thesis using c'
    unfolding keeps_runners_def runners_ok_def config_ok_def sessions_ok_def used_size_def roster_def lineup_def i by simp
qed

lemma keeps_runners_simps [simp]:
  "keeps_runners c (c\<lparr>locations := locs\<rparr>)" "keeps_runners c (set_status ts c)" "keeps_runners c (c\<lparr>error_page := page\<rparr>)"
  "keeps_runners c (c\<lparr>resin_home := home, c_registry := root\<rparr>)"
  by (simp_all add: keeps_runners_def set_status_def)

lemma set_status_simps [simp]:
  "locations (set_status ts c) = locations c" "error_page (set_status ts c) = error_page c" "c_registry (set_status ts c) = c_registry c"
  by (simp_all add: set_status_def)

lemma mapping_location_ok: "location_ok (mapping_location m)"
  by (simp add: mapping_location_def location_of_ok split: prod.split)

definition status_disabled :: "tree list \<Rightarrow> bool" where
  "status_disabled ts \<longleftrightarrow> lookup ''caucho-status'' ts \<in> {Some ''false'', Some ''no''}"

lemma configure_ok:
  assumes ok: "runners_ok c fds" "table_ok c" and t: "server_tree ts = Some t" "short [t]" and web: "read_as files docs handles trees"
    and size: "srun_size c + int (length (tree_kids t)) < 32768"
  shows "returns (\<lambda>c'. runners_ok c' fds \<and> table_ok c' \<and>
      set (locations c') = set (locations c) \<union> mapping_location ` set (server_mappings trees home t) \<and>
      lineup c' = roster c @ resolved resolve (runner_entries (tree_kids t)) \<and>
      error_page c' = error_page_of (tree_kids t) (error_page c) \<and>
      disable_caucho_status c' = (disable_caucho_status c \<or> status_disabled (tree_kids t)) \<and> c_registry c' = c_registry c)
    (configure resolve trees home ts c)"
proof -
  let ?kids = "tree_kids t" let ?ms = "server_mappings trees home t"
  have sh: "short ?kids" using t(2) by (simp add: short_Cons)
  have ms: "fits ?ms" by (rule server_fits [OF web t(2)])
  obtain locs where m: "add_each add_mapping ?ms (set_status ?kids c) = Inr ((set_status ?kids c)\<lparr>locations := locs\<rparr>)"
    and locs: "set locs = set (locations c) \<union> mapping_location ` set ?ms"
    using mappings_added [OF ms, of "set_status ?kids c"] by (auto simp: returns_iff)
  let ?c1 = "(set_status ?kids c)\<lparr>locations := locs\<rparr>"
  have c1: "keeps_runners c ?c1" by (simp add: keeps_runners_def set_status_def)
  note same = keeps_runnersD [OF c1]
  have "srun_size ?c1 + int (length ?kids) < 32768" using same size by simp
  from read_hosts_ok [OF _ this sh, of fds resolve] same ok(1)
  obtain c2 where c2: "read_hosts resolve ?kids ?c1 = Inr c2" "runners_ok c2 fds" "settings c2 = settings ?c1"
    "lineup c2 = roster c @ resolved resolve (runner_entries ?kids)" by (auto simp: returns_iff)
  let ?c3 = "c2\<lparr>error_page := error_page_of ?kids (error_page c2)\<rparr>"
  have "configure resolve trees home ts c = Inr ?c3" unfolding configure_def t(1) by (simp add: m c2(1))
  moreover have "runners_ok ?c3 fds \<and> lineup ?c3 = lineup c2"
    using keeps_runnersD [OF keeps_runners_simps(3) [of c2]] c2(2) by blast
  moreover have "table_ok ?c3"
    using c2(3) locs ok(2) mapping_location_ok by (auto simp: table_ok_def settings_def)
  ultimately show ?thesis using c2(3,4) locs by (auto simp: settings_def set_status_def status_disabled_def)
qed

text \<open>From the text of the file.\<close>

lemma configuration_ok:
  assumes "read_as files docs handles trees" "docs path \<noteq> None" "short (trees path)"
    and "c_path c = Some path" "resin_home c = None" "length path \<le> 1000"
    and "runners_ok c fds" "table_ok c" "server_tree (trees path) = Some t"
    and "srun_size c + int (length (tree_kids t)) < 32768"
  obtains h' c' where "cse_init_config junk files handles resolve (h, c) = Inr (h', c')"
    "runners_ok c' fds" "table_ok c'" "lineup c' = roster c @ resolved resolve (runner_entries (tree_kids t))"
    "set (locations c') = set (locations c) \<union> mapping_location ` set (server_mappings trees (home_of path) t)"
    "error_page c' = error_page_of (tree_kids t) (error_page c)"
    "disable_caucho_status c' = (disable_caucho_status c \<or> status_disabled (tree_kids t))"
proof -
  let ?c = "c\<lparr>resin_home := Some (home_of path), c_registry := Some (length h)\<rparr>"
  note same = keeps_runnersD [OF keeps_runners_simps(4) [of c "Some (length h)" "Some (home_of path)"]]
  have ok: "runners_ok ?c fds" "table_ok ?c" using same assms(7,8) by (simp_all add: table_ok_def)
  have size: "srun_size ?c + int (length (tree_kids t)) < 32768" using same assms(10) by simp
  obtain h' where h': "cse_init_config junk files handles resolve (h, c) =
      bindR (configure resolve trees (home_of path) (trees path) ?c) (\<lambda>c'. Inr (h', c'))"
    using init_config_document [OF assms(1-6)] by blast
  obtain c' where c': "configure resolve trees (home_of path) (trees path) ?c = Inr c'"
    "runners_ok c' fds" "table_ok c'" "lineup c' = roster ?c @ resolved resolve (runner_entries (tree_kids t))"
    "set (locations c') = set (locations ?c) \<union> mapping_location ` set (server_mappings trees (home_of path) t)"
    "error_page c' = error_page_of (tree_kids t) (error_page ?c)"
    "disable_caucho_status c' = (disable_caucho_status ?c \<or> status_disabled (tree_kids t))"
    using configure_ok [OF ok assms(9) short_server [OF assms(3,9)] assms(1) size, where resolve = resolve and home = "home_of path"]
    unfolding returns_iff by blast
  show thesis by (rule that [of h' c']) (use c' h' same in simp_all)
qed

lemma table_decides: "table_ok c \<Longrightarrow> cse_match_location (locations c) rh rp uri = Inr (\<exists>loc \<in> set (locations c). location_matches loc rh rp uri)"
  by (rule cse_match_location_ok) (simp add: table_ok_def)

text \<open>
  C5: from the file to the load balancer and the dispatcher. When a configuration file, each
  file that is included and each \<open>web.xml\<close> of a web-app are documents that the parser reads, the
  first with a server element in it, and values are short, reading the configuration does not fault. It keeps the invariants of the runners and of the location
  table. The runners are the ones configured before followed by the \<open>srun\<close> elements in document
  order and then the \<open>srun-backup\<close> elements, each without those whose host cannot be resolved;
  the built-in default is used only when there are neither. A request is
  matched exactly when it was before or a mapping of the file, or of a web-app's \<open>web.xml\<close>,
  matches it, with the host and web-app the mapping is in.
\<close>

theorem configuration_read:
  assumes "read_as files docs handles trees" "docs path \<noteq> None" "short (trees path)"
    and "c_path c = Some path" "resin_home c = None" "length path \<le> 1000"
    and "runners_ok c fds" "table_ok c" "server_tree (trees path) = Some t"
    and "srun_size c + int (length (tree_kids t)) < 32768"
  shows "returns (\<lambda>(h', c'). runners_ok c' fds \<and> table_ok c' \<and>
      lineup c' = roster c @ resolved resolve (runner_entries (tree_kids t)) \<and>
      (\<forall>rh rp uri. cse_match_location (locations c') rh rp uri =
         Inr ((\<exists>loc \<in> set (locations c). location_matches loc rh rp uri) \<or>
              (\<exists>m \<in> set (server_mappings trees (home_of path) t). location_matches (mapping_location m) rh rp uri))) \<and>
      error_page c' = error_page_of (tree_kids t) (error_page c) \<and>
      disable_caucho_status c' = (disable_caucho_status c \<or> status_disabled (tree_kids t)))
    (cse_init_config junk files handles resolve (h, c))"
proof -
  obtain h' c' where c': "cse_init_config junk files handles resolve (h, c) = Inr (h', c')"
    "runners_ok c' fds" "table_ok c'" "lineup c' = roster c @ resolved resolve (runner_entries (tree_kids t))"
    "set (locations c') = set (locations c) \<union> mapping_location ` set (server_mappings trees (home_of path) t)"
    "error_page c' = error_page_of (tree_kids t) (error_page c)"
    "disable_caucho_status c' = (disable_caucho_status c \<or> status_disabled (tree_kids t))"
    by (rule configuration_ok [OF assms])
  then show ?thesis by (auto simp: table_decides bex_Un)
qed

text \<open>A machine with the sample files, on which the include and the \<open>web.xml\<close> can be opened.\<close>

lemma sample_read_as: "read_as sample_files sample_docs 2 (file_trees sample_docs 1)"
proof -
  have n: "web_xml dir \<noteq> f" if "last f \<noteq> CHR ''l''" for dir f
    using that by (auto simp: web_xml_def)
  have m: "web_xml dir = ''./doc/shop'' @ ''/WEB-INF/web.xml'' \<longleftrightarrow> dir = ''./doc/shop''" for dir
    by (simp only: web_xml_def append_same_eq)
  have d: "sample_docs (web_xml dir) = (if dir = ''./doc/shop'' then Some ([CHR 0x0A], sample_web_xml) else None)" for dir
    unfolding sample_docs_def m using n [of "''conf/resin.conf''" dir] n [of "''conf/apps.conf''" dir] by simp
  have s: "short (snd (denote I True sample_web_xml))" for I by (simp add: sample_web_xml_def Let_def settle_def)
  have "short (file_trees sample_docs (Suc 0) (web_xml dir))" for dir using s by (simp add: d)
  then show ?thesis using sample_docs_ok by (simp add: read_as_def sample_files_def)
qed

lemma sample_server:
  obtains t where "server_tree (file_trees sample_docs 1 ''conf/resin.conf'') = Some t"
    "tree_kids t = [Node ''app-dir'' (Some ''doc'') [],
       Node ''srun'' None [Node ''srun-host'' (Some ''localhost'') [], Node ''srun-port'' (Some ''6802'') []],
       Node ''web-app'' (Some ''/shop'') [Node ''servlet-mapping'' None [Node ''url-pattern'' (Some ''*.jsp'') []]],
       Node ''servlet-mapping'' None [Node ''url-pattern'' (Some ''/servlet/*'') []]]"
    "t = Node ''http-server'' None (tree_kids t)"
  unfolding sample_trees by (simp add: server_tree_def tree_link_def from_key_def)

lemma sample_short: "short (file_trees sample_docs 1 ''conf/resin.conf'')"
  unfolding sample_trees by simp

lemma sample_runners:
  "resolved (\<lambda>_. Some 0x7F000001) (runner_entries (tree_kids (the (server_tree (file_trees sample_docs 1 ''conf/resin.conf''))))) =
    [(Some ''localhost'', 6802, False, 2, 10, 120)]"
  unfolding sample_trees by code_simp

lemma sample_mappings:
  "set (server_mappings (file_trees sample_docs 1) (home_of ''conf/resin.conf'')
      (the (server_tree (file_trees sample_docs 1 ''conf/resin.conf'')))) =
    {([], [], ''/WEB-INF/*''), ([], [], ''/servlet/*''), ([], ''/shop'', ''/WEB-INF/*''), ([], ''/shop'', ''*.jsp''), ([], ''/shop'', ''/cart'')}"
  unfolding sample_trees by code_simp

lemma initial_runners: "runners_ok cse_create_server_config {}" "roster cse_create_server_config = []"
proof -
  have n: "next_index cse_create_server_config = 0"
    by (simp add: next_index_def initial_srun_list zero_srun_def) (simp add: cse_create_server_config_def Let_def)
  show "runners_ok cse_create_server_config {}"
    using initial_config(1-3) by (simp add: runners_ok_def)
  show "roster cse_create_server_config = []" by (simp add: roster_def n)
qed

theorem configuration_read_witness:
  "returns (\<lambda>(h', c'). lineup c' = [(Some ''localhost'', 6802, False, 2, 10, 120)] \<and>
      (\<forall>rh rp uri. cse_match_location (locations c') rh rp uri =
         Inr (\<exists>m \<in> {([], [], ''/WEB-INF/*''), ([], [], ''/servlet/*''), ([], ''/shop'', ''/WEB-INF/*''), ([], ''/shop'', ''*.jsp''),
             ([], ''/shop'', ''/cart'')}. location_matches (mapping_location m) rh rp uri)))
      (cse_init_config (\<lambda>_. NUL) sample_files 2 (\<lambda>_. Some 0x7F000001) ([], cse_create_server_config\<lparr>c_path := Some ''conf/resin.conf''\<rparr>))"
proof -
  let ?c = "cse_create_server_config\<lparr>c_path := Some ''conf/resin.conf''\<rparr>"
  obtain t where t: "server_tree (file_trees sample_docs 1 ''conf/resin.conf'') = Some t" "length (tree_kids t) = 4"
    by (rule sample_server) simp
  have c: "c_path ?c = Some ''conf/resin.conf''" "resin_home ?c = None" "runners_ok ?c {}" "table_ok ?c" "locations ?c = []"
    "srun_size ?c = 1" "roster ?c = []"
    using keeps_runnersD [of cse_create_server_config ?c] initial_runners
    by (simp_all add: cse_create_server_config_def Let_def keeps_runners_def table_ok_def)
  have d: "sample_docs ''conf/resin.conf'' \<noteq> None" using sample_paths(1) by simp
  have s: "srun_size ?c + int (length (tree_kids t)) < 32768" using t(2) c(6) by simp
  note m = sample_mappings [unfolded t(1) option.sel] sample_runners [unfolded t(1) option.sel]
  note read = configuration_read [OF sample_read_as d sample_short c(1,2) _ c(3,4) t(1) s, unfolded m(1)]
  show ?thesis by (rule returns_mono [OF read]) (use c m(2) in auto)
qed

end
