(* ===== verification/Cse_Child.thy ===== *)
theory Cse_Child
  imports Cse_Relay Cse_Configured
begin

text \<open>
  The life of a server process. Apache configures the module once, forks its children, and each
  child serves one request after the other until it exits. \<open>alive\<close> is the relation of a
  configured process to the states it can reach; its rules are the module's entry points, and one
  for everything that happens on the network between them. The invariants of the pools and the
  ownership of descriptors, shown of one operation in the other theories, are carried along it
  by rule induction, from the configuration file to the exit of the child.
\<close>

subsection \<open>Runners out of the search's reach\<close>

text \<open>\<open>beyond n\<close>: the entries of the runner array from index \<open>n\<close> on.\<close>

definition beyond :: "nat \<Rightarrow> config \<Rightarrow> srun list" where
  "beyond n c = drop n (srun_list c)"

lemma beyond_put [simp]: "k < n \<Longrightarrow> beyond n (put_srun (int k) r c) = beyond n c"
  by (simp add: beyond_def)

lemma beyond_put_nat: "nat k < n \<Longrightarrow> beyond n (put_srun k r c) = beyond n c"
  by (simp add: beyond_def put_srun_def)

text \<open>Runs that leave them alone; the rules follow the way the search is composed.\<close>

definition spares :: "nat \<Rightarrow> config \<times> io \<Rightarrow> (bool \<times> config \<times> io) res \<Rightarrow> bool" where
  "spares n x m \<longleftrightarrow> unless_fault (\<lambda>(ok, y). beyond n (fst y) = beyond n (fst x)) m"

lemma spares_Inl [simp]: "spares n x (Inl e)"
  by (simp add: spares_def unless_fault_def)

lemma spares_Inr [simp]: "spares n x (Inr (ok, y)) \<longleftrightarrow> beyond n (fst y) = beyond n (fst x)"
  by (simp add: spares_def)

lemma spares_seq [intro]:
  assumes "spares n x m" "\<And>ok y. beyond n (fst y) = beyond n (fst x) \<Longrightarrow> spares n x (f ok y)"
  shows "spares n x (bindR m (\<lambda>(ok, y). f ok y))"
proof (cases m)
  case (Inr r)
  obtain ok y where r: "r = (ok, y)" by (rule prod.exhaust)
  have "beyond n (fst y) = beyond n (fst x)" using assms(1) by (simp add: Inr r)
  from assms(2) [OF this] show ?thesis by (simp add: Inr r)
qed simp

lemma spares_get:
  assumes "\<And>r. spares n x (f r)"
  shows "spares n x (bindR (get_srun c k) f)"
  using assms by (simp add: bindR_def split: sum.split)

lemma spares_start: "beyond n c = beyond n (fst x) \<Longrightarrow> spares n (c, y) m \<Longrightarrow> spares n x m"
  by (simp add: spares_def)

lemma reuse_socket_spares:
  assumes "nat k < n"
  shows "spares n x (cse_reuse_socket k t pool x)"
proof -
  obtain c s w where x: "x = (c, s, w)" by (rule prod_cases3)
  show ?thesis unfolding x cse_reuse_socket_def prod.case
    by (rule spares_get)
      (auto simp: spares_def unless_fault_def bindR_def cse_reuse_def Let_def beyond_put_nat [OF assms] split: sum.split)
qed

lemma open_and_mark_spares:
  assumes "nat k < n"
  shows "spares n x (open_and_mark k t pool wait x)"
proof -
  obtain c s w where x: "x = (c, s, w)" by (rule prod_cases3)
  have "spares n (c, s, w) (cse_open k pool wait (c, s, w))"
    unfolding cse_open_def prod.case
    by (rule spares_get) (simp add: Let_def beyond_put_nat [OF assms] split: prod.split)
  then show ?thesis unfolding x open_and_mark_def
  proof (rule spares_seq)
    fix ok and y :: "config \<times> io" assume "beyond n (fst y) = beyond n (fst (c, s, w))"
    then show "spares n (c, s, w) (if ok then bindR (opened k t y) (\<lambda>x. Inr (True, x)) else Inr (False, y))"
      by (cases y) (auto simp: opened_def spares_def unless_fault_def bindR_def beyond_put_nat [OF assms] split: sum.split)
  qed
qed

lemma reuse_loop_spares: "set ks \<subseteq> {..<n} \<Longrightarrow> spares n x (reuse_loop t pool (map int ks) x)"
proof (induction ks arbitrary: x)
  case (Cons k ks)
  have k: "nat (int k) < n" "set ks \<subseteq> {..<n}" using Cons.prems by auto
  note ih = Cons.IH [OF k(2)]
  show ?case unfolding list.map reuse_loop.simps
    by (rule spares_get) (auto intro!: spares_seq reuse_socket_spares [OF k(1)] intro!: spares_start [OF _ ih] simp: ih)
qed simp

lemma primary_loop_spares: "set ks \<subseteq> {..<n} \<Longrightarrow> spares n x (primary_loop session t pool (map int ks) x)"
proof (induction ks arbitrary: x)
  case (Cons k ks)
  have k: "nat (int k) < n" "set ks \<subseteq> {..<n}" using Cons.prems by auto
  note ih = Cons.IH [OF k(2)]
  show ?case unfolding list.map primary_loop.simps open_then_mark
    by (rule spares_get)
      (auto intro!: spares_seq spares_get reuse_socket_spares [OF k(1)] spares_start [OF _ open_and_mark_spares [OF k(1)]]
        intro!: spares_start [OF _ ih] simp: ih)
qed simp

lemma last_resort_loop_spares: "set ks \<subseteq> {..<n} \<Longrightarrow> spares n x (last_resort_loop t pool (map int ks) x)"
proof (induction ks arbitrary: x)
  case (Cons k ks)
  have k: "nat (int k) < n" "k < n" "set ks \<subseteq> {..<n}" using Cons.prems by auto
  note ih = Cons.IH [OF k(3)]
  show ?case unfolding list.map last_resort_loop.simps open_then_mark
    by (auto intro!: spares_seq spares_get reuse_socket_spares [OF k(1)] spares_start [OF _ open_and_mark_spares [OF k(1)]]
        intro!: spares_start [OF _ ih] simp: k(2))
qed simp

lemma search_spares:
  assumes "set ks \<subseteq> {..<n}"
  shows "spares n x (search session t pool ks x)"
  unfolding search_def
  by (auto intro!: spares_seq spares_start [OF _ primary_loop_spares [OF assms]] spares_start [OF _ last_resort_loop_spares [OF assms]]
      simp: reuse_loop_spares [OF assms] primary_loop_spares [OF assms])

lemma open_connection_beyond:
  assumes "config_ok c" "pools_ok (srun_list c) (set (open_fds w))" "stream_ok s"
    and "cse_open_connection session ip t rand pool g (c, s, w) = Inr (ok, g', y)"
  shows "beyond (used_size c) (fst y) = beyond (used_size c) c"
proof -
  obtain ks g1 s0 where e: "cse_open_connection session ip t rand pool g (c, s, w) =
      bindR (search session t pool ks (c, s0, w)) (\<lambda>(ok, c', s', w').
        Inr (ok, g1, c', s', if ok then cse_set_socket_cleanup (s_socket s') pool w' else w'))"
    and ks: "set ks = {..<used_size c}"
    by (rule cse_open_connection_search [OF assms(1-3)])
  obtain c' s' w' where "search session t pool ks (c, s0, w) = Inr (ok, c', s', w')" "fst y = c'"
    using assms(4) unfolding e by (auto simp: bindR_Inr_iff)
  then show ?thesis using search_spares [of ks "used_size c" "(c, s0, w)" session t pool] ks by (simp add: spares_def)
qed

lemma recycle_beyond:
  "cse_recycle (c, s, w) = Inr (c', y) \<Longrightarrow> s_srun s = Some k \<Longrightarrow> k < n \<Longrightarrow> beyond n c' = beyond n c"
  by (auto simp: cse_recycle_def Let_def bindR_Inr_iff split: if_split_asm)

lemma recycle_stream_ok:
  assumes "stream_ok s" "cse_recycle (c, s, w) = Inr (c', s', w')"
  shows "stream_ok s'"
proof -
  have close: "stream_ok s'" if e: "bindR (cse_write_packet (CHR ''X'') [] 0 (s, w)) (\<lambda>x. Inr (c, cse_close x)) = Inr (c', s', w')"
  proof -
    obtain s1 w1 where z: "cse_write_packet (CHR ''X'') [] 0 (s, w) = Inr (s1, w1)" "cse_close (s1, w1) = (s', w')"
      using e by (auto simp: bindR_Inr_iff)
    have "stream_ok s1" using safe_traffic.R_write_packet [OF z(1)] assms(1) by simp
    moreover have "s' = s1\<lparr>s_socket := -1\<rparr>" using arg_cong [OF z(2), of fst] by simp
    ultimately show ?thesis by (simp add: stream_ok_def)
  qed
  show ?thesis
  proof (cases "s_srun s")
    case None
    then show ?thesis using assms(2) close by (simp add: cse_recycle_def Let_def)
  next
    case (Some k)
    then obtain srun where g: "get_srun c (int k) = Inr srun" using assms(2) by (auto simp: cse_recycle_def Let_def bindR_Inr_iff)
    show ?thesis
    proof (cases "s_socket s \<ge> 0 \<and> update_count c = s_update_count s \<and> sr_n_sockets srun < sr_max_sockets srun")
      case True
      then have "s' = s\<lparr>s_socket := -1\<rparr>" using assms(2) Some g by (auto simp: cse_recycle_def Let_def bindR_Inr_iff)
      then show ?thesis using assms(1) by (simp add: stream_ok_def)
    next
      case False
      note e = assms(2) [unfolded cse_recycle_def prod.case Let_def Some option.case g bindR_simps if_not_P [OF False]]
      show ?thesis by (rule close [OF e])
    qed
  qed
qed

subsection \<open>Entry points\<close>

text \<open>What every entry point of a child keeps of the configuration \<open>c0\<close> and the world \<open>w0\<close> it starts in.\<close>

definition keeps :: "config \<Rightarrow> world \<Rightarrow> config \<Rightarrow> world \<Rightarrow> bool" where
  "keeps c0 w0 c w \<longleftrightarrow> same_runners c0 c \<and> pools_ok (srun_list c) (set (open_fds w)) \<and>
     unpooled c w \<subseteq> unpooled c0 w0 \<and> beyond (used_size c0) c = beyond (used_size c0) c0"

lemma same_runners_config: "same_runners c0 c \<Longrightarrow> (config_ok c \<longleftrightarrow> config_ok c0) \<and> used_size c = used_size c0"
  using same_runners_length [of c0 c] by (simp add: same_runners_def config_ok_def used_size_def)

lemma keeps_trans: "keeps a u b v \<Longrightarrow> keeps b v c w \<Longrightarrow> keeps a u c w"
  using same_runners_trans same_runners_config [of a b] by (auto simp: keeps_def)

lemma keeps_step:
  assumes "keeps a u b v" "config_ok b" "keeps b v c w"
  shows "keeps a u c w \<and> config_ok c"
  using keeps_trans [OF assms(1,3)] same_runners_config [of b c] assms(2,3) by (simp add: keeps_def)

lemma keeps_refl: "pools_ok (srun_list c) (set (open_fds w)) \<Longrightarrow> keeps c w c w"
  by (simp add: keeps_def)

lemma caucho_request_keeps:
  assumes "config_ok c" "pools_ok (srun_list c) (set (open_fds w))" "stream_ok s"
    and "caucho_request sub_req page rand pool a g c r (s, w) = Inr (status, g', c', r', s', w')"
  shows "keeps c w c' w'"
proof (cases "r_setup r = 0")
  case False
  then show ?thesis using assms(2,4) by (simp add: caucho_request_def keeps_refl)
next
  case True
  let ?r = "api SoftTimeout r"
  have same: "r_setup ?r = 0" using True by (simp add: api_def)
  have rel: "released c w (c', s', w')" using caucho_request_released [OF assms(1-3) True assms(4)] by simp
  obtain session where session: "get_session_index (r_headers_in ?r) (r_uri ?r) = Inr session"
    using True assms(4) by (auto simp: caucho_request_def Let_def bindR_Inr_iff)
  obtain ok g1 c1 s1 w1 where o: "cse_open_connection session (r_remote_ip ?r) (r_request_time ?r) rand pool g (c, s, w) =
      Inr (ok, g1, c1, s1, w1)"
    using True assms(4) session by (auto simp: caucho_request_def Let_def bindR_Inr_iff)
  have b: "beyond (used_size c) c1 = beyond (used_size c) c" using open_connection_beyond [OF assms(1-3) o] by simp
  have "beyond (used_size c) c' = beyond (used_size c) c1"
  proof (cases ok)
    case False
    then show ?thesis using True assms(4) session o by (auto simp: caucho_request_def Let_def bindR_Inr_iff)
  next
    case ok: True
    have "\<exists>k < used_size c. connected c (r_request_time ?r) pool k (c1, s1, w1)"
      using cse_open_connection_spec [OF assms(1-3), where session = session and ip = "r_remote_ip ?r" and t = "r_request_time ?r"
          and rand = rand and pool = pool and g = g] ok
      unfolding o by simp
    then obtain k where k: "k < used_size c" "s_srun s1 = Some k" by (auto simp: connected_def)
    obtain reuse keepalive r1 s2 w2 where wr: "write_request c1 a False ?r (s1, w1) = Inr (reuse, keepalive, r1, s2, w2)"
      "(if reuse then bindR (cse_recycle (c1, s2, w2)) (\<lambda>(config, x). Inr (0, g1, config, api RFlush (api KillTimeout r1), x))
        else Inr (0, g1, c1, api RFlush (api KillTimeout r1), cse_close (s2, w2))) = Inr (status, g', c', r', s', w')"
      using True assms(4) session o ok by (auto simp: caucho_request_def Let_def bindR_Inr_iff)
    have "s_srun s2 = Some k" using conn_traffic.R_write_request [OF wr(1)] k(2) by (simp add: keeps_conn_def)
    then show ?thesis using wr(2) recycle_beyond [of c1 s2 w2 c' "(s', w')" k "used_size c"] k(1)
      by (cases reuse) (auto simp: bindR_Inr_iff)
  qed
  then show ?thesis using rel b by (simp add: keeps_def released_def)
qed

text \<open>One row of the status page opens a connection to a runner and puts it in the pool.\<close>

lemma ping_keeps:
  assumes "config_ok c" "pools_ok (srun_list c) (set (open_fds w))" "stream_ok s" "i < used_size c"
    and "cse_open (int i) pool True (c, s, w) = Inr (ok, c1, s1, w1)" "cse_recycle (c1, s1, w1) = Inr (c2, s2, w2)"
  shows "keeps c w c2 w2" "stream_ok s2"
proof -
  have i: "i < length (srun_list c)" using used_size_bounds [OF assms(1)] assms(4) by simp
  obtain d w' where d: "cse_open (int i) pool True (c, s, w) =
      Inr (0 \<le> d, put_srun (int i) (fix_port (srun_list c ! i)) c, open_stream i pool d s, w')"
    "pools_ok (srun_list c) (set (open_fds w'))" "0 \<le> d \<longrightarrow> d \<in> set (open_fds w') \<and> d \<notin> idle (srun_list c) \<and> \<not> nonblock w' d"
    "d < 0 \<longrightarrow> d = -1 \<and> set (open_fds w') = set (open_fds w)"
    by (rule cse_open_spec [OF i assms(2)])
  have e: "ok = (0 \<le> d)" "c1 = put_srun (int i) (fix_port (srun_list c ! i)) c" "s1 = open_stream i pool d s" "w1 = w'"
    using assms(5) d(1) by auto
  have same: "same_runners c c1" unfolding e(2) by (rule same_runners_put [OF i]) simp
  have l: "srun_list c1 = (srun_list c)[i := fix_port (srun_list c ! i)]" by (simp add: e(2))
  have p: "pools_ok (srun_list c1) (set (open_fds w1))" unfolding l e(4)
    by (rule pools_ok_same_sockets [OF d(2) i]) (use pools_okD(1) [OF d(2) i] in simp_all)
  have idle: "idle (srun_list c1) = idle (srun_list c)"
    unfolding e(2) by (rule idle_put_same) (use i in simp_all)
  have s1: "stream_ok s1" using assms(3) by (simp add: e(3) open_stream_def reset_stream_def stream_ok_def)
  have "opens_only (c, s, w) (ok, c1, s1, w1)" by (rule cse_open_opens [OF assms(5)])
  then have "serving c w i (c1, s1, w1)" using same p i s1 d(3,4) idle
    by (cases "0 \<le> d") (auto simp: serving_def opens_only_def e open_stream_def)
  from serving_recycle [OF this assms(6)] have "released c w (c2, s2, w2)" .
  moreover have "beyond (used_size c) c2 = beyond (used_size c) c"
    using recycle_beyond [OF assms(6), of i "used_size c"] assms(4) by (simp add: e open_stream_def)
  ultimately show "keeps c w c2 w2" by (simp add: keeps_def released_def)
  show "stream_ok s2" by (rule recycle_stream_ok [OF s1 assms(6)])
qed

lemma jvm_rows_keeps:
  assumes "config_ok c" "pools_ok (srun_list c) (set (open_fds w))" "stream_ok s" "set is \<subseteq> {..<used_size c}"
    and "jvm_rows is pool c r (s, w) = Inr (c', r', s', w')"
  shows "keeps c w c' w'"
  using assms
proof (induction "is" arbitrary: c r s w)
  case Nil
  then show ?case by (simp add: keeps_refl)
next
  case (Cons i "is")
  obtain r1 ok c1 s1 w1 c2 s2 w2 where st: "cse_open (int i) pool True (c, s, w) = Inr (ok, c1, s1, w1)"
    "cse_recycle (c1, s1, w1) = Inr (c2, s2, w2)" "jvm_rows is pool c2 r1 (s2, w2) = Inr (c', r', s', w')"
    using Cons.prems(5) by (auto simp: bindR_Inr_iff Let_def)
  have i: "i < used_size c" "set is \<subseteq> {..<used_size c}" using Cons.prems(4) by auto
  note p = ping_keeps [OF Cons.prems(1-3) i(1) st(1,2)]
  have c2: "config_ok c2" "used_size c2 = used_size c" "pools_ok (srun_list c2) (set (open_fds w2))"
    using p(1) same_runners_config [of c c2] Cons.prems(1) by (auto simp: keeps_def)
  have "keeps c2 w2 c' w'" by (rule Cons.IH [OF c2(1,3) p(2) _ st(3)]) (use i c2(2) in simp)
  then show ?case by (rule keeps_trans [OF p(1)])
qed

lemma caucho_status_keeps:
  assumes "config_ok c" "pools_ok (srun_list c) (set (open_fds w))" "stream_ok s"
    and "caucho_status pool c r (s, w) = Inr (status, c', r', s', w')"
  shows "keeps c w c' w'"
proof (cases "r_header_only r")
  case True
  then show ?thesis using assms(2,4) by (simp add: caucho_status_def Let_def api_def keeps_refl)
next
  case False
  then obtain r1 r2 where "jvm_rows (all_sruns c) pool c r1 (s, w) = Inr (c', r2, s', w')"
    using assms(4) by (auto simp: caucho_status_def jvm_status_def Let_def api_def bindR_Inr_iff)
  moreover have "set (all_sruns c) \<subseteq> {..<used_size c}" by (auto simp: all_sruns_def used_size_def)
  ultimately show ?thesis using jvm_rows_keeps [OF assms(1-3)] by blast
qed

subsection \<open>Reachable states\<close>

text \<open>
  \<open>alive c w c' g w'\<close>: a child that starts with the configuration \<open>c\<close> in the world \<open>w\<close> can come to
  \<open>c'\<close>, the counter \<open>g\<close> and \<open>w'\<close>. The stream of a request is a local variable of its handler:
  any well-formed one. Between two entry points the network may do anything to the connections,
  but descriptors are opened and closed by the module only.
\<close>

inductive alive :: "config \<Rightarrow> world \<Rightarrow> config \<Rightarrow> 32 word \<Rightarrow> world \<Rightarrow> bool" for c w where
  started: "cse_open_child c w = Inr (c', w') \<Longrightarrow> alive c w c' g w'"
| served: "alive c w c' g w' \<Longrightarrow> stream_ok s \<Longrightarrow>
    caucho_request sub_req page rand pool a g c' r (s, w') = Inr (status, g2, c2, r2, s2, w2) \<Longrightarrow> alive c w c2 g2 w2"
| reported: "alive c w c' g w' \<Longrightarrow> stream_ok s \<Longrightarrow>
    caucho_status pool c' r (s, w') = Inr (status, c2, r2, s2, w2) \<Longrightarrow> alive c w c2 g w2"
| network: "alive c w c' g w' \<Longrightarrow> set (open_fds w2) = set (open_fds w') \<Longrightarrow> alive c w c' g w2"

lemma open_child_keeps:
  assumes "runners_ok c {}" "cse_open_child c w = Inr (c0, w0)"
  shows "w0 = w" "config_ok c0" "pools_ok (srun_list c0) fds" "idle (srun_list c0) = {}" "srun_size c0 = srun_size c"
    "locations c0 = locations c" "length (srun_list c0) = length (srun_list c)"
    "k < length (srun_list c) \<Longrightarrow> runner_of (srun_list c0 ! k) = runner_of (srun_list c ! k)"
proof -
  let ?f = "\<lambda>srun. srun\<lparr>sr_n_sockets := 0, sr_max_sockets := 32, sr_is_dead := False, sr_last_time := 0\<rparr>"
  have c: "config_ok c" "pools_ok (srun_list c) {}" using assms(1) by (simp_all add: runners_ok_def)
  obtain l where l: "cse_open_child c w = Inr (c\<lparr>srun_list := l\<rparr>, w)" "length l = length (srun_list c)"
    "\<forall>j. l ! j = (if j < nat (srun_size c) then ?f (srun_list c ! j) else srun_list c ! j)"
    by (rule open_child_spec [OF c(1)])
  have e: "c0 = c\<lparr>srun_list := l\<rparr>" "w0 = w" using assms(2) l(1) by simp_all
  have empty: "sockets_of (srun_list c ! j) = []" if "j < length (srun_list c)" for j
    using pools_okD(4) [OF c(2) that] by auto
  have l0: "\<forall>r \<in> set l. srun_ok r \<and> sockets_of r = []"
  proof
    fix r assume "r \<in> set l"
    then obtain j where j: "j < length l" "r = l ! j" by (auto simp: in_set_conv_nth)
    then show "srun_ok r \<and> sockets_of r = []"
      using l(2,3) empty [of j] pools_okD(1) [OF c(2), of j] by (auto simp: srun_ok_def SOCKETS_LENGTH_def sockets_of_def)
  qed
  show "w0 = w" "srun_size c0 = srun_size c" "locations c0 = locations c" "length (srun_list c0) = length (srun_list c)"
    by (simp_all add: e l(2))
  show "config_ok c0" using c(1) l(2) by (simp add: e config_ok_def)
  show "pools_ok (srun_list c0) fds" unfolding e by (simp add: pools_ok_empty [OF l0])
  show "idle (srun_list c0) = {}" using l0 by (auto simp: e idle_def)
  show "runner_of (srun_list c0 ! k) = runner_of (srun_list c ! k)" if "k < length (srun_list c)"
    using l(3) by (simp add: e runner_of_def)
qed

text \<open>The invariant, by rule induction from the operations' lemmas.\<close>

lemma alive_keeps:
  assumes "alive c w c' g w'" "runners_ok c {}"
  obtains c0 where "cse_open_child c w = Inr (c0, w)" "keeps c0 w c' w'" "config_ok c'" "pools_ok (srun_list c') (set (open_fds w'))"
proof -
  have "\<exists>c0. cse_open_child c w = Inr (c0, w) \<and> keeps c0 w c' w' \<and> config_ok c'"
    using assms
  proof induction
    case (started c' w' g)
    then show ?case using open_child_keeps [OF started(2,1)] keeps_refl by auto
  next
    case (served c' g w' s sub_req page rand pool a r status g2 c2 r2 s2 w2)
    then obtain c0 where c0: "cse_open_child c w = Inr (c0, w)" "keeps c0 w c' w'" "config_ok c'" by blast
    have "keeps c' w' c2 w2" by (rule caucho_request_keeps [OF c0(3) _ served(2,3)]) (use c0(2) in \<open>simp add: keeps_def\<close>)
    from keeps_step [OF c0(2,3) this] show ?case using c0(1) by blast
  next
    case (reported c' g w' s pool r status c2 r2 s2 w2)
    then obtain c0 where c0: "cse_open_child c w = Inr (c0, w)" "keeps c0 w c' w'" "config_ok c'" by blast
    have "keeps c' w' c2 w2" by (rule caucho_status_keeps [OF c0(3) _ reported(2,3)]) (use c0(2) in \<open>simp add: keeps_def\<close>)
    from keeps_step [OF c0(2,3) this] show ?case using c0(1) by blast
  next
    case (network c' g w' w2)
    then show ?case by (auto simp: keeps_def unpooled_def)
  qed
  then show thesis using that by (auto simp: keeps_def)
qed

lemma unused_pools_empty:
  assumes "keeps c0 w c' w'" "idle (srun_list c0) = {}" "srun_size c0 = int (used_size c0)" "config_ok c'"
  shows "used_sockets c' = idle (srun_list c')"
proof -
  have n: "used_size c' = used_size c0" "srun_size c' = srun_size c0" "length (srun_list c') = length (srun_list c0)"
    using assms(1) same_runners_config [of c0 c'] same_runners_length [of c0 c'] by (auto simp: keeps_def same_runners_def)
  have "sockets_of (srun_list c' ! i) = []" if i: "i < length (srun_list c')" "used_size c0 \<le> i" for i
  proof -
    have d: "drop (used_size c0) (srun_list c') = drop (used_size c0) (srun_list c0)"
      using assms(1) by (simp add: keeps_def beyond_def)
    have "srun_list c' ! i = srun_list c0 ! i"
      using arg_cong [OF d, of "\<lambda>l. l ! (i - used_size c0)"] i n(3) by simp
    moreover have "set (sockets_of (srun_list c0 ! i)) \<subseteq> idle (srun_list c0)" by (rule idle_nth) (use i n in simp)
    ultimately show ?thesis using assms(2) by simp
  qed
  then have "d \<in> used_sockets c'" if "d \<in> idle (srun_list c')" for d
    using that assms(3) n by (force simp: in_idle used_sockets_def not_le)
  moreover have "used_sockets c' \<subseteq> idle (srun_list c')"
  proof
    fix d assume "d \<in> used_sockets c'"
    then obtain i where "i < nat (srun_size c')" "d \<in> set (sockets_of (srun_list c' ! i))" by (auto simp: used_sockets_def)
    moreover have "nat (srun_size c') \<le> length (srun_list c')" using assms(4) by (auto simp: config_ok_def)
    ultimately show "d \<in> idle (srun_list c')" unfolding in_idle using order_less_le_trans by blast
  qed
  ultimately show ?thesis by blast
qed

lemma alive_exit:
  assumes "runners_ok c {}" "1 \<le> srun_size c" "alive c w c' g w'"
  shows "returns (\<lambda>(c2, w2). set (open_fds w2) \<subseteq> set (open_fds w)) (cse_close_child c' w')"
proof -
  obtain c0 where c0: "cse_open_child c w = Inr (c0, w)" "keeps c0 w c' w'" "config_ok c'" "pools_ok (srun_list c') (set (open_fds w'))"
    by (rule alive_keeps [OF assms(3,1)])
  note o = open_child_keeps [OF assms(1) c0(1)]
  have "srun_size c0 = int (used_size c0)" using o(5) assms(2) by (simp add: used_size_def)
  from unused_pools_empty [OF c0(2) o(4) this c0(3)] have used: "used_sockets c' = idle (srun_list c')" .
  obtain l where l: "cse_close_child c' w' = Inr (c'\<lparr>srun_list := l\<rparr>,
      close_all (concat (map (\<lambda>i. rev (sockets_of (srun_list c' ! i))) (all_sruns c'))) w')"
    by (rule close_child_spec [OF c0(3,4)])
  have "set (concat (map (\<lambda>i. rev (sockets_of (srun_list c' ! i))) (all_sruns c'))) = used_sockets c'"
    by (auto simp: used_sockets_def all_sruns_def)
  moreover have "unpooled c' w' \<subseteq> set (open_fds w)" using c0(2) o(4) by (auto simp: keeps_def unpooled_def)
  ultimately show ?thesis using used by (auto simp: l unpooled_def)
qed

subsection \<open>A small instance\<close>

text \<open>A network that answers nothing.\<close>

definition deaf_world :: world where "deaf_world = answering_world\<lparr>conns := []\<rparr>"
definition quiet_request :: request where "quiet_request = sample_request\<lparr>r_remote_ip := []\<rparr>"

lemma deaf_search:
  "case cse_open_child cse_create_server_config deaf_world of
     Inl e \<Rightarrow> False
   | Inr (c, w) \<Rightarrow>
      (case cse_open_connection (-1) [] 100 1 7 0 (c, fresh_stream, w) of Inl e \<Rightarrow> False
       | Inr (ok, g, c1, s, w) \<Rightarrow> \<not> ok \<and> length (srun_list c1) = 16 \<and> open_fds w = [])"
  by code_simp

lemma quiet_session: "get_session_index (r_headers_in quiet_request) (r_uri quiet_request) = Inr (-1)"
  by code_simp

lemma deaf_request:
  "\<exists>c0 g c r s w. cse_open_child cse_create_server_config deaf_world = Inr (c0, deaf_world) \<and> open_fds w = [] \<and>
     caucho_request sub_req page 1 7 a 0 c0 quiet_request (fresh_stream, deaf_world) = Inr (0, g, c, r, s, w)"
proof -
  obtain c0 where c0: "cse_open_child cse_create_server_config deaf_world = Inr (c0, deaf_world)"
    using open_child_spec [OF initial_config(1), of deaf_world] by blast
  obtain g c1 s w where o: "cse_open_connection (-1) [] 100 1 7 0 (c0, fresh_stream, deaf_world) = Inr (False, g, c1, s, w)"
    "length (srun_list c1) = 16" "open_fds w = []"
    using deaf_search unfolding c0 by (auto split: sum.splits)
  have r: "r_setup quiet_request = 0" "r_remote_ip (api SoftTimeout quiet_request) = []" "r_request_time (api SoftTimeout quiet_request) = 100"
    "r_headers_in (api SoftTimeout quiet_request) = r_headers_in quiet_request" "r_uri (api SoftTimeout quiet_request) = r_uri quiet_request"
    by (simp_all add: quiet_request_def sample_request_def api_def)
  have "get_srun c1 0 = Inr (srun_list c1 ! 0)" using o(2) by (simp add: get_srun_def)
  then show ?thesis using c0 o r
    by (simp add: caucho_request_def Let_def quiet_session)
qed

lemma deaf_alive:
  obtains c g w where "alive cse_create_server_config deaf_world c g w" "open_fds w = []"
proof -
  obtain c0 g c r s w where d: "cse_open_child cse_create_server_config deaf_world = Inr (c0, deaf_world)" "open_fds w = []"
    "caucho_request (\<lambda>_. (404, 0)) None 1 7 blank_arrays 0 c0 quiet_request (fresh_stream, deaf_world) = Inr (0, g, c, r, s, w)"
    using deaf_request by blast
  have "alive cse_create_server_config deaf_world c g w"
    by (rule alive.served [OF alive.started [OF d(1)] fresh_stream_ok d(3)])
  then show thesis using d(2) by (rule that)
qed

subsection \<open>Properties\<close>



text \<open>
  C7: a child leaves nothing open. Whatever it has served, when it exits, every descriptor that is
  open afterwards was so before its first request; the connections in the pools have been closed. It takes at least one configured runner: without one the search still uses the
  first entry of the array, which the exit does not visit.
\<close>

theorem child_exit_closes_all:
  assumes "runners_ok c {}" "1 \<le> srun_size c" "alive c w c' g w'"
  shows "returns (\<lambda>(c2, w2). set (open_fds w2) \<subseteq> set (open_fds w)) (cse_close_child c' w')"
  by (rule alive_exit [OF assms])

theorem child_exit_closes_all_witness:
  "\<exists>c g w. alive cse_create_server_config deaf_world c g w \<and>
     returns (\<lambda>(c2, w2). set (open_fds w2) = {}) (cse_close_child c w)"
proof -
  obtain c g w where a: "alive cse_create_server_config deaf_world c g w" by (rule deaf_alive)
  have d: "open_fds deaf_world = []" "1 \<le> srun_size cse_create_server_config"
    by (simp_all add: deaf_world_def answering_world_def cse_create_server_config_def Let_def)
  have "returns (\<lambda>(c2, w2). set (open_fds w2) = {}) (cse_close_child c w)"
    by (rule returns_mono [OF child_exit_closes_all [OF initial_runners(1) d(2) a(1)]]) (auto simp: d(1))
  then show ?thesis using a(1) by blast
qed

end
