(* ===== verification/Cse_Threads.thy ===== *)
theory Cse_Threads
  imports Cse_Windows Cse_Child
begin

text \<open>
  Several threads in one process, as in Apache for Windows, with the lock of the configuration
  (\<open>cse_lock\<close> and \<open>cse_unlock\<close> of mod_caucho.c). Each thread has a stream of its own; the runners
  with their pools are shared. \<open>server_step\<close> interleaves the threads: what a thread does between
  two uses of shared data is a step. The two routines that use the pools, \<open>cse_reuse_socket\<close> and
  \<open>cse_recycle\<close>, are two steps each, their test and their update, with the lock held in between;
  all else runs without the lock.
\<close>

subsection \<open>The sections under the lock\<close>

definition reuse_test :: "int \<Rightarrow> 32 word \<Rightarrow> config \<Rightarrow> (bool \<times> config) res" where
  "reuse_test k t config =
     bindR (get_srun config k) (\<lambda>srun.
       let srun = (if t < sr_last_time srun then srun\<lparr>sr_last_time := t\<rparr> else srun)
       in Inr (sr_n_sockets srun > 0 \<and> sr_last_time srun + word_of_int (sr_live_time srun) \<ge> t, put_srun k srun config))"

definition reuse_update :: "bool \<Rightarrow> int \<Rightarrow> 32 word \<Rightarrow> nat \<Rightarrow> config \<times> io \<Rightarrow> (bool \<times> config \<times> io) res" where
  "reuse_update ok k t pool = (\<lambda>(config, s, w).
     if ok then bindR (cse_reuse k t pool (config, s, w)) (\<lambda>x. Inr (True, x))
     else bindR (get_srun config k) (\<lambda>srun. bindR (drain_sockets srun w) (\<lambda>(srun, w). Inr (False, put_srun k srun config, s, w))))"

definition recycle_test :: "config \<Rightarrow> stream \<Rightarrow> bool res" where
  "recycle_test config s =
     (case s_srun s of
        None \<Rightarrow> Inr False
      | Some k \<Rightarrow> bindR (get_srun config (int k)) (\<lambda>srun.
          Inr (s_socket s \<ge> 0 \<and> update_count config = s_update_count s \<and> sr_n_sockets srun < sr_max_sockets srun)))"

definition recycle_update :: "bool \<Rightarrow> config \<times> io \<Rightarrow> (config \<times> io) res" where
  "recycle_update ok = (\<lambda>(config, s, w).
     if ok then
       (case s_srun s of
          None \<Rightarrow> Inl NullPointer
        | Some k \<Rightarrow> bindR (get_srun config (int k)) (\<lambda>srun.
            let socket = s_socket s;
                s = s\<lparr>s_socket := -1\<rparr>;
                w = cse_kill_socket_cleanup socket (s_pool s) w
            in bindR (push_socket socket srun) (\<lambda>srun. Inr (put_srun (int k) srun config, s, w))))
     else bindR (cse_write_packet (CHR ''X'') [] 0 (s, w)) (\<lambda>x. Inr (config, cse_close x)))"

text \<open>The routines are their two parts.\<close>

lemma reuse_cut:
  "cse_reuse_socket k t pool (c, s, w) = bindR (reuse_test k t c) (\<lambda>(ok, c). reuse_update ok k t pool (c, s, w))"
  by (auto simp: cse_reuse_socket_def reuse_test_def reuse_update_def get_srun_def put_srun_def Let_def)

lemma recycle_cut: "cse_recycle (c, s, w) = bindR (recycle_test c s) (\<lambda>ok. recycle_update ok (c, s, w))"
  by (auto simp: cse_recycle_def recycle_test_def recycle_update_def Let_def bindR_assoc bindR_def split: option.split sum.split)


subsection \<open>The steps of a server\<close>

text \<open>Where a thread is: outside the sections, or between the test and the update of one.\<close>

datatype phase = Outside | Reusing bool int "32 word" nat | Recycling bool

record server =
  sv_config :: config
  sv_world :: world
  sv_stream :: "nat \<Rightarrow> stream"
  sv_phase :: "nat \<Rightarrow> phase"
  sv_owner :: "nat option"

text \<open>
  A recycling thread gives the lock back before it closes a connection for which there is no room.
\<close>

fun holds_lock :: "phase \<Rightarrow> bool" where
  "holds_lock Outside = False"
| "holds_lock (Reusing ok k t pool) = True"
| "holds_lock (Recycling ok) = ok"

definition seen_by :: "server \<Rightarrow> nat \<Rightarrow> config \<times> io" where
  "seen_by \<sigma> i = (sv_config \<sigma>, sv_stream \<sigma> i, sv_world \<sigma>)"

definition put_back :: "nat \<Rightarrow> config \<times> io \<Rightarrow> server \<Rightarrow> server" where
  "put_back i = (\<lambda>(c, s, w) \<sigma>. \<sigma>\<lparr>sv_config := c, sv_world := w, sv_stream := (sv_stream \<sigma>)(i := s)\<rparr>)"

text \<open>The rest of a section.\<close>

definition section_rest :: "server \<Rightarrow> nat \<Rightarrow> (config \<times> io) res" where
  "section_rest \<sigma> i =
     (case sv_phase \<sigma> i of
        Outside \<Rightarrow> Inr (seen_by \<sigma> i)
      | Reusing ok k t pool \<Rightarrow> bindR (reuse_update ok k t pool (seen_by \<sigma> i)) (\<lambda>(_, x). Inr x)
      | Recycling ok \<Rightarrow> recycle_update ok (seen_by \<sigma> i))"

text \<open>What a thread does with its own stream: the routines of stream.c end in these.\<close>

inductive io_step :: "io \<Rightarrow> io \<Rightarrow> bool" where
  ensure: "ensure_data (s, w) = (fl, s', w') \<Longrightarrow> io_step (s, w) (s', w')"
| advance: "0 \<le> n \<Longrightarrow> s_read_offset s + n \<le> s_read_length s \<Longrightarrow> io_step (s, w) (advance n s, w)"
| shut: "io_step (s, w) (cse_close (s, w))"
| send: "cse_write buf len x = Inr y \<Longrightarrow> io_step x y"

text \<open>What it does without the lock: the parts of \<open>open_connection\<close>, and the use of its stream.\<close>

inductive act :: "connect \<Rightarrow> config \<times> io \<Rightarrow> config \<times> io \<Rightarrow> bool" for connect where
  start: "s_socket s < 0 \<Longrightarrow> act connect (c, s, w) (c, (reset_stream pool s)\<lparr>s_srun := None\<rparr>, w)"
| dial: "s_socket s < 0 \<Longrightarrow> cse_open_by connect k pool wait (c, s, w) = Inr (ok, y) \<Longrightarrow> act connect (c, s, w) y"
| alive: "opened k t x = Inr y \<Longrightarrow> act connect x y"
| dead: "get_srun c k = Inr r \<Longrightarrow>
    act connect (c, s, w) (put_srun k (r\<lparr>sr_is_dead := True, sr_last_time := t\<rparr>) c, s, w)"
| cleanup: "act connect (c, s, w) (c, s, cse_set_socket_cleanup (s_socket s) pool w)"
| traffic: "io_step (s, w) (s', w') \<Longrightarrow> act connect (c, s, w) (c, s', w')"

inductive server_step :: "connect \<Rightarrow> bool \<Rightarrow> server \<Rightarrow> server \<Rightarrow> bool" for connect locks where
  acts: "sv_phase \<sigma> i = Outside \<Longrightarrow> act connect (seen_by \<sigma> i) x \<Longrightarrow> server_step connect locks \<sigma> (put_back i x \<sigma>)"
| reuses: "sv_phase \<sigma> i = Outside \<Longrightarrow> (locks \<Longrightarrow> sv_owner \<sigma> = None) \<Longrightarrow> s_socket (sv_stream \<sigma> i) < 0 \<Longrightarrow>
    reuse_test k t (sv_config \<sigma>) = Inr (ok, c) \<Longrightarrow>
    server_step connect locks \<sigma>
      (\<sigma>\<lparr>sv_config := c, sv_phase := (sv_phase \<sigma>)(i := Reusing ok k t pool), sv_owner := Some i\<rparr>)"
| recycles: "sv_phase \<sigma> i = Outside \<Longrightarrow> (locks \<Longrightarrow> sv_owner \<sigma> = None) \<Longrightarrow>
    recycle_test (sv_config \<sigma>) (sv_stream \<sigma> i) = Inr ok \<Longrightarrow>
    server_step connect locks \<sigma>
      (\<sigma>\<lparr>sv_phase := (sv_phase \<sigma>)(i := Recycling ok), sv_owner := (if ok then Some i else sv_owner \<sigma>)\<rparr>)"
| leaves: "sv_phase \<sigma> i \<noteq> Outside \<Longrightarrow> section_rest \<sigma> i = Inr x \<Longrightarrow>
    server_step connect locks \<sigma>
      ((put_back i x \<sigma>)\<lparr>sv_phase := (sv_phase \<sigma>)(i := Outside),
         sv_owner := (if holds_lock (sv_phase \<sigma> i) then None else sv_owner \<sigma>)\<rparr>)"

lemma seen_put [simp]: "seen_by (put_back i x \<sigma>) i = x" "put_back i y (put_back i x \<sigma>) = put_back i y \<sigma>"
  "put_back i (seen_by \<sigma> i) \<sigma> = \<sigma>"
  by (cases x; cases y; simp add: seen_by_def put_back_def)+

lemma put_back_simps [simp]:
  "sv_config (put_back i (c, s, w) \<sigma>) = c" "sv_world (put_back i (c, s, w) \<sigma>) = w"
  "sv_stream (put_back i (c, s, w) \<sigma>) = (sv_stream \<sigma>)(i := s)" "sv_phase (put_back i x \<sigma>) = sv_phase \<sigma>"
  "sv_owner (put_back i x \<sigma>) = sv_owner \<sigma>"
  by (cases x; simp add: put_back_def)+

subsection \<open>What the steps leave of the pools and of the descriptors\<close>

text \<open>Two configurations with the same pools: what is changed without the lock is not the pools.\<close>

definition pool_of :: "srun \<Rightarrow> int \<times> int \<times> (int \<Rightarrow> int)" where
  "pool_of r = (sr_n_sockets r, sr_max_sockets r, sr_sockets r)"

definition same_pools :: "config \<Rightarrow> config \<Rightarrow> bool" where
  "same_pools c c' \<longleftrightarrow> map pool_of (srun_list c') = map pool_of (srun_list c) \<and> update_count c' = update_count c"

lemma same_pools_refl [simp]: "same_pools c c"
  by (simp add: same_pools_def)

lemma same_pools_put: "get_srun c k = Inr r \<Longrightarrow> pool_of r' = pool_of r \<Longrightarrow> same_pools c (put_srun k r' c)"
  using get_srun_bound [of c k r] by (auto simp: same_pools_def put_srun_def map_update list_update_same_conv)

lemma same_poolsD:
  assumes "same_pools c c'"
  shows "length (srun_list c') = length (srun_list c)"
    and "i < length (srun_list c) \<Longrightarrow> pool_of (srun_list c' ! i) = pool_of (srun_list c ! i)"
proof -
  show l: "length (srun_list c') = length (srun_list c)" using assms unfolding same_pools_def by (metis length_map)
  show "i < length (srun_list c) \<Longrightarrow> pool_of (srun_list c' ! i) = pool_of (srun_list c ! i)"
    using assms l unfolding same_pools_def by (metis nth_map)
qed

lemma pool_of_same:
  assumes "pool_of r' = pool_of r"
  shows "sockets_of r' = sockets_of r" "srun_ok r' = srun_ok r" "sr_n_sockets r' = sr_n_sockets r"
    "sr_max_sockets r' = sr_max_sockets r"
  using assms by (simp_all add: pool_of_def sockets_of_def srun_ok_def)

lemma same_pools_ok:
  assumes "same_pools c c'"
  shows "pools_ok (srun_list c') fds = pools_ok (srun_list c) fds" "idle (srun_list c') = idle (srun_list c)"
proof -
  note l = same_poolsD(1) [OF assms]
  have n: "sockets_of (srun_list c' ! i) = sockets_of (srun_list c ! i)" "srun_ok (srun_list c' ! i) = srun_ok (srun_list c ! i)"
    if "i < length (srun_list c)" for i
    using pool_of_same [OF same_poolsD(2) [OF assms that]] by simp_all
  show "pools_ok (srun_list c') fds = pools_ok (srun_list c) fds" unfolding pools_ok_def l using n by auto
  show "idle (srun_list c') = idle (srun_list c)" by (intro set_eqI) (simp add: in_idle l n cong: conj_cong)
qed

text \<open>What becomes of a thread's descriptor: it stays, it is closed, or it is a new one.\<close>

definition moves :: "io \<Rightarrow> io \<Rightarrow> bool" where
  "moves = (\<lambda>(s, w) (s', w'). stream_ok s' \<and>
     (s_socket s' = s_socket s \<and> set (open_fds w') = set (open_fds w) \<or>
      s_socket s' < 0 \<and> set (open_fds w') \<subseteq> set (open_fds w) \<and> set (open_fds w) - {s_socket s, -1} \<subseteq> set (open_fds w') \<or>
      s_socket s < 0 \<and> 0 \<le> s_socket s' \<and> s_socket s' \<notin> set (open_fds w) \<and> set (open_fds w') = insert (s_socket s') (set (open_fds w))))"

lemma io_step_effect: "io_step x y \<Longrightarrow> keeps_conn x y \<and> (stream_ok (fst x) \<longrightarrow> stream_ok (fst y))"
proof (induction rule: io_step.induct)
  case (ensure s w fl s' w')
  then show ?case using conn.R_ensure safe.R_ensure by fastforce
next
  case (advance n s w)
  then show ?case using conn.R_advance [of n s w] safe.R_advance [of n s w] by simp
next
  case (shut s w)
  show ?case using conn.R_close [of s w] safe.R_close [of s w] by simp
next
  case (send buf len x y)
  then show ?case by (rule cse_write_relations)
qed

lemma keeps_conn_moves: "keeps_conn x y \<Longrightarrow> stream_ok (fst y) \<Longrightarrow> moves x y"
  by (auto simp: keeps_conn_def moves_def split: prod.splits)

lemma cse_open_by_result:
  assumes "cse_open_by connect k pool wait (c, s, w) = Inr (ok, y)"
  obtains r r1 a p f d w1 where "get_srun c k = Inr r" "pool_of r1 = pool_of r" "f w = (d, w1)"
    "f \<in> {cse_connect_wait a p, connect a p}" "ok \<longleftrightarrow> 0 \<le> d"
    "y = (put_srun k r1 c, (reset_stream pool s)\<lparr>s_srun := Some (nat k), s_socket := d\<rparr>, w1)"
proof -
  obtain r where g: "get_srun c k = Inr r" using assms by (auto simp: cse_open_by_def bindR_Inr_iff)
  define a where "a = (case sr_host r of Some host \<Rightarrow> host | None \<Rightarrow> INADDR_LOOPBACK)"
  define r1 where "r1 = (if sr_port r \<le> 0 then r\<lparr>sr_port := DEFAULT_PORT\<rparr> else r)"
  define f where "f = (if wait \<or> sr_connect_timeout r1 \<le> 0 then cse_connect_wait a (sr_port r1 mod 65536)
    else connect a (sr_port r1 mod 65536))"
  obtain d w1 where f: "f w = (d, w1)" by (rule prod.exhaust)
  have e: "ok = (0 \<le> d)" "y = (put_srun k r1 c, (reset_stream pool s)\<lparr>s_srun := Some (nat k), s_socket := d\<rparr>, w1)"
    using assms f unfolding cse_open_by_def prod.case g bindR_simps Let_def a_def [symmetric] r1_def [symmetric] f_def if_distribR
    by auto
  have "pool_of r1 = pool_of r" "f \<in> {cse_connect_wait a (sr_port r1 mod 65536), connect a (sr_port r1 mod 65536)}"
    by (simp_all add: r1_def pool_of_def f_def)
  from that [where f = f, OF g this(1) f this(2) e] show thesis .
qed

lemma act_effect:
  assumes conn: "\<And>a p. connects (connect a p)" and act: "act connect (c, s, w) (c', s', w')" and "stream_ok s"
  shows "same_pools c c' \<and> moves (s, w) (s', w')"
  using act
proof cases
  case (start pool)
  then show ?thesis using assms(3) by (auto simp: moves_def reset_stream_def stream_ok_def)
next
  case (dial k pool wait ok)
  obtain r r1 a p f d where g: "get_srun c k = Inr r" "pool_of r1 = pool_of r" "f w = (d, w')" "f \<in> {cse_connect_wait a p, connect a p}"
    and y: "c' = put_srun k r1 c" "s' = (reset_stream pool s)\<lparr>s_srun := Some (nat k), s_socket := d\<rparr>"
    by (rule cse_open_by_result [OF dial(2)]) auto
  have "connects f" using conn cse_connect_wait_connects g(4) by auto
  note laws = connects_laws [OF this g(3)]
  have "same_pools c c'" unfolding y(1) by (rule same_pools_put [OF g(1,2)])
  moreover have "moves (s, w) (s', w')"
    using laws dial(1) assms(3) y(2) by (cases "0 \<le> d") (auto simp: moves_def reset_stream_def stream_ok_def)
  ultimately show ?thesis by simp
next
  case (alive k t)
  then obtain r where g: "get_srun c k = Inr r" "c' = put_srun k (r\<lparr>sr_is_dead := False, sr_last_time := t\<rparr>) c"
    "s' = s\<lparr>s_srun := Some (nat k)\<rparr>" "w' = w" by (auto simp: opened_def bindR_Inr_iff)
  then show ?thesis using same_pools_put [OF g(1)] assms(3) by (simp add: pool_of_def moves_def stream_ok_def)
next
  case (dead k r t)
  then show ?thesis using same_pools_put [OF dead(4)] assms(3) by (simp add: pool_of_def moves_def)
next
  case (cleanup pool)
  then show ?thesis using assms(3) by (simp add: moves_def)
next
  case traffic
  then show ?thesis using io_step_effect keeps_conn_moves assms(3) by fastforce
qed


subsection \<open>Who has which descriptor\<close>

text \<open>
  The pools are well formed, the descriptors that threads hold are open and in no pool, and no two threads
  hold the same.
\<close>

definition apart :: "config \<Rightarrow> world \<Rightarrow> (nat \<Rightarrow> stream) \<Rightarrow> bool" where
  "apart c w st \<longleftrightarrow> pools_ok (srun_list c) (set (open_fds w)) \<and>
     (\<forall>i. stream_ok (st i) \<and>
        (0 \<le> s_socket (st i) \<longrightarrow> s_socket (st i) \<in> set (open_fds w) \<and> s_socket (st i) \<notin> idle (srun_list c))) \<and>
     (\<forall>i j. i \<noteq> j \<longrightarrow> 0 \<le> s_socket (st i) \<longrightarrow> s_socket (st i) \<noteq> s_socket (st j))"

lemma apartD:
  assumes "apart c w st"
  shows "pools_ok (srun_list c) (set (open_fds w))" "stream_ok (st i)"
    "0 \<le> s_socket (st i) \<Longrightarrow> s_socket (st i) \<in> set (open_fds w)" "0 \<le> s_socket (st i) \<Longrightarrow> s_socket (st i) \<notin> idle (srun_list c)"
    "i \<noteq> j \<Longrightarrow> 0 \<le> s_socket (st i) \<Longrightarrow> s_socket (st i) \<noteq> s_socket (st j)"
  using assms unfolding apart_def by blast+

text \<open>A new state is apart if one thread's part is.\<close>

lemma apartI:
  assumes "apart c w st" "pools_ok (srun_list c') (set (open_fds w'))" "stream_ok s"
    and "0 \<le> s_socket s \<Longrightarrow> s_socket s \<in> set (open_fds w') \<and> s_socket s \<notin> idle (srun_list c') \<and> (\<forall>j. j \<noteq> i \<longrightarrow> s_socket (st j) \<noteq> s_socket s)"
    and "\<And>j. j \<noteq> i \<Longrightarrow> 0 \<le> s_socket (st j) \<Longrightarrow> s_socket (st j) \<in> set (open_fds w') \<and> s_socket (st j) \<notin> idle (srun_list c')"
  shows "apart c' w' (st(i := s))"
proof -
  have "s_socket ((st(i := s)) a) \<noteq> s_socket ((st(i := s)) b)" if "a \<noteq> b" "0 \<le> s_socket ((st(i := s)) a)" for a b
    using that assms(4) apartD(5) [OF assms(1), of a b] by (cases "a = i"; cases "b = i") (auto split: if_splits)
  then show ?thesis using assms(2-5) apartD(2) [OF assms(1)] unfolding apart_def by simp
qed

lemma apart_move:
  assumes a: "apart c w st" and c: "same_pools c c'" and m: "moves (st i, w) (s, w')"
  shows "apart c' w' (st(i := s))"
proof -
  note p = apartD(1) [OF a]
  have neg: "d \<in> idle (srun_list c) \<Longrightarrow> 0 \<le> d \<and> d \<in> set (open_fds w)" for d
    using pools_okD(3,4) [OF p] by (auto simp: in_idle)
  note same = same_pools_ok [OF c]
  have m': "stream_ok s" using m by (simp add: moves_def)
  consider (stay) "s_socket s = s_socket (st i)" "set (open_fds w') = set (open_fds w)"
    | (shut) "s_socket s < 0" "set (open_fds w') \<subseteq> set (open_fds w)" "set (open_fds w) - {s_socket (st i), -1} \<subseteq> set (open_fds w')"
    | (new) "0 \<le> s_socket s" "s_socket s \<notin> set (open_fds w)" "set (open_fds w') = insert (s_socket s) (set (open_fds w))"
    using m unfolding moves_def prod.case by blast
  then show ?thesis
  proof cases
    case stay
    show ?thesis
      by (rule apartI [OF a _ m']) (use stay same p apartD(3-5) [OF a] in \<open>auto dest: apartD(5) [OF a]\<close>)
  next
    case shut
    have "s_socket (st i) \<notin> idle (srun_list c)" using neg [of "s_socket (st i)"] apartD(4) [OF a, of i] by blast
    then have "pools_ok (srun_list c) (set (open_fds w'))" by (rule pools_ok_fewer [OF p shut(3)])
    moreover have "s_socket (st j) \<in> set (open_fds w')" if "j \<noteq> i" "0 \<le> s_socket (st j)" for j
      using shut(3) apartD(3) [OF a that(2)] apartD(5) [OF a that] that(2) by auto
    ultimately show ?thesis
      by (intro apartI [OF a _ m']) (use shut(1) same apartD(4) [OF a] in auto)
  next
    case new
    have "pools_ok (srun_list c) (set (open_fds w'))" by (rule pools_ok_mono [OF p]) (use new(3) in auto)
    moreover have "s_socket s \<notin> idle (srun_list c)" using neg new(2) by blast
    moreover have "s_socket (st j) \<noteq> s_socket s" for j using apartD(3) [OF a, of j] new(1,2) by auto
    ultimately show ?thesis
      by (intro apartI [OF a _ m']) (use new same apartD(3,4) [OF a] in auto)
  qed
qed

subsection \<open>The updates under the lock\<close>

lemma apart_reuse:
  assumes a: "apart c w st" and i: "s_socket (st i) < 0" and k: "k < length (srun_list c)" and n: "0 < sr_n_sockets (srun_list c ! k)"
  shows "returns (\<lambda>(ok, c', s', w'). apart c' w' (st(i := s'))) (reuse_update True (int k) t pool (c, st i, w))"
proof -
  let ?r = "srun_list c ! k"
  let ?r' = "?r\<lparr>sr_n_sockets := sr_n_sockets ?r - 1, sr_is_dead := False, sr_last_time := t\<rparr>"
  let ?d = "last (sockets_of ?r)"
  note p = apartD(1) [OF a]
  note ok = pools_okD [OF p k]
  note pop = pop_socket_eq [OF n ok(1)]
  have socks: "sockets_of ?r' = butlast (sockets_of ?r)" "srun_ok ?r'" using pop(2,3) by simp_all
  have "sockets_of ?r \<noteq> []" using sockets_of_snoc [OF n] by simp
  then have d: "?d \<in> set (sockets_of ?r)" "?d \<notin> set (sockets_of ?r')"
    using last_not_in_butlast [OF ok(2)] socks by simp_all
  have sub: "set (sockets_of ?r') \<subseteq> set (sockets_of ?r)" using socks(1) by (auto dest: in_set_butlastD)
  have pools: "pools_ok ((srun_list c)[k := ?r']) (set (open_fds w))"
    by (rule pools_ok_shrink [OF p k socks(2) _ sub]) (use socks(1) ok(2,4) in \<open>auto simp: distinct_butlast dest: in_set_butlastD\<close>)
  have fewer: "idle ((srun_list c)[k := ?r']) \<subseteq> idle (srun_list c)"
    using idle_update [of "srun_list c" k ?r'] sub idle_nth [OF k] by blast
  have fresh: "?d \<notin> idle ((srun_list c)[k := ?r'])" by (rule idle_removed [OF p k d])
  have others: "s_socket (st j) \<noteq> ?d" if "0 \<le> ?d" for j
    using apartD(4) [OF a, of j] idle_nth [OF k] d(1) that by auto
  let ?s = "(st i)\<lparr>s_pool := pool, s_write_buf := [], s_read_length := 0, s_read_offset := 0, s_socket := ?d,
    s_update_count := update_count c, s_srun := Some k\<rparr>"
  have "reuse_update True (int k) t pool (c, st i, w) = Inr (True, put_srun (int k) ?r' c, ?s, w)"
    using k pop(1) by (simp add: reuse_update_def cse_reuse_def Let_def)
  moreover have "apart (put_srun (int k) ?r' c) w (st(i := ?s))"
  proof (rule apartI [OF a])
    show "stream_ok ?s" using apartD(2) [OF a, of i] by (simp add: stream_ok_def s_write_length_def)
  qed (use pools fewer fresh others d(1) ok(4) apartD(3,4) [OF a] in auto)
  ultimately show ?thesis by simp
qed

lemma apart_drain:
  assumes a: "apart c w st" and k: "k < length (srun_list c)"
  shows "returns (\<lambda>(ok, c', s', w'). apart c' w' (st(i := s'))) (reuse_update False (int k) t pool (c, st i, w))"
proof -
  let ?r = "srun_list c ! k"
  let ?c = "put_srun (int k) (?r\<lparr>sr_n_sockets := 0\<rparr>) c" let ?w = "close_all (rev (sockets_of ?r)) w"
  note p = apartD(1) [OF a]
  note ok = pools_okD [OF p k]
  have pools: "pools_ok ((srun_list c)[k := ?r\<lparr>sr_n_sockets := 0\<rparr>]) (set (open_fds ?w))"
    using pools_ok_shrink [OF p k, of "?r\<lparr>sr_n_sockets := 0\<rparr>"] ok(1) by simp
  have fewer: "idle ((srun_list c)[k := ?r\<lparr>sr_n_sockets := 0\<rparr>]) \<subseteq> idle (srun_list c)"
    using idle_update [of "srun_list c" k "?r\<lparr>sr_n_sockets := 0\<rparr>"] by simp
  have left: "s_socket (st j) \<in> set (open_fds ?w) \<and> s_socket (st j) \<notin> idle (srun_list ?c)" if "0 \<le> s_socket (st j)" for j
    using apartD(3,4) [OF a that] idle_nth [OF k] fewer by auto
  have "reuse_update False (int k) t pool (c, st i, w) = Inr (False, ?c, st i, ?w)"
    using k drain_sockets_eq [OF ok(1)] by (simp add: reuse_update_def)
  moreover have "apart ?c ?w (st(i := st i))"
    by (rule apartI [OF a]) (use pools left apartD(2,5) [OF a] in \<open>auto dest: apartD(5) [OF a]\<close>)
  ultimately show ?thesis by simp
qed

lemma recycle_test_True:
  assumes "recycle_test c s = Inr True"
  obtains k where "s_srun s = Some k" "k < length (srun_list c)" "0 \<le> s_socket s" "has_room k (c, s, w)"
  using assms by (auto simp: recycle_test_def bindR_Inr_iff has_room_def get_srun_def split: option.splits if_splits)

lemma apart_recycle:
  assumes a: "apart c w st" and t: "recycle_test c (st i) = Inr True"
  shows "returns (\<lambda>(c', s', w'). apart c' w' (st(i := s'))) (recycle_update True (c, st i, w))"
proof -
  let ?s = "st i"
  obtain k where k: "s_srun ?s = Some k" "k < length (srun_list c)" "0 \<le> s_socket ?s" "has_room k (c, ?s, w)"
    by (rule recycle_test_True [OF t])
  have h: "holds k (c, ?s, w)" using k apartD [OF a] by (simp add: holds_def)
  have e: "cse_recycle (c, ?s, w) = recycle_update True (c, ?s, w)" by (simp add: recycle_cut t)
  show ?thesis
  proof (rule returns_mono [OF recycle_pooled [OF h k(4), unfolded e]])
    fix x assume x: "case x of (c', s', w') \<Rightarrow> s' = ?s\<lparr>s_socket := -1\<rparr> \<and> w' = cse_kill_socket_cleanup (s_socket ?s) (s_pool ?s) w \<and>
      pools_ok (srun_list c') (set (open_fds w')) \<and> same_runners c c' \<and>
      sockets_of (srun_list c' ! k) = sockets_of (srun_list c ! k) @ [s_socket ?s] \<and>
      sr_last_time (srun_list c' ! k) = sr_last_time (srun_list c ! k) \<and>
      sr_live_time (srun_list c' ! k) = sr_live_time (srun_list c ! k) \<and>
      sr_n_sockets (srun_list c' ! k) = sr_n_sockets (srun_list c ! k) + 1 \<and>
      (\<forall>j. j \<noteq> k \<longrightarrow> srun_list c' ! j = srun_list c ! j)"
    obtain c' s' w' where y: "x = (c', s', w')" by (rule prod_cases3)
    note x = x [unfolded y prod.case]
    have len: "length (srun_list c') = length (srun_list c)" using x same_runners_length by blast
    have more: "idle (srun_list c') \<subseteq> insert (s_socket ?s) (idle (srun_list c))"
    proof
      fix d assume "d \<in> idle (srun_list c')"
      then obtain j where j: "j < length (srun_list c)" "d \<in> set (sockets_of (srun_list c' ! j))" by (auto simp: in_idle len)
      then show "d \<in> insert (s_socket ?s) (idle (srun_list c))"
        using x idle_nth [OF j(1)] idle_nth [OF k(2)] by (cases "j = k") auto
    qed
    have other: "s_socket (st j) \<noteq> s_socket ?s" if "j \<noteq> i" "0 \<le> s_socket (st j)" for j by (rule apartD(5) [OF a that])
    have "apart c' w' (st(i := s'))"
    proof (rule apartI [OF a])
      show "stream_ok s'" using apartD(2) [OF a, of i] x by (simp add: stream_ok_def s_write_length_def)
    qed (use x more other apartD(3,4) [OF a] in auto)
    then show "case x of (c', s', w') \<Rightarrow> apart c' w' (st(i := s'))" by (simp add: y)
  qed
qed

lemma apart_close:
  assumes a: "apart c w st"
  shows "returns (\<lambda>(c', s', w'). c' = c \<and> apart c' w' (st(i := s'))) (recycle_update False (c, st i, w))"
proof -
  have ok: "stream_ok (st i)" by (rule apartD(2) [OF a])
  obtain x where x: "cse_write_packet (CHR ''X'') [] 0 (st i, w) = Inr x" "stream_ok (fst x)"
    using cse_write_packet_safe [OF ok, of 0 "[]" "CHR ''X''" w] by (fastforce simp: returns_iff)
  have "keeps_conn (st i, w) (cse_close x)"
    using conn_traffic.R_write_packet [OF x(1)] keeps_conn_close [of "fst x" "snd x"] keeps_conn_trans by simp
  moreover obtain s' w' where y: "cse_close x = (s', w')" by (rule prod.exhaust)
  moreover have "stream_ok s'" using cse_close_simps(1) [of "fst x" "snd x"] x(2) y by (auto simp: stream_ok_def)
  ultimately have "moves (st i, w) (s', w')" by (intro keeps_conn_moves) simp_all
  from apart_move [OF a same_pools_refl this] show ?thesis using x(1) y by (simp add: recycle_update_def)
qed


subsection \<open>The invariant of a server with the lock\<close>

definition section_ok :: "config \<Rightarrow> nat option \<Rightarrow> nat \<Rightarrow> stream \<Rightarrow> phase \<Rightarrow> bool" where
  "section_ok c owner i s ph \<longleftrightarrow> (holds_lock ph \<longrightarrow> owner = Some i) \<and>
     (case ph of
        Outside \<Rightarrow> True
      | Reusing ok k t pool \<Rightarrow> s_socket s < 0 \<and> 0 \<le> k \<and> nat k < length (srun_list c) \<and> (ok \<longrightarrow> 0 < sr_n_sockets (srun_list c ! nat k))
      | Recycling ok \<Rightarrow> ok \<longrightarrow> recycle_test c s = Inr True)"

definition server_ok :: "server \<Rightarrow> bool" where
  "server_ok \<sigma> \<longleftrightarrow> apart (sv_config \<sigma>) (sv_world \<sigma>) (sv_stream \<sigma>) \<and>
     (\<forall>i. section_ok (sv_config \<sigma>) (sv_owner \<sigma>) i (sv_stream \<sigma> i) (sv_phase \<sigma> i))"

lemma section_free [simp]: "\<not> holds_lock ph \<Longrightarrow> section_ok c owner i s ph"
  by (cases ph) (simp_all add: section_ok_def)

lemma section_owner: "section_ok c owner i s ph \<Longrightarrow> holds_lock ph \<Longrightarrow> owner = Some i"
  by (simp add: section_ok_def)

lemma section_same_pools:
  assumes c: "same_pools c c'" and ok: "section_ok c owner i s ph"
  shows "section_ok c' owner i s ph"
proof (cases ph)
  case (Recycling b)
  note same = same_poolsD [OF c]
  have "update_count c' = update_count c" using c by (simp add: same_pools_def)
  then have "recycle_test c' s = recycle_test c s"
    using same pool_of_same(3,4) [OF same(2)] by (auto simp: recycle_test_def get_srun_def split: option.split)
  then show ?thesis using ok by (simp add: section_ok_def Recycling)
next
  case (Reusing b k t pool)
  note same = same_poolsD [OF c]
  show ?thesis using ok same pool_of_same(3) [OF same(2)] by (auto simp: section_ok_def Reusing)
qed simp

lemma reuse_test_effect:
  assumes "reuse_test k t c = Inr (ok, c')"
  shows "same_pools c c'" "0 \<le> k" "nat k < length (srun_list c')" "ok \<Longrightarrow> 0 < sr_n_sockets (srun_list c' ! nat k)"
proof -
  obtain r where r: "get_srun c k = Inr r"
    "c' = put_srun k (if t < sr_last_time r then r\<lparr>sr_last_time := t\<rparr> else r) c" "ok \<Longrightarrow> 0 < sr_n_sockets r"
    using assms by (auto simp: reuse_test_def bindR_Inr_iff Let_def split: if_splits)
  then show "same_pools c c'" using same_pools_put [OF r(1)] by (simp add: pool_of_def)
  show "0 \<le> k" "nat k < length (srun_list c')" "ok \<Longrightarrow> 0 < sr_n_sockets (srun_list c' ! nat k)"
    using r get_srun_bound [OF r(1)] by (auto simp: get_srun_def put_srun_def split: if_splits)
qed

text \<open>The update of a section runs, and leaves the threads apart.\<close>

lemma section_rest_apart:
  assumes "server_ok \<sigma>"
  shows "returns (\<lambda>(c, s, w). apart c w ((sv_stream \<sigma>)(i := s)) \<and> (\<not> holds_lock (sv_phase \<sigma> i) \<longrightarrow> c = sv_config \<sigma>)) (section_rest \<sigma> i)"
proof -
  have a: "apart (sv_config \<sigma>) (sv_world \<sigma>) (sv_stream \<sigma>)"
    and ok: "section_ok (sv_config \<sigma>) (sv_owner \<sigma>) i (sv_stream \<sigma> i) (sv_phase \<sigma> i)"
    using assms by (simp_all add: server_ok_def)
  show ?thesis
  proof (cases "sv_phase \<sigma> i")
    case Outside
    then show ?thesis using a by (simp add: section_rest_def seen_by_def)
  next
    case (Reusing b k t pool)
    note s = ok [unfolded section_ok_def Reusing phase.case]
    have k: "nat k < length (srun_list (sv_config \<sigma>))" "int (nat k) = k" using s by simp_all
    have "returns (\<lambda>(ok, c', s', w'). apart c' w' ((sv_stream \<sigma>)(i := s')))
        (reuse_update b k t pool (sv_config \<sigma>, sv_stream \<sigma> i, sv_world \<sigma>))"
      using apart_reuse [OF a _ k(1), of i t pool] apart_drain [OF a k(1), of i t pool] s k(2) by (cases b) simp_all
    then show ?thesis unfolding section_rest_def Reusing phase.case seen_by_def
      by (rule returns_bindI) (auto split: prod.splits)
  next
    case (Recycling b)
    show ?thesis
    proof (cases b)
      case True
      then have "recycle_test (sv_config \<sigma>) (sv_stream \<sigma> i) = Inr True" using ok by (simp add: section_ok_def Recycling)
      from apart_recycle [OF a this] show ?thesis by (simp add: section_rest_def Recycling seen_by_def True)
    next
      case False
      then show ?thesis unfolding section_rest_def Recycling phase.case seen_by_def using returns_mono [OF apart_close [OF a, of i]]
        by (auto split: prod.splits)
    qed
  qed
qed

lemma server_step_ok:
  assumes conn: "\<And>a p. connects (connect a p)" and step: "server_step connect True \<sigma> \<sigma>'" and ok: "server_ok \<sigma>"
  shows "server_ok \<sigma>'"
proof -
  have a: "apart (sv_config \<sigma>) (sv_world \<sigma>) (sv_stream \<sigma>)"
    and sec: "section_ok (sv_config \<sigma>) (sv_owner \<sigma>) j (sv_stream \<sigma> j) (sv_phase \<sigma> j)" for j
    using ok by (simp_all add: server_ok_def)
  show ?thesis using step
  proof cases
    case (acts i x)
    obtain c s w where x: "x = (c, s, w)" by (rule prod_cases3)
    have e: "same_pools (sv_config \<sigma>) c \<and> moves (sv_stream \<sigma> i, sv_world \<sigma>) (s, w)"
      using act_effect [OF conn acts(3) [unfolded seen_by_def x]] apartD(2) [OF a] by blast
    then have "apart c w ((sv_stream \<sigma>)(i := s))" using apart_move [OF a] by blast
    moreover have "section_ok c (sv_owner \<sigma>) j (((sv_stream \<sigma>)(i := s)) j) (sv_phase \<sigma> j)" for j
      using section_same_pools [OF conjunct1 [OF e] sec [of j]] acts(2) by (cases "j = i") simp_all
    ultimately show ?thesis by (simp add: server_ok_def acts(1) x)
  next
    case (reuses i k t r c pool)
    note e = reuse_test_effect [OF reuses(5)]
    have "moves (sv_stream \<sigma> i, sv_world \<sigma>) (sv_stream \<sigma> i, sv_world \<sigma>)" using apartD(2) [OF a] by (simp add: moves_def)
    from apart_move [OF a e(1) this] have "apart c (sv_world \<sigma>) (sv_stream \<sigma>)" by simp
    moreover have "\<not> holds_lock (sv_phase \<sigma> j)" for j using section_owner [OF sec [of j]] reuses(3) by auto
    ultimately show ?thesis using e reuses(4) by (auto simp: server_ok_def reuses(1) section_ok_def [of _ _ i])
  next
    case (recycles i b)
    have "\<not> holds_lock (sv_phase \<sigma> j)" for j using section_owner [OF sec [of j]] recycles(3) by auto
    then show ?thesis using a recycles(4) by (auto simp: server_ok_def recycles(1) section_ok_def [of _ _ i])
  next
    case (leaves i x)
    obtain c s w where x: "x = (c, s, w)" by (rule prod_cases3)
    have p: "apart c w ((sv_stream \<sigma>)(i := s))" "\<not> holds_lock (sv_phase \<sigma> i) \<Longrightarrow> c = sv_config \<sigma>"
      using section_rest_apart [OF ok, of i] by (simp_all add: leaves(3) x)
    have "section_ok c (if holds_lock (sv_phase \<sigma> i) then None else sv_owner \<sigma>) j (((sv_stream \<sigma>)(i := s)) j)
        (((sv_phase \<sigma>)(i := Outside)) j)" for j
    proof (cases "holds_lock (sv_phase \<sigma> i) \<and> j \<noteq> i")
      case True
      then have "\<not> holds_lock (sv_phase \<sigma> j)" using section_owner [OF sec [of i]] section_owner [OF sec [of j]] by auto
      then show ?thesis using True by simp
    next
      case False
      then show ?thesis using p(2) sec [of j] by (cases "j = i") simp_all
    qed
    then show ?thesis using p(1) by (simp add: server_ok_def leaves(1) x)
  qed
qed


subsection \<open>A request as a run of one thread\<close>

text \<open>
  \<open>turn x y\<close>: a thread that sees \<open>x\<close> can bring about \<open>y\<close> in steps of its own, while no other is in a
  section. The routines of the module are such turns, so that the steps cover what they do.
\<close>

definition turn :: "connect \<Rightarrow> config \<times> io \<Rightarrow> config \<times> io \<Rightarrow> bool" where
  "turn connect x y \<longleftrightarrow> (\<forall>\<sigma> i locks. sv_phase \<sigma> i = Outside \<longrightarrow> seen_by \<sigma> i = x \<longrightarrow> sv_owner \<sigma> = None \<longrightarrow>
     (server_step connect locks)\<^sup>*\<^sup>* \<sigma> (put_back i y \<sigma>))"

lemma turn_refl [simp]: "turn connect x x"
  by (auto simp: turn_def)

lemma turn_trans [trans]: "turn connect x y \<Longrightarrow> turn connect y z \<Longrightarrow> turn connect x z"
  unfolding turn_def using rtranclp_trans [of "server_step connect _"] by (metis put_back_simps(4,5) seen_put(1,2))

lemma turn_act: "act connect x y \<Longrightarrow> turn connect x y"
  unfolding turn_def using server_step.acts by blast

lemma turn_io: "io_step\<^sup>*\<^sup>* x y \<Longrightarrow> turn connect (c, x) (c, y)"
proof (induction rule: rtranclp_induct)
  case (step y z)
  have "act connect (c, y) (c, z)" using act.traffic [of "fst y" "snd y" "fst z" "snd z" connect c] step.hyps(2) by simp
  then show ?case using step.IH turn_act turn_trans by blast
qed simp

lemma turn_section:
  assumes "\<And>\<sigma> i locks. sv_phase \<sigma> i = Outside \<Longrightarrow> seen_by \<sigma> i = x \<Longrightarrow> sv_owner \<sigma> = None \<Longrightarrow>
      \<exists>c ph owner. server_step connect locks \<sigma> (\<sigma>\<lparr>sv_config := c, sv_phase := (sv_phase \<sigma>)(i := ph), sv_owner := owner\<rparr>) \<and>
        ph \<noteq> Outside \<and> (\<not> holds_lock ph \<longrightarrow> owner = None) \<and>
        section_rest (\<sigma>\<lparr>sv_config := c, sv_phase := (sv_phase \<sigma>)(i := ph), sv_owner := owner\<rparr>) i = Inr y"
  shows "turn connect x y"
  unfolding turn_def
proof (intro allI impI)
  fix \<sigma> i locks assume \<sigma>: "sv_phase \<sigma> i = Outside" "seen_by \<sigma> i = x" "sv_owner \<sigma> = None"
  obtain c ph owner where st: "server_step connect locks \<sigma> (\<sigma>\<lparr>sv_config := c, sv_phase := (sv_phase \<sigma>)(i := ph), sv_owner := owner\<rparr>)"
    and ph: "ph \<noteq> Outside" "\<not> holds_lock ph \<longrightarrow> owner = None"
    and p: "section_rest (\<sigma>\<lparr>sv_config := c, sv_phase := (sv_phase \<sigma>)(i := ph), sv_owner := owner\<rparr>) i = Inr y"
    using assms [OF \<sigma>] by blast
  let ?\<tau> = "\<sigma>\<lparr>sv_config := c, sv_phase := (sv_phase \<sigma>)(i := ph), sv_owner := owner\<rparr>"
  have "server_step connect locks ?\<tau> ((put_back i y ?\<tau>)\<lparr>sv_phase := (sv_phase ?\<tau>)(i := Outside),
      sv_owner := (if holds_lock (sv_phase ?\<tau> i) then None else sv_owner ?\<tau>)\<rparr>)"
    by (rule server_step.leaves) (use ph(1) p in simp_all)
  moreover have "(put_back i y ?\<tau>)\<lparr>sv_phase := (sv_phase ?\<tau>)(i := Outside),
      sv_owner := (if holds_lock (sv_phase ?\<tau> i) then None else sv_owner ?\<tau>)\<rparr> = put_back i y \<sigma>"
  proof -
    have "(sv_phase \<sigma>)(i := Outside) = sv_phase \<sigma>" using \<sigma>(1) by auto
    then show ?thesis using \<sigma>(3) ph(2) by (cases y) (simp add: put_back_def)
  qed
  ultimately show "(server_step connect locks)\<^sup>*\<^sup>* \<sigma> (put_back i y \<sigma>)"
    using st by (metis converse_rtranclp_into_rtranclp r_into_rtranclp)
qed

lemma turn_reuse:
  assumes "cse_reuse_socket k t pool (c, s, w) = Inr (ok, y)" "s_socket s < 0"
  shows "turn connect (c, s, w) y"
proof (rule turn_section)
  fix \<sigma> i locks assume \<sigma>: "sv_phase \<sigma> i = Outside" "seen_by \<sigma> i = (c, s, w)" "sv_owner \<sigma> = None"
  obtain b c1 where t: "reuse_test k t c = Inr (b, c1)" "reuse_update b k t pool (c1, s, w) = Inr (ok, y)"
    using assms(1) by (auto simp: reuse_cut bindR_Inr_iff)
  have v: "sv_config \<sigma> = c" "sv_stream \<sigma> i = s" "sv_world \<sigma> = w" using \<sigma>(2) by (simp_all add: seen_by_def)
  let ?\<tau> = "\<sigma>\<lparr>sv_config := c1, sv_phase := (sv_phase \<sigma>)(i := Reusing b k t pool), sv_owner := Some i\<rparr>"
  have "server_step connect locks \<sigma> ?\<tau>"
    by (rule server_step.reuses) (use \<sigma> v assms(2) t(1) in simp_all)
  moreover have "section_rest ?\<tau> i = Inr y" using t(2) v by (simp add: section_rest_def seen_by_def)
  ultimately show "\<exists>c ph owner. server_step connect locks \<sigma> (\<sigma>\<lparr>sv_config := c, sv_phase := (sv_phase \<sigma>)(i := ph), sv_owner := owner\<rparr>) \<and>
        ph \<noteq> Outside \<and> (\<not> holds_lock ph \<longrightarrow> owner = None) \<and>
        section_rest (\<sigma>\<lparr>sv_config := c, sv_phase := (sv_phase \<sigma>)(i := ph), sv_owner := owner\<rparr>) i = Inr y"
    by (intro exI [of _ c1] exI [of _ "Reusing b k t pool"] exI [of _ "Some i"]) simp
qed

lemma turn_recycle:
  assumes "cse_recycle (c, s, w) = Inr y"
  shows "turn connect (c, s, w) y"
proof (rule turn_section)
  fix \<sigma> i locks assume \<sigma>: "sv_phase \<sigma> i = Outside" "seen_by \<sigma> i = (c, s, w)" "sv_owner \<sigma> = None"
  obtain b where t: "recycle_test c s = Inr b" "recycle_update b (c, s, w) = Inr y"
    using assms by (auto simp: recycle_cut bindR_Inr_iff)
  have v: "sv_config \<sigma> = c" "sv_stream \<sigma> i = s" "sv_world \<sigma> = w" using \<sigma>(2) by (simp_all add: seen_by_def)
  let ?o = "if b then Some i else sv_owner \<sigma>"
  have "server_step connect locks \<sigma> (\<sigma>\<lparr>sv_phase := (sv_phase \<sigma>)(i := Recycling b), sv_owner := ?o\<rparr>)"
    by (rule server_step.recycles) (use \<sigma> v t(1) in simp_all)
  moreover have "\<sigma>\<lparr>sv_phase := (sv_phase \<sigma>)(i := Recycling b), sv_owner := ?o\<rparr> =
      \<sigma>\<lparr>sv_config := c, sv_phase := (sv_phase \<sigma>)(i := Recycling b), sv_owner := ?o\<rparr>" using v(1) by simp
  moreover have "section_rest (\<sigma>\<lparr>sv_config := c, sv_phase := (sv_phase \<sigma>)(i := Recycling b), sv_owner := ?o\<rparr>) i = Inr y"
    using t(2) v by (simp add: section_rest_def seen_by_def)
  ultimately show "\<exists>c ph owner. server_step connect locks \<sigma> (\<sigma>\<lparr>sv_config := c, sv_phase := (sv_phase \<sigma>)(i := ph), sv_owner := owner\<rparr>) \<and>
        ph \<noteq> Outside \<and> (\<not> holds_lock ph \<longrightarrow> owner = None) \<and>
        section_rest (\<sigma>\<lparr>sv_config := c, sv_phase := (sv_phase \<sigma>)(i := ph), sv_owner := owner\<rparr>) i = Inr y"
    using \<sigma>(3) by (intro exI [of _ c] exI [of _ "Recycling b"] exI [of _ ?o]) simp
qed

text \<open>Searches: turns that end with a connection or without one.\<close>

abbreviation bare :: "config \<times> io \<Rightarrow> bool" where
  "bare x \<equiv> s_socket (fst (snd x)) < 0"

definition turns :: "config \<times> io \<Rightarrow> (bool \<times> config \<times> io) res \<Rightarrow> bool" where
  "turns x m \<longleftrightarrow> unless_fault (\<lambda>(ok, y). turn cse_connect x y \<and> (ok \<or> bare y)) m"

lemma turns_Inl [simp]: "turns x (Inl e)"
  by (simp add: turns_def unless_fault_def)

lemma turns_Inr [simp]: "turns x (Inr (ok, y)) \<longleftrightarrow> turn cse_connect x y \<and> (ok \<or> bare y)"
  by (simp add: turns_def)

lemma turns_seq:
  assumes "turns x m" "\<And>ok y. turn cse_connect x y \<Longrightarrow> ok \<or> bare y \<Longrightarrow> turns x (f ok y)"
  shows "turns x (bindR m (\<lambda>(ok, y). f ok y))"
proof (cases m)
  case (Inr r)
  obtain ok y where r: "r = (ok, y)" by (rule prod.exhaust)
  have "turn cse_connect x y \<and> (ok \<or> bare y)" using assms(1) by (simp add: Inr r)
  then show ?thesis using assms(2) by (simp add: Inr r)
qed simp

lemma turns_get: "(\<And>r. get_srun c k = Inr r \<Longrightarrow> turns x (f r)) \<Longrightarrow> turns x (bindR (get_srun c k) f)"
  by (cases "get_srun c k") simp_all

lemma turns_after: "turn cse_connect x y \<Longrightarrow> turns y m \<Longrightarrow> turns x m"
  unfolding turns_def unless_fault_def using turn_trans by (fastforce split: sum.splits)

lemma turns_reuse: "bare x \<Longrightarrow> turns x (cse_reuse_socket k t pool x)"
proof -
  assume b: "bare x"
  obtain c s w where x: "x = (c, s, w)" by (rule prod_cases3)
  have "ok \<or> bare y" if "cse_reuse_socket k t pool (c, s, w) = Inr (ok, y)" for ok y
    using that b by (auto simp: x reuse_cut reuse_update_def bindR_Inr_iff split: if_splits)
  then show ?thesis using turn_reuse [of k t pool c s w] b by (auto simp: x turns_def intro!: unless_faultI)
qed

lemma turns_open: "bare x \<Longrightarrow> turns x (open_and_mark k t pool wait x)"
proof -
  assume b: "bare x"
  obtain c s w where x: "x = (c, s, w)" by (rule prod_cases3)
  have "turns x (cse_open k pool wait x)"
  proof -
    have "ok \<or> bare y" if "cse_open k pool wait x = Inr (ok, y)" for ok y
      by (rule cse_open_by_result [OF that [unfolded x cse_open_by_posix]]) auto
    moreover have "turn cse_connect x y" if "cse_open k pool wait x = Inr (ok, y)" for ok y
      using that b unfolding x cse_open_by_posix by (intro turn_act act.dial) simp_all
    ultimately show ?thesis by (auto simp: turns_def intro!: unless_faultI)
  qed
  then show ?thesis unfolding open_and_mark_def
  proof (rule turns_seq)
    fix ok y assume y: "turn cse_connect x y" "ok \<or> bare y"
    show "turns x (if ok then bindR (opened k t y) (\<lambda>x. Inr (True, x)) else Inr (False, y))"
    proof (cases "opened k t y")
      case (Inr z)
      then have "turn cse_connect y z" by (intro turn_act act.alive)
      then show ?thesis using y Inr turn_trans by auto
    qed (use y in auto)
  qed
qed

lemma turns_reuse_loop: "bare x \<Longrightarrow> turns x (reuse_loop t pool ks x)"
proof (induction ks arbitrary: x)
  case (Cons k ks)
  show ?case unfolding reuse_loop.simps
  proof (rule turns_get)
    fix r
    have "turns x (bindR (cse_reuse_socket k t pool x) (\<lambda>(ok, x). if ok then Inr (True, x) else reuse_loop t pool ks x))"
      by (rule turns_seq [OF turns_reuse [OF Cons.prems]]) (auto intro: turns_after Cons.IH)
    then show "turns x (if sr_is_backup r then reuse_loop t pool ks x
        else bindR (cse_reuse_socket k t pool x) (\<lambda>(ok, x). if ok then Inr (True, x) else reuse_loop t pool ks x))"
      using Cons by simp
  qed
qed simp

lemma turns_primary_loop: "bare x \<Longrightarrow> turns x (primary_loop session t pool ks x)"
proof (induction ks arbitrary: x)
  case (Cons k ks)
  have next_k: "turns y (bindR (open_and_mark k t pool False y) (\<lambda>(ok, x). if ok then Inr (True, x) else primary_loop session t pool ks x))"
    if "bare y" for y
    by (rule turns_seq [OF turns_open [OF that]]) (auto intro: turns_after Cons.IH)
  have "turns x (bindR (cse_reuse_socket k t pool x) (\<lambda>(ok, x). if ok then Inr (True, x)
      else bindR (get_srun (fst x) k) (\<lambda>srun.
        if sr_is_dead srun \<and> sr_last_time srun + word_of_int (sr_dead_time srun) \<ge> t then primary_loop session t pool ks x
        else bindR (open_and_mark k t pool False x) (\<lambda>(ok, x). if ok then Inr (True, x) else primary_loop session t pool ks x))))"
  proof (rule turns_seq [OF turns_reuse [OF Cons.prems]])
    fix ok y assume y: "turn cse_connect x y" "ok \<or> bare y"
    show "turns x (if ok then Inr (True, y)
      else bindR (get_srun (fst y) k) (\<lambda>srun.
        if sr_is_dead srun \<and> sr_last_time srun + word_of_int (sr_dead_time srun) \<ge> t then primary_loop session t pool ks y
        else bindR (open_and_mark k t pool False y) (\<lambda>(ok, x). if ok then Inr (True, x) else primary_loop session t pool ks x)))"
    proof (cases ok)
      case False
      then have b: "bare y" using y(2) by simp
      show ?thesis unfolding if_not_P [OF False]
        by (rule turns_after [OF y(1)], rule turns_get) (simp add: Cons.IH [OF b] next_k [OF b])
    qed (use y in simp)
  qed
  then show ?case unfolding primary_loop.simps open_then_mark by (intro turns_get) (simp add: Cons)
qed simp

lemma turns_last_resort_loop: "bare x \<Longrightarrow> turns x (last_resort_loop t pool ks x)"
proof (induction ks arbitrary: x)
  case (Cons k ks)
  have dead: "turns y (bindR (get_srun (fst y) k) (\<lambda>srun. last_resort_loop t pool ks
      (put_srun k (srun\<lparr>sr_is_dead := True, sr_last_time := t\<rparr>) (fst y), snd y)))" if b: "bare y" for y
  proof (rule turns_get)
    fix r assume r: "get_srun (fst y) k = Inr r"
    have "turn cse_connect y (put_srun k (r\<lparr>sr_is_dead := True, sr_last_time := t\<rparr>) (fst y), snd y)"
      using act.dead [OF r, of cse_connect "fst (snd y)" "snd (snd y)" t] by (intro turn_act) simp
    then show "turns y (last_resort_loop t pool ks (put_srun k (r\<lparr>sr_is_dead := True, sr_last_time := t\<rparr>) (fst y), snd y))"
      by (rule turns_after) (rule Cons.IH, use b in simp)
  qed
  have next_k: "turns y (bindR (open_and_mark k t pool True y) (\<lambda>(ok, x). if ok then Inr (True, x)
      else bindR (get_srun (fst x) k) (\<lambda>srun. last_resort_loop t pool ks
        (put_srun k (srun\<lparr>sr_is_dead := True, sr_last_time := t\<rparr>) (fst x), snd x))))" if "bare y" for y
    by (rule turns_seq [OF turns_open [OF that]]) (auto intro: turns_after dead)
  show ?case unfolding last_resort_loop.simps open_then_mark
    by (rule turns_seq [OF turns_reuse [OF Cons.prems]]) (auto intro: turns_after next_k)
qed simp


lemma turns_search: "bare x \<Longrightarrow> turns x (search session t pool ks x)"
proof -
  assume b: "bare x"
  have 1: "turns x (if session < 0 then reuse_loop t pool (map int ks) x else Inr (False, x))"
    using b turns_reuse_loop [OF b] by simp
  have 2: "turns y (if ok then Inr (True, y) else primary_loop session t pool (map int ks) y)" if "ok \<or> bare y" for ok y
    using that turns_primary_loop [of y] by auto
  have 3: "turns y (if ok then Inr (True, y) else last_resort_loop t pool (map int ks) y)" if "ok \<or> bare y" for ok y
    using that turns_last_resort_loop [of y] by auto
  show ?thesis unfolding search_def
    by (rule turns_seq [OF 1], rule turns_after, assumption, rule turns_seq [OF 2], assumption, rule turns_after, assumption, rule 3)
qed

interpretation io_steps: traffic "io_step\<^sup>*\<^sup>*"
  by unfold_locales (auto intro: io_step.intros r_into_rtranclp rtranclp_trans)

text \<open>A connection is searched, used for a request, and given back in steps of the thread.\<close>

lemma request_turn:
  assumes "config_ok c" "pools_ok (srun_list c) (set (open_fds w))" "stream_ok s" "s_socket s < 0"
    and "caucho_request sub_req page rand pool a g c r (s, w) = Inr (status, g', c', r', y)"
  shows "turn cse_connect (c, s, w) (c', y)"
proof (cases "r_setup r = 0")
  case False
  then show ?thesis using assms(5) by (simp add: caucho_request_def)
next
  case True
  let ?r = "api SoftTimeout r"
  obtain session where session: "get_session_index (r_headers_in ?r) (r_uri ?r) = Inr session"
    using True assms(5) by (auto simp: caucho_request_def Let_def bindR_Inr_iff)
  obtain ok g1 c1 s1 w1 where o: "cse_open_connection session (r_remote_ip ?r) (r_request_time ?r) rand pool g (c, s, w) =
      Inr (ok, g1, c1, s1, w1)"
    using True assms(5) session by (auto simp: caucho_request_def Let_def bindR_Inr_iff)
  obtain ks g2 s0 where e: "cse_open_connection session (r_remote_ip ?r) (r_request_time ?r) rand pool g (c, s, w) =
      bindR (search session (r_request_time ?r) pool ks (c, s0, w)) (\<lambda>(ok, c', s', w').
        Inr (ok, g2, c', s', if ok then cse_set_socket_cleanup (s_socket s') pool w' else w'))"
    and s0: "s0 = (reset_stream pool s)\<lparr>s_srun := None\<rparr>"
    by (rule cse_open_connection_search [OF assms(1-3), of session "r_remote_ip ?r" "r_request_time ?r" rand pool g])
  have start: "turn cse_connect (c, s, w) (c, s0, w)" unfolding s0 by (intro turn_act act.start assms(4))
  have "bare (c, s0, w)" by (simp add: s0 reset_stream_def)
  from turns_search [OF this, of session "r_request_time ?r" pool ks] obtain w2 where
    sr: "turn cse_connect (c, s0, w) (c1, s1, w2)" "w1 = (if ok then cse_set_socket_cleanup (s_socket s1) pool w2 else w2)"
    using o unfolding e turns_def by (auto simp: bindR_Inr_iff unless_fault_def split: sum.splits)
  have "turn cse_connect (c1, s1, w2) (c1, s1, w1)"
    unfolding sr(2) using turn_act [OF act.cleanup [of cse_connect c1 s1 w2 pool]] by simp
  with start sr(1) have found: "turn cse_connect (c, s, w) (c1, s1, w1)" using turn_trans by blast
  show ?thesis
  proof (cases ok)
    case False
    then have "c' = c1" "y = (s1, w1)"
      using True assms(5) session o by (auto simp: caucho_request_def Let_def bindR_Inr_iff)
    then show ?thesis using found by simp
  next
    case ok: True
    obtain reuse keepalive r1 x2 where wr: "write_request c1 a False ?r (s1, w1) = Inr (reuse, keepalive, r1, x2)"
      "(if reuse then bindR (cse_recycle (c1, x2)) (\<lambda>(config, x). Inr (0, g1, config, api RFlush (api KillTimeout r1), x))
        else Inr (0, g1, c1, api RFlush (api KillTimeout r1), cse_close x2)) = Inr (status, g', c', r', y)"
      using True assms(5) session o ok by (auto simp: caucho_request_def Let_def bindR_Inr_iff)
    have used: "turn cse_connect (c1, s1, w1) (c1, x2)" by (rule turn_io [OF io_steps.R_write_request [OF wr(1)]])
    have "turn cse_connect (c1, x2) (c', y)"
    proof (cases reuse)
      case True
      then have "cse_recycle (c1, fst x2, snd x2) = Inr (c', y)" using wr(2) by (auto simp: bindR_Inr_iff)
      from turn_recycle [OF this, of cse_connect] show ?thesis by simp
    next
      case False
      then have "c' = c1" "y = cse_close x2" using wr(2) by auto
      then show ?thesis using turn_io [OF io_steps.R_close [of "fst x2" "snd x2"]] by simp
    qed
    then show ?thesis using found used turn_trans by blast
  qed
qed


subsection \<open>Without the lock\<close>

lemma reuse_test_eq:
  assumes "k < length (srun_list c)"
  shows "reuse_test (int k) t c = Inr (reusable t (srun_list c ! k), put_srun (int k) (clamp_time t (srun_list c ! k)) c)"
  using assms by (simp add: reuse_test_def reusable_def clamp_time_def Let_def)

lemma clamp_again [simp]: "clamp_time t (clamp_time t r) = clamp_time t r" "reusable t (clamp_time t r) = reusable t r"
  by (simp_all add: clamp_time_def reusable_def)

lemma three_steps: "r a b \<Longrightarrow> r b c \<Longrightarrow> r c d \<Longrightarrow> r\<^sup>*\<^sup>* a d"
  by (rule converse_rtranclp_into_rtranclp, assumption, rule converse_rtranclp_into_rtranclp, assumption, rule r_into_rtranclp)

lemma race:
  assumes ph: "sv_phase \<sigma> i = Outside" "sv_phase \<sigma> j = Outside" "i \<noteq> j"
    and bare: "s_socket (sv_stream \<sigma> i) < 0" "s_socket (sv_stream \<sigma> j) < 0"
    and k: "k < length (srun_list (sv_config \<sigma>))" "sr_n_sockets (srun_list (sv_config \<sigma>) ! k) = 1" "reusable t (srun_list (sv_config \<sigma>) ! k)"
  shows "\<exists>\<sigma>'. (server_step connect False)\<^sup>*\<^sup>* \<sigma> \<sigma>' \<and> section_rest \<sigma>' j = Inl OutOfBounds"
proof -
  let ?r = "clamp_time t (srun_list (sv_config \<sigma>) ! k)" let ?c = "put_srun (int k) ?r (sv_config \<sigma>)"
  let ?p = "Reusing True (int k) t 0"
  let ?s1 = "\<sigma>\<lparr>sv_config := ?c, sv_phase := (sv_phase \<sigma>)(i := ?p), sv_owner := Some i\<rparr>"
  let ?s2 = "?s1\<lparr>sv_config := ?c, sv_phase := (sv_phase ?s1)(j := ?p), sv_owner := Some j\<rparr>"
  let ?r3 = "?r\<lparr>sr_n_sockets := 0, sr_is_dead := False, sr_last_time := t\<rparr>"
  have k1: "k < length (srun_list ?c)" "srun_list ?c ! k = ?r" using k(1) by simp_all
  have again: "put_srun (int k) ?r ?c = ?c" by (simp add: put_srun_def)
  have 1: "server_step connect False \<sigma> ?s1"
    by (rule server_step.reuses) (use ph(1) bare(1) reuse_test_eq [OF k(1), of t] k(3) in simp_all)
  have 2: "server_step connect False ?s1 ?s2"
    by (rule server_step.reuses) (use ph(2,3) bare(2) reuse_test_eq [OF k1(1), of t] k1(2) k(3) again in simp_all)
  have n: "sr_n_sockets ?r = 1" using k(2) by simp
  let ?s = "(sv_stream \<sigma> i)\<lparr>s_pool := 0, s_write_buf := [], s_read_length := 0, s_read_offset := 0,
    s_socket := sr_sockets ?r 0, s_update_count := update_count ?c, s_srun := Some k\<rparr>"
  let ?x = "(put_srun (int k) ?r3 ?c, ?s, sv_world \<sigma>)"
  have "section_rest ?s2 i = Inr ?x"
    using ph(3) k1 n by (simp add: section_rest_def seen_by_def reuse_update_def cse_reuse_def pop_socket_def get_socket_def SOCKETS_LENGTH_def Let_def)
  moreover have "sv_phase ?s2 i \<noteq> Outside" using ph(3) by simp
  ultimately have 3: "server_step connect False ?s2 ((put_back i ?x ?s2)\<lparr>sv_phase := (sv_phase ?s2)(i := Outside),
      sv_owner := (if holds_lock (sv_phase ?s2 i) then None else sv_owner ?s2)\<rparr>)" (is "server_step _ _ _ ?s3")
    by (rule server_step.leaves [rotated])
  have "sv_phase ?s3 j = ?p" "sv_config ?s3 = put_srun (int k) ?r3 ?c" using ph(3) by simp_all
  moreover have "srun_list (put_srun (int k) ?r3 ?c) ! k = ?r3" "k < length (srun_list (put_srun (int k) ?r3 ?c))" using k(1) by simp_all
  ultimately have "section_rest ?s3 j = Inl OutOfBounds"
    by (simp add: section_rest_def seen_by_def reuse_update_def cse_reuse_def pop_socket_def get_socket_def Let_def)
  moreover have "(server_step connect False)\<^sup>*\<^sup>* \<sigma> ?s3"
    by (rule three_steps [of "server_step connect False", OF 1 2 3])
  ultimately show ?thesis by blast
qed

subsection \<open>A small instance\<close>

text \<open>Two threads; the first holds the only connection.\<close>

definition sample_server :: server where
  "sample_server = \<lparr>sv_config = cse_create_server_config, sv_world = busy_world,
     sv_stream = (\<lambda>i. if i = 0 then busy_stream else fresh_stream), sv_phase = (\<lambda>i. Outside), sv_owner = None\<rparr>"

lemma sample_server_apart: "apart (sv_config sample_server) (sv_world sample_server) (sv_stream sample_server)"
  using busy_holds fresh_stream_ok by (auto simp: apart_def sample_server_def holds_def busy_stream_def fresh_stream_def)

lemma sample_server_runs:
  obtains c s w where "(server_step connect locks)\<^sup>*\<^sup>* sample_server (put_back 0 (c, s, w) sample_server)" "s_socket s = -1"
    "0 < length (srun_list c)" "sr_n_sockets (srun_list c ! 0) = 1" "reusable 0 (srun_list c ! 0)"
proof -
  obtain c s w where r: "cse_recycle (cse_create_server_config, busy_stream, busy_world) = Inr (c, s, w)"
    "s = busy_stream\<lparr>s_socket := -1\<rparr>" "same_runners cse_create_server_config c"
    "sr_n_sockets (srun_list c ! 0) = sr_n_sockets (srun_list cse_create_server_config ! 0) + 1"
    "sr_last_time (srun_list c ! 0) = sr_last_time (srun_list cse_create_server_config ! 0)"
    "sr_live_time (srun_list c ! 0) = sr_live_time (srun_list cse_create_server_config ! 0)"
    using recycle_pooled [OF busy_holds busy_room] by (auto simp: returns_iff)
  have "turn connect (cse_create_server_config, busy_stream, busy_world) (c, s, w)" by (rule turn_recycle [OF r(1)])
  then have "(server_step connect locks)\<^sup>*\<^sup>* sample_server (put_back 0 (c, s, w) sample_server)"
    by (simp add: turn_def sample_server_def seen_by_def)
  moreover have "0 < length (srun_list c)" using same_runners_length [OF r(3)] by (simp add: initial_srun_list)
  moreover have n: "sr_n_sockets (srun_list c ! 0) = 1" using r(4) by (simp add: initial_srun_list zero_srun_def)
  moreover have "reusable 0 (srun_list c ! 0)"
    using n r(5,6) by (simp add: reusable_def clamp_time_def initial_srun_list zero_srun_def)
  ultimately show thesis using that [of c s w] r(2) by simp
qed

subsection \<open>Properties\<close>

text \<open>
  C8: with the lock no two threads have the same connection. From a state in which the threads are outside the
  sections, hold different open descriptors and none that is in a pool, every interleaving of
  their steps leads to such states only, pools included, and whenever a thread is in a section its
  update does not fault; whatever the network does, and whichever routine connects.
\<close>

theorem threads_own_descriptors:
  assumes "\<forall>a p. connects (connect a p)" "apart (sv_config \<sigma>) (sv_world \<sigma>) (sv_stream \<sigma>)" "\<forall>i. sv_phase \<sigma> i = Outside"
    and "(server_step connect True)\<^sup>*\<^sup>* \<sigma> \<sigma>'"
  shows "apart (sv_config \<sigma>') (sv_world \<sigma>') (sv_stream \<sigma>') \<and> (\<forall>i. returns (\<lambda>_. True) (section_rest \<sigma>' i))"
proof -
  have "server_ok \<sigma>'" using assms(4)
  proof (induction rule: rtranclp_induct)
    case base
    show ?case using assms(2,3) by (simp add: server_ok_def)
  next
    case (step \<sigma>1 \<sigma>2)
    show ?case by (rule server_step_ok [OF _ step.hyps(2) step.IH]) (use assms(1) in simp)
  qed
  then show ?thesis using returns_mono [OF section_rest_apart] by (simp add: server_ok_def)
qed

theorem threads_own_descriptors_witness:
  "\<exists>\<sigma>. (server_step cse_connect_windows True)\<^sup>*\<^sup>* sample_server \<sigma> \<and> \<sigma> \<noteq> sample_server \<and>
     apart (sv_config \<sigma>) (sv_world \<sigma>) (sv_stream \<sigma>)"
proof -
  obtain c s w where r: "(server_step cse_connect_windows True)\<^sup>*\<^sup>* sample_server (put_back 0 (c, s, w) sample_server)" "s_socket s = -1"
    by (rule sample_server_runs)
  have "s_socket (sv_stream sample_server 0) \<noteq> -1" by (simp add: sample_server_def busy_stream_def)
  then have "put_back 0 (c, s, w) sample_server \<noteq> sample_server" using r(2) by (metis fun_upd_same put_back_simps(3))
  moreover have "\<forall>i. sv_phase sample_server i = Outside" by (simp add: sample_server_def)
  from threads_own_descriptors [OF _ sample_server_apart this r(1)]
  have "apart (sv_config (put_back 0 (c, s, w) sample_server)) (sv_world (put_back 0 (c, s, w) sample_server))
      (sv_stream (put_back 0 (c, s, w) sample_server))" using cse_connect_windows_connects by blast
  ultimately show ?thesis using r(1) by blast
qed

text \<open>
  C9: the handler of a request is a run of these steps. When no other thread is in a section, a thread can
  serve a request to its end in steps of its own, with the result that \<open>caucho_request\<close> computes; so
  the steps leave out nothing of what the module does to a connection and to the pools.
\<close>

theorem request_is_run:
  assumes "sv_phase \<sigma> i = Outside" "sv_owner \<sigma> = None" "seen_by \<sigma> i = (c, s, w)"
    and "config_ok c" "pools_ok (srun_list c) (set (open_fds w))" "stream_ok s" "s_socket s < 0"
    and "caucho_request sub_req page rand pool a g c r (s, w) = Inr (status, g', c', r', y)"
  shows "(server_step cse_connect locks)\<^sup>*\<^sup>* \<sigma> (put_back i (c', y) \<sigma>)"
  using request_turn [OF assms(4-8)] assms(1-3) by (simp add: turn_def)

theorem request_is_run_witness:
  "\<exists>c0 c y. open_fds (snd y) = [] \<and>
     (server_step cse_connect True)\<^sup>*\<^sup>* (sample_server\<lparr>sv_config := c0, sv_world := deaf_world\<rparr>)
       (put_back 1 (c, y) (sample_server\<lparr>sv_config := c0, sv_world := deaf_world\<rparr>))"
proof -
  obtain c0 g c r s w where d: "cse_open_child cse_create_server_config deaf_world = Inr (c0, deaf_world)" "open_fds w = []"
    "caucho_request (\<lambda>_. (404, 0)) None 1 7 blank_arrays 0 c0 quiet_request (fresh_stream, deaf_world) = Inr (0, g, c, r, s, w)"
    using deaf_request by blast
  have ok: "config_ok c0" "pools_ok (srun_list c0) (set (open_fds deaf_world))"
    by (rule open_child_keeps [OF initial_runners(1) d(1)])+
  let ?c = "sample_server\<lparr>sv_config := c0, sv_world := deaf_world\<rparr>"
  have s: "sv_phase ?c 1 = Outside" "sv_owner ?c = None" "seen_by ?c 1 = (c0, fresh_stream, deaf_world)" "s_socket fresh_stream < 0"
    by (simp_all add: sample_server_def seen_by_def fresh_stream_def)
  from request_is_run [OF s(1-3) ok fresh_stream_ok s(4) d(3), of True] show ?thesis
    using d(2) by (intro exI [of _ c0] exI [of _ c] exI [of _ "(s, w)"]) simp
qed

text \<open>
  C10: without the lock two threads take the same connection. When two threads look for a connection and a
  runner has one idle socket, both can find it in its pool; the one that comes second reads in front of the array.
  The lock is there only after a configuration file has been read, since \<open>cse_create_lock\<close> is called at the end of \<open>cse_init_config\<close>.
\<close>

theorem unlocked_reuse_race:
  assumes "sv_phase \<sigma> i = Outside" "sv_phase \<sigma> j = Outside" "i \<noteq> j"
    and "s_socket (sv_stream \<sigma> i) < 0" "s_socket (sv_stream \<sigma> j) < 0"
    and "k < length (srun_list (sv_config \<sigma>))" "sr_n_sockets (srun_list (sv_config \<sigma>) ! k) = 1" "reusable t (srun_list (sv_config \<sigma>) ! k)"
  shows "\<exists>\<sigma>'. (server_step connect False)\<^sup>*\<^sup>* \<sigma> \<sigma>' \<and> section_rest \<sigma>' j = Inl OutOfBounds"
  by (rule race [OF assms])

theorem unlocked_reuse_race_witness:
  "\<exists>\<sigma>. (server_step cse_connect_windows False)\<^sup>*\<^sup>* sample_server \<sigma> \<and> section_rest \<sigma> 2 = Inl OutOfBounds"
proof -
  obtain c s w where r: "(server_step cse_connect_windows False)\<^sup>*\<^sup>* sample_server (put_back 0 (c, s, w) sample_server)"
    "0 < length (srun_list c)" "sr_n_sockets (srun_list c ! 0) = 1" "reusable 0 (srun_list c ! 0)"
    by (rule sample_server_runs)
  have s: "s_socket fresh_stream < 0" by (simp add: fresh_stream_def)
  have "\<exists>\<sigma>'. (server_step cse_connect_windows False)\<^sup>*\<^sup>* (put_back 0 (c, s, w) sample_server) \<sigma>' \<and> section_rest \<sigma>' 2 = Inl OutOfBounds"
    by (rule unlocked_reuse_race [where i = 1 and k = 0 and t = 0]) (use r(2-4) s in \<open>simp_all add: sample_server_def\<close>)
  then show ?thesis using r(1) by (meson rtranclp_trans)
qed

end
