(* ===== verification/Spec2Isabelle.thy ===== *)
theory Spec2Isabelle
  imports Cse_Threads Cse_Session
begin

text \<open>
  Verification of the native side of Resin's web-server connector: the Apache module
  \<open>mod_caucho\<close> and the library \<open>cse\<close> under \<open>src/srun\<close>. The module runs inside Apache. It reads a
  Resin configuration file, decides for each request whether it belongs to the servlet engine,
  picks one of the configured servlet runners (JVMs), sends it the request over TCP in a packet
  protocol and relays the response. Each child process of Apache keeps idle connections to the
  runners in pools.

  \<^bold>\<open>The parts and their theories.\<close>
  \<^item> Cse_Base, the prelude: faults as values of \<open>'a res\<close>, arrays, C strings, the searches of the
    C library, and the rules by which the other theories reason about runs.
  \<^item> Cse_State (\<open>cse.h\<close>; \<open>cse_create_server_config\<close>): \<open>location_t\<close>, \<open>srun_t\<close> and \<open>config_t\<close> as the
    records \<open>location\<close>, \<open>srun\<close> and \<open>config\<close>.
  \<^item> Cse_World (\<open>cse_connect\<close>, \<open>cse_connect_wait\<close>, the socket cleanups): the operating system as a
    record \<open>world\<close> that holds the answers of the system calls to come, so that each theorem is
    about every behaviour of the network. Open descriptors are tracked.
  \<^item> Cse_Stream (\<open>stream.c\<close>: \<open>stream_t\<close> with its buffers, reads, writes, packets, strings) and
    Cse_Framing (what these do to the two byte sequences between module and runner).
  \<^item> Cse_Pool (\<open>stream.c\<close>: \<open>cse_open\<close>, \<open>cse_reuse\<close>, \<open>cse_recycle\<close>, \<open>cse_close_sockets\<close>, \<open>cse_add_host_int\<close>,
    \<open>open_connection\<close>; the child hooks of \<open>mod_caucho.c\<close>): the operations, and the pool of a runner as
    a stack. Cse_Failover: the search for a connection as a whole. Cse_Lifecycle: recycling,
    closing and adding. Cse_Ownership: who owns a descriptor.
  \<^item> Cse_Session (\<open>decode_session\<close>, \<open>get_session_index\<close>): from a request's cookie or URL to the
    runner that holds the session.
  \<^item> Cse_Location (\<open>config.c\<close>: \<open>cse_add_location\<close> to \<open>cse_match_request\<close>; \<open>cse_dispatch\<close>): the table of
    URL patterns and the decision about a request.
  \<^item> Cse_Request (\<open>mod_caucho.c\<close>: \<open>write_env\<close> to \<open>caucho_request\<close>, \<open>caucho_status\<close>): the handlers, with
    Apache as a log of calls and a script of answers. Cse_Relay: a request and its replies as
    byte sequences.
  \<^item> Cse_Registry (\<open>registry.c\<close>): the tree of configuration entries on a heap of nodes, and the
    parser. Cse_Parse: what the parser does on any input. Cse_Tree: documents, the trees they stand
    for, and trees on the heap. Cse_Document: the parser on the text of documents.
  \<^item> Cse_Config (\<open>config.c\<close>: \<open>cse_init_config\<close> and what it calls; the commands of \<open>mod_caucho.c\<close>): the
    reader of the registry. Cse_Reader: the reader as a function of the element tree.
    Cse_Configured: from the text of a file to runners and locations.
  \<^item> Cse_Child: the life of a server process as the step relation \<open>alive\<close>. This theory composes it
    with the configuration.
  \<^item> Cse_Windows: the branches for Windows, where names are put in lower case and connections are
    timed by events. Cse_Threads: the threads of a Windows process, as the step relation
    \<open>server_step\<close> over shared runners with the lock of \<open>cse_lock\<close> and \<open>cse_unlock\<close>.

  \<^bold>\<open>How state and operations correspond to the code.\<close> A function of the sources is the definition of
  the same name; the body of a loop, a part of a long function or an \<open>#ifdef\<close> that had to be cut
  out has a name of its own (\<open>primary_loop\<close>, \<open>markup\<close>, \<open>given_value\<close>). State is passed explicitly:
  a routine of \<open>stream.c\<close> takes and returns the pair of the stream and the world, one that touches
  the runners the configuration too, the registry's routines the heap and the configuration. A
  runner is named by its index in the array of \<open>config\<close>, a node by its address. What would leave
  the language in C, an access outside an object, a null pointer, a loop that does not end, is
  \<open>Inl\<close> of a \<open>fault\<close>; an error that the code handles is an ordinary value (a return code, a field
  \<open>c_error\<close>). \<open>returns P m\<close> says that \<open>m\<close> ends without a fault and with \<open>P\<close>; so a theorem with it is
  about termination and memory safety as well. C's \<open>unsigned int\<close> is a word of 32 bits where it can
  wrap around (times, the counter of the load balancer, hashes, addresses), its \<open>int\<close> otherwise an
  integer within the bounds that the invariants give. Strings are lists of characters, NUL
  excluded where the code relies on the terminator.

  \<^bold>\<open>What the lemmas show.\<close>
  \<^item> Memory safety: \<open>stream_ok\<close> is kept by every operation of a stream (locale \<open>reading\<close>, with the
    relations that reads keep as its instances, and \<open>traffic\<close> for handlers); \<open>region\<close> by the parser.
    Where the code does leave an array there is a theorem that says so.
  \<^item> Pools and descriptors: \<open>pools_ok\<close> (idle connections are open descriptors, each in one pool, once)
    and \<open>unpooled\<close> (no descriptor is lost), of each operation, of a request, and over the life of a
    child. The pool is a stack (locale \<open>socket_stack\<close>).
  \<^item> Load balancing: what a search returns, that it gives up only when every runner failed, that it
    connects when the network answers, that it keeps to sessions and to primaries.
  \<^item> The protocol: the module's bytes are the packets of the request, and the client is sent what
    the runner's replies say, however the network cuts them in pieces (locale \<open>byte_source\<close>).
  \<^item> Dispatch: what each form of a pattern matches, against reference definitions (\<open>location_matches\<close>,
    \<open>ends_segment\<close>); the substring search by its specification (locale \<open>substring_search\<close>).
  \<^item> The configuration: on any input the parser ends or faults, its nodes form a forest that every
    walk leaves, and older nodes stay; on the text of a document it builds the tree the document denotes;
    the reader computes functions of that tree; so a file determines runners and table.
  \<^item> Threads: under the lock no two threads have the same descriptor, in any interleaving, and without
    it they can; the handler of a request, as it runs alone, is a run of the steps of its thread
    (locale \<open>traffic\<close> again, with the steps on a stream as its relation).
  \<^item> \<open>configured_child\<close> below puts the parts together.

  \<^bold>\<open>Bounds and fuel.\<close> Loops are structural or have a measure, with these exceptions, which run on
  fuel: \<open>match_suffix_loop\<close> (the length of the URL and one; an empty suffix needs no second turn
  after a prefix that matches), the walks over siblings and links of the registry (the number of nodes and
  one: \<open>placed_length\<close>, and for arbitrary files the invariant of Cse_Parse) and includes of files (the number of
  files the process may open, since each level holds one). Configurations have at most 32768 runners
  (\<open>config_ok\<close>), where the array's index and session ids stay small integers. The theorems on
  documents take names and values that fit the scanner's first buffer, 1022 characters, since a
  longer token is damaged (\<open>long_token_damaged\<close>), and the reader's values of at most 500, with
  which its arrays of 4096 bytes cannot overflow. The meaning of a file, \<open>file_trees\<close>, has the same
  number of open files as the parser, so that the theorems hold for files that include themselves.

  \<^bold>\<open>Parameters.\<close> The file system (from path to contents), \<open>gethostbyname\<close>, Apache's
  \<open>server_root_relative\<close> and subrequests, the contents of fresh memory and \<open>rand\<close> are arguments of the
  definitions that use them.

  \<^bold>\<open>Not modelled.\<close> The handle of the lock: a Windows mutex is its owner in \<open>server_step\<close>, and whether there is one a
  parameter; a thread that finds it taken waits, which is no step. A step of \<open>server_step\<close> reads and writes as one, so torn or reordered
  memory accesses are outside the model. \<open>LOG\<close> and \<open>cse_log_config\<close>, which only write a debug log;
  Apache's tables of commands and handlers, which hold pointers. Memory is not exhausted: \<open>cse_malloc\<close> returns. The
  theorems on documents exclude a \<open>resin:include\<close> that is the first child of its parent, except
  \<open>first_include_hides\<close>, which says what becomes of a file that begins with one; Cse_Parse covers it on any input. The rest of the repository is
  HTML documentation, sample configurations and applications, and no C code.
\<close>

subsection \<open>From the configuration file to the exit of a child\<close>

text \<open>What stays of a runner's description while it is used; the port is completed at its first use.\<close>

definition identity :: "runner \<Rightarrow> string option \<times> bool \<times> int \<times> int \<times> int" where
  "identity r = (case r of (host, port, is_backup, connect_timeout, live_time, dead_time) \<Rightarrow>
     (host, is_backup, connect_timeout, live_time, dead_time))"

lemma identity_runner: "srun_conf r = srun_conf q \<Longrightarrow> identity (runner_of r) = identity (runner_of q)"
  by (simp add: srun_conf_def runner_of_def identity_def)

lemma lineup_nth: "config_ok c \<Longrightarrow> k < length (lineup c) \<Longrightarrow> lineup c ! k = runner_of (srun_list c ! k)"
  by (simp add: lineup_def)

lemma lineup_used: "config_ok c \<Longrightarrow> lineup c \<noteq> [] \<Longrightarrow> length (lineup c) = used_size c \<and> 1 \<le> srun_size c"
  by (auto simp: lineup_def used_size_def config_ok_def)

text \<open>A child's state, seen from the configuration it was started with.\<close>

lemma alive_identity:
  assumes "alive c w c' g w'" "runners_ok c {}" "k < length (lineup c)"
  shows "identity (runner_of (srun_list c' ! k)) = identity (lineup c ! k)"
proof -
  obtain c0 where c0: "cse_open_child c w = Inr (c0, w)" "keeps c0 w c' w'" by (rule alive_keeps [OF assms(1,2)])
  have k: "k < length (srun_list c)" "config_ok c" using assms(2,3) by (simp_all add: lineup_def runners_ok_def)
  note o = open_child_keeps(7,8) [OF assms(2) c0(1)]
  have "srun_conf (srun_list c' ! k) = srun_conf (srun_list c0 ! k)"
    by (rule same_runners_nth) (use c0(2) k(1) o(1) in \<open>simp_all add: keeps_def\<close>)
  then show ?thesis using identity_runner o(2) [OF k(1)] lineup_nth [OF k(2) assms(3)] by metis
qed

lemma alive_same_table:
  assumes "alive c w c' g w'" "runners_ok c {}"
  shows "locations c' = locations c" "used_size c' = used_size c"
proof -
  obtain c0 where c0: "cse_open_child c w = Inr (c0, w)" "keeps c0 w c' w'" by (rule alive_keeps [OF assms])
  note o = open_child_keeps(5,6) [OF assms(2) c0(1)]
  show "locations c' = locations c" using c0(2) o(2) by (simp add: keeps_def same_runners_def)
  show "used_size c' = used_size c" using c0(2) o(1) by (simp add: keeps_def same_runners_def used_size_def)
qed

lemma alive_connects:
  assumes "alive c w c' g w'" "runners_ok c {}" "lineup c \<noteq> []" "stream_ok s"
  shows "returns (\<lambda>(ok, g2, c2, s2, w2). ok \<longrightarrow>
      (\<exists>k < length (lineup c). s_srun s2 = Some k \<and> identity (runner_of (srun_list c2 ! k)) = identity (lineup c ! k)))
    (cse_open_connection session ip t rand pool g2 (c', s, w'))"
proof -
  obtain c0 where "config_ok c'" "pools_ok (srun_list c') (set (open_fds w'))" by (rule alive_keeps [OF assms(1,2)])
  then show ?thesis
  proof (rule returns_mono [OF cse_open_connection_spec [OF _ _ assms(4)]])
    fix x assume x: "case x of (ok, g', x') \<Rightarrow> if ok then \<exists>k < used_size c'. connected c' t pool k x'
        else ready c' x' \<and> marked_dead t {..<used_size c'} x'"
    have c: "config_ok c" using assms(2) by (simp add: runners_ok_def)
    have n: "used_size c' = length (lineup c)" using lineup_used [OF c assms(3)] alive_same_table(2) [OF assms(1,2)] by simp
    obtain ok g2 c2 s2 w2 where y: "x = (ok, g2, c2, s2, w2)" by (rule prod_cases5)
    show "case x of (ok, g2, c2, s2, w2) \<Rightarrow> ok \<longrightarrow>
      (\<exists>k < length (lineup c). s_srun s2 = Some k \<and> identity (runner_of (srun_list c2 ! k)) = identity (lineup c ! k))"
    proof (cases ok)
      case True
      then obtain k where k: "k < length (lineup c)" "connected c' t pool k (c2, s2, w2)" using x y n by auto
      have "srun_conf (srun_list c2 ! k) = srun_conf (srun_list c' ! k)"
        by (rule same_runners_nth) (use k(2) in \<open>auto simp: connected_def dest: same_runners_length\<close>)
      then have "identity (runner_of (srun_list c2 ! k)) = identity (lineup c ! k)"
        using identity_runner alive_identity [OF assms(1,2) k(1)] by metis
      then show ?thesis using k y by (auto simp: connected_def)
    qed (simp add: y)
  qed
qed

lemma initial_with_path:
  "c_path (cse_create_server_config\<lparr>c_path := Some path\<rparr>) = Some path" "resin_home (cse_create_server_config\<lparr>c_path := Some path\<rparr>) = None"
  "runners_ok (cse_create_server_config\<lparr>c_path := Some path\<rparr>) {}" "table_ok (cse_create_server_config\<lparr>c_path := Some path\<rparr>)"
  "locations (cse_create_server_config\<lparr>c_path := Some path\<rparr>) = []" "srun_size (cse_create_server_config\<lparr>c_path := Some path\<rparr>) = 1"
  "roster (cse_create_server_config\<lparr>c_path := Some path\<rparr>) = []"
  using keeps_runnersD [of cse_create_server_config "cse_create_server_config\<lparr>c_path := Some path\<rparr>"] initial_runners
  by (simp_all add: cse_create_server_config_def Let_def keeps_runners_def table_ok_def)



end
